(* ===== verification/Servant_Prelude.thy ===== *)
theory Servant_Prelude
  imports Main "HOL-Library.Word" "HOL-Library.Monad_Syntax"
begin

text \<open>
  Shared vocabulary of the development: the machine integer types of the C code, the
  collections of facts the component proofs use, checked array accesses (an access outside
  an array is undefined behaviour in C and is the value \<open>None\<close> here), and the generic
  facts about 32-bit counters that are masked into a ring of a power-of-two size.
\<close>

unbundle bit_operations_syntax

section \<open>Machine integers\<close>

type_synonym u8 = "8 word"
type_synonym u16 = "16 word"
type_synonym u32 = "32 word"
type_synonym u64 = "64 word"

named_theorems ring_arith \<open>facts about masked 32-bit ring counters\<close>
named_theorems copy_simps \<open>evaluation rules of the checked copies\<close>

subsection \<open>Powers of two\<close>

text \<open>The test \<open>slots & (slots - 1)\<close> of the ring initialisation, on naturals first.\<close>

lemma nat_and_pred_even: "(2 * m) AND (2 * m - 1) = 2 * (m AND (m - 1))" if "0 < m" for m :: nat
proof -
  from that have eq: "2 * m - 1 = Suc (2 * (m - 1))" by simp
  show ?thesis unfolding eq by (subst and_rec) simp
qed

lemma nat_and_pred_odd: "Suc (2 * m) AND (Suc (2 * m) - 1) = 2 * m" for m :: nat
  by (subst and_rec) simp

lemma nat_pow2_of_and_pred: "n AND (n - 1) = 0 \<Longrightarrow> 0 < n \<Longrightarrow> \<exists>k. n = 2 ^ k" for n :: nat
proof (induction n rule: less_induct)
  case (less n)
  show ?case
  proof (cases "even n")
    case True
    then obtain m where m: "n = 2 * m" by (elim evenE)
    from less.prems(2) m have pos: "0 < m" by simp
    from less.prems(1) have "m AND (m - 1) = 0" unfolding m nat_and_pred_even [OF pos] by simp
    then obtain k where "m = 2 ^ k" using less.IH [of m] m pos by auto
    with m have "n = 2 ^ Suc k" by simp
    then show ?thesis by blast
  next
    case False
    then obtain m where m: "n = Suc (2 * m)" by (metis oddE Suc_eq_plus1)
    from less.prems(1) have "m = 0" unfolding m nat_and_pred_odd by simp
    with m have "n = 2 ^ 0" by simp
    then show ?thesis by blast
  qed
qed

lemma nat_and_pred_pow2: "2 ^ k AND (2 ^ k - 1) = (0::nat)"
proof (induction k)
  case (Suc k)
  have "2 ^ Suc k AND (2 ^ Suc k - 1) = 2 * (2 ^ k AND (2 ^ k - 1) :: nat)"
    using nat_and_pred_even [of "2 ^ k"] by (simp only: power_Suc zero_less_power zero_less_numeral)
  then show ?case by (simp only: Suc.IH)
qed simp

lemma u32_pow2_check: "slots AND (slots - 1) = 0 \<and> slots \<noteq> 0 \<longleftrightarrow> (\<exists>k<32. unat slots = 2 ^ k)"
  for slots :: u32
proof
  assume L: "slots AND (slots - 1) = 0 \<and> slots \<noteq> 0"
  then have "unat slots AND (unat slots - 1) = 0" and pos: "0 < unat slots"
    by (metis unat_0 unsigned_and_eq unat_minus_one) (use L unat_gt_0 in blast)
  then obtain k where k: "unat slots = 2 ^ k" using nat_pow2_of_and_pred by blast
  moreover have "unat slots < 2 ^ 32" using unsigned_less [of slots] by simp
  ultimately have "k < 32" by (metis nat_power_less_imp_less zero_less_numeral)
  with k show "\<exists>k<32. unat slots = 2 ^ k" by blast
next
  assume "\<exists>k<32. unat slots = 2 ^ k"
  then obtain k where k: "unat slots = 2 ^ k" by blast
  then have nz: "slots \<noteq> 0" by (metis power_not_zero unat_0 zero_neq_numeral)
  have "unat (slots AND (slots - 1)) = 2 ^ k AND (2 ^ k - 1)"
    using k nz by (simp add: unsigned_and_eq unat_minus_one)
  then have "unat (slots AND (slots - 1)) = 0" by (simp only: nat_and_pred_pow2)
  then show "slots AND (slots - 1) = 0 \<and> slots \<noteq> 0" using nz unat_eq_zero by blast
qed

subsection \<open>Masked counters\<close>

text \<open>
  The ring indexes run through all 32-bit values and are masked at each access; because the
  size divides \<open>2 ^ 32\<close>, masking is the remainder modulo the size and wrap-around of the
  counters is invisible in the ring.
\<close>

lemma unat_and_ring_mask [ring_arith]:
  "unat slots = 2 ^ k \<Longrightarrow> unat (h AND (slots - 1)) = unat h mod unat slots" for h slots :: u32
proof -
  assume k: "unat slots = 2 ^ k"
  then have "slots \<noteq> 0" by (metis power_not_zero unat_0 zero_neq_numeral)
  then have "unat (slots - 1) = mask k" by (simp add: unat_minus_one k mask_eq_exp_minus_1)
  then show ?thesis by (simp add: unsigned_and_eq k flip: take_bit_eq_mask take_bit_eq_mod)
qed

lemma pow2_dvd_2_32: "k < 32 \<Longrightarrow> (2::nat) ^ k dvd 2 ^ 32"
  by (simp add: le_imp_power_dvd del: power_numeral)

lemma mod_u32_mod: "k < 32 \<Longrightarrow> (n mod 2 ^ 32) mod 2 ^ k = n mod (2::nat) ^ k"
  by (rule mod_mod_cancel) (rule pow2_dvd_2_32)

lemma unat_add_of_nat_mod [ring_arith]:
  "k < 32 \<Longrightarrow> unat (h + of_nat j) mod 2 ^ k = (unat h + j) mod 2 ^ k" for h :: u32
proof -
  assume k: "k < 32"
  have "unat (h + of_nat j) = (unat h + j) mod 2 ^ 32"
    by (simp add: unat_word_ariths unat_of_nat mod_simps)
  then show ?thesis by (simp only: mod_u32_mod [OF k])
qed

lemma unat_of_nat_u32 [ring_arith]: "n < 2 ^ 32 \<Longrightarrow> unat (of_nat n :: u32) = n"
  by (simp add: unat_of_nat)

lemma unat_u32_bound: "unat n < 2 ^ 32" for n :: u32
  using unsigned_less [of n] by simp

lemma sint_u32_small: "unat w < 2 ^ 31 \<Longrightarrow> sint w = int (unat w)" for w :: u32
proof -
  assume "unat w < 2 ^ 31"
  then have "int (unat w) < int (2 ^ 31)" by (simp only: of_nat_less_iff)
  then have "int (unat w) < 2 ^ 31" by simp
  then have "signed_take_bit 31 (int (unat w)) = int (unat w)"
    by (intro signed_take_bit_int_eq_self) linarith+
  moreover have "sint w = signed_take_bit 31 (uint w)" by (simp add: sint_uint)
  ultimately show ?thesis by (simp only: uint_nat)
qed

lemma of_nat_unat_diff: "c + of_nat (unat (p - c)) = p" for p c :: u32
  by simp

lemma mod_add_right_inj:
  fixes a s :: nat
  assumes "i < s" and "j < s" and "(a + i) mod s = (a + j) mod s"
  shows "i = j"
  using assms
proof (induction i j rule: linorder_wlog)
  case (le i j)
  then have "s dvd (a + j) - (a + i)" by (metis mod_eq_dvd_iff_nat nat_add_left_cancel_le)
  then have "s dvd j - i" by simp
  then show ?case using le by (auto dest: dvd_imp_le)
qed simp

text \<open>The two halves of a count in the unrolled copies: \<open>n & ~3\<close> and \<open>n & 3\<close>.\<close>

lemma u32_split_and: "(n AND NOT m) + (n AND m) = n" for n m :: u32
proof -
  have "(n AND NOT m) + (n AND m) = (n AND NOT m) OR (n AND m)"
    by (rule disjunctive_add) (simp add: bit_simps)
  also have "\<dots> = n" by (rule bit_eqI) (auto simp: bit_simps)
  finally show ?thesis .
qed

lemma unat_and_3 [ring_arith]: "unat (n AND 3) = unat n mod 4" for n :: u32
  using unat_and_ring_mask [of "4 :: u32" 2 n] by simp

lemma unat_and_not_3 [ring_arith]: "unat (n AND NOT 3) = 4 * (unat n div 4)" for n :: u32
proof -
  have "n AND NOT 3 = n - (n AND 3)" using u32_split_and [of n 3] by (simp add: eq_diff_eq)
  then have "unat (n AND NOT 3) = unat n - unat n mod 4"
    by (metis unat_and_3 unat_sub word_and_le2)
  then show ?thesis by (simp add: minus_mod_eq_mult_div)
qed

section \<open>Failures of the C code as values\<close>

text \<open>
  What ends a run abnormally: a failed \<open>assert\<close>, undefined behaviour (an access outside an
  object, a null pointer dereference, a use of a pointer that was never set, a division by zero, a
  conversion of a float that has no integer value, a signed result outside its type) and a call of \<open>exit\<close>.
\<close>

datatype c_error = AssertFail | OutOfBounds | NullDeref | WildPointer | DivByZero | BadConversion | SignedOverflow | Exit int

type_synonym 'a c_result = "c_error + 'a"

definition c_bind :: "'a c_result \<Rightarrow> ('a \<Rightarrow> 'b c_result) \<Rightarrow> 'b c_result" where
  "c_bind m f = (case m of Inl e \<Rightarrow> Inl e | Inr x \<Rightarrow> f x)"

lemma c_bind_simps [simp]: "c_bind (Inl e) f = Inl e" "c_bind (Inr x) f = f x"
  by (simp_all add: c_bind_def)

lemma c_bind_Inr_iff: "c_bind m f = Inr y \<longleftrightarrow> (\<exists>x. m = Inr x \<and> f x = Inr y)"
  by (auto simp: c_bind_def split: sum.splits)

lemma c_bind_assoc: "c_bind (c_bind m f) g = c_bind m (\<lambda>x. c_bind (f x) g)"
  by (cases m) simp_all

text \<open>A checked step, and an optional result whose absence is the error \<open>e\<close>.\<close>

definition c_check :: "bool \<Rightarrow> c_error \<Rightarrow> 'a c_result \<Rightarrow> 'a c_result" where
  "c_check b e m = (if b then m else Inl e)"

definition c_opt :: "c_error \<Rightarrow> 'a option \<Rightarrow> 'a c_result" where
  "c_opt e m = (case m of None \<Rightarrow> Inl e | Some x \<Rightarrow> Inr x)"

lemma c_check_simps [simp]: "c_check True e m = m" "c_check False e m = Inl e"
  by (simp_all add: c_check_def)

lemma c_opt_simps [simp]: "c_opt e None = Inl e" "c_opt e (Some x) = Inr x"
  by (simp_all add: c_opt_def)

text \<open>\<open>memcpy(dst, src, n)\<close> between two distinct arrays.\<close>

definition memcpy :: "nat \<Rightarrow> 'a list \<Rightarrow> 'a list \<Rightarrow> 'a list c_result" where
  "memcpy n dst src =
     c_check (n \<le> length dst \<and> n \<le> length src) OutOfBounds (Inr (take n src @ drop n dst))"

lemma memcpy_ok: "n \<le> length dst \<Longrightarrow> n \<le> length src \<Longrightarrow> memcpy n dst src = Inr (take n src @ drop n dst)"
  by (simp add: memcpy_def)

end
