(* ===== verification/Queue_Interface.thy ===== *)
theory Queue_Interface
  imports Servant_Prelude
begin

text \<open>
  The contract of a bounded first-in first-out queue whose operations can fault: what a client
  that puts and gets one object at a time may rely on, and what follows from it for any
  sequence of operations. \<open>LLRing\<close> interprets it on the ring, \<open>VChannel\<close> relies on it.
\<close>

datatype 'a queue_op = Put 'a | Get

text \<open>
  A run over a list of operations: the accepted objects, the delivered objects and the final
  queue; \<open>None\<close> when an operation faults.
\<close>

fun queue_run ::
  "('q \<Rightarrow> 'a \<Rightarrow> (bool \<times> 'q) option) \<Rightarrow> ('q \<Rightarrow> ('a option \<times> 'q) option) \<Rightarrow>
     'q \<Rightarrow> 'a queue_op list \<Rightarrow> ('a list \<times> 'a list \<times> 'q) option" where
  "queue_run put get q [] = Some ([], [], q)"
| "queue_run put get q (Put x # ops) =
     do { (ok, q) \<leftarrow> put q x;
          (ins, outs, q) \<leftarrow> queue_run put get q ops;
          Some (if ok then x # ins else ins, outs, q) }"
| "queue_run put get q (Get # ops) =
     do { (y, q) \<leftarrow> get q;
          (ins, outs, q) \<leftarrow> queue_run put get q ops;
          Some (ins, (case y of None \<Rightarrow> outs | Some y \<Rightarrow> y # outs), q) }"

locale bounded_fifo =
  fixes invar :: "'q \<Rightarrow> bool"
    and contents :: "'q \<Rightarrow> 'a list"
    and capacity :: "'q \<Rightarrow> nat"
    and put :: "'q \<Rightarrow> 'a \<Rightarrow> (bool \<times> 'q) option"
    and get :: "'q \<Rightarrow> ('a option \<times> 'q) option"
  assumes bounded: "invar q \<Longrightarrow> length (contents q) \<le> capacity q"
    and put_full: "invar q \<Longrightarrow> capacity q \<le> length (contents q) \<Longrightarrow> put q x = Some (False, q)"
    and put_fits: "invar q \<Longrightarrow> length (contents q) < capacity q \<Longrightarrow>
      \<exists>q'. put q x = Some (True, q') \<and> invar q' \<and> contents q' = contents q @ [x] \<and>
        capacity q' = capacity q"
    and get_empty: "invar q \<Longrightarrow> contents q = [] \<Longrightarrow> get q = Some (None, q)"
    and get_first: "invar q \<Longrightarrow> contents q = x # xs \<Longrightarrow>
      \<exists>q'. get q = Some (Some x, q') \<and> invar q' \<and> contents q' = xs \<and> capacity q' = capacity q"
begin

lemma put_total:
  assumes "invar q"
  obtains ok q' where "put q x = Some (ok, q')" and "invar q'" and "capacity q' = capacity q"
    and "contents q' = contents q @ (if ok then [x] else [])"
    and "ok \<longleftrightarrow> length (contents q) < capacity q"
proof (cases "length (contents q) < capacity q")
  case True
  then show thesis using put_fits [OF assms True, of x] that [of True] by auto
next
  case False
  then show thesis using put_full [OF assms, of x] assms that [of False q] by auto
qed

lemma get_total:
  assumes "invar q"
  obtains y q' where "get q = Some (y, q')" and "invar q'" and "capacity q' = capacity q"
    and "contents q = (case y of None \<Rightarrow> [] | Some y \<Rightarrow> [y]) @ contents q'"
proof (cases "contents q")
  case Nil
  then show thesis using get_empty [OF assms Nil] assms that [of None q] by simp
next
  case (Cons x xs)
  then show thesis using get_first [OF assms Cons] that [of "Some x"] by auto
qed

text \<open>Every run ends without a fault and delivers the accepted objects in their order.\<close>

lemma run_fifo:
  "invar q \<Longrightarrow> \<exists>ins outs q'. queue_run put get q ops = Some (ins, outs, q') \<and> invar q' \<and>
     capacity q' = capacity q \<and> contents q @ ins = outs @ contents q'"
proof (induction ops arbitrary: q)
  case (Cons opn ops)
  show ?case
  proof (cases opn)
    case (Put x)
    from Cons.prems obtain ok q1 where q1: "put q x = Some (ok, q1)" "invar q1" "capacity q1 = capacity q"
      "contents q1 = contents q @ (if ok then [x] else [])" by (rule put_total)
    from Cons.IH [OF q1(2)] obtain ins outs q2 where q2: "queue_run put get q1 ops = Some (ins, outs, q2)"
      "invar q2" "capacity q2 = capacity q1" "contents q1 @ ins = outs @ contents q2" by blast
    with q1 show ?thesis by (auto simp: Put)
  next
    case Get
    from Cons.prems obtain y q1 where q1: "get q = Some (y, q1)" "invar q1" "capacity q1 = capacity q"
      "contents q = (case y of None \<Rightarrow> [] | Some y \<Rightarrow> [y]) @ contents q1" by (rule get_total)
    from Cons.IH [OF q1(2)] obtain ins outs q2 where q2: "queue_run put get q1 ops = Some (ins, outs, q2)"
      "invar q2" "capacity q2 = capacity q1" "contents q1 @ ins = outs @ contents q2" by blast
    with q1 show ?thesis by (auto simp: Get split: option.splits)
  qed
qed simp

end

text \<open>A queue that also reports its length.\<close>

locale counted_fifo = bounded_fifo invar contents capacity put get
  for invar :: "'q \<Rightarrow> bool" and contents :: "'q \<Rightarrow> 'a list" and capacity and put and get +
  fixes count :: "'q \<Rightarrow> u32"
  assumes count_contents: "invar q \<Longrightarrow> unat (count q) = length (contents q)"
begin

lemma count_zero: "invar q \<Longrightarrow> count q = 0 \<longleftrightarrow> contents q = []"
  using count_contents [of q] by (metis length_0_conv unat_eq_zero)

lemma count_nonzero_get:
  assumes "invar q" and "count q \<noteq> 0"
  obtains x q' where "get q = Some (Some x, q')" and "invar q'" and "contents q = x # contents q'"
    and "capacity q' = capacity q"
proof (cases "contents q")
  case Nil
  with assms show thesis by (simp add: count_zero)
next
  case (Cons x xs)
  then show thesis using get_first [OF assms(1) Cons] that by auto
qed

end

text \<open>
  A weaker contract: an object may have to satisfy \<open>ok\<close>, and a refused put says nothing about
  the queue it leaves. A client that never puts into a full queue still gets first-in
  first-out delivery; \<open>ops_fit\<close> is that discipline, over the number of entries held.
\<close>

fun ops_fit :: "nat \<Rightarrow> nat \<Rightarrow> 'a queue_op list \<Rightarrow> bool" where
  "ops_fit cap n [] = True"
| "ops_fit cap n (Put x # ops) = (n < cap \<and> ops_fit cap (Suc n) ops)"
| "ops_fit cap n (Get # ops) = ops_fit cap (n - 1) ops"

fun puts_of :: "'a queue_op list \<Rightarrow> 'a list" where
  "puts_of [] = []"
| "puts_of (Put x # ops) = x # puts_of ops"
| "puts_of (Get # ops) = puts_of ops"

locale credit_channel =
  fixes invar :: "'q \<Rightarrow> bool"
    and contents :: "'q \<Rightarrow> 'a list"
    and capacity :: "'q \<Rightarrow> nat"
    and put :: "'q \<Rightarrow> 'a \<Rightarrow> (bool \<times> 'q) option"
    and get :: "'q \<Rightarrow> ('a option \<times> 'q) option"
    and ok :: "'a \<Rightarrow> bool"
  assumes put_room: "invar q \<Longrightarrow> ok x \<Longrightarrow> length (contents q) < capacity q \<Longrightarrow>
      \<exists>q'. put q x = Some (True, q') \<and> invar q' \<and> contents q' = contents q @ [x] \<and>
        capacity q' = capacity q"
    and put_refused: "invar q \<Longrightarrow> ok x \<Longrightarrow> capacity q \<le> length (contents q) \<Longrightarrow>
      \<exists>q'. put q x = Some (False, q')"
    and take_empty: "invar q \<Longrightarrow> contents q = [] \<Longrightarrow> get q = Some (None, q)"
    and take_first: "invar q \<Longrightarrow> contents q = x # xs \<Longrightarrow>
      \<exists>q'. get q = Some (Some x, q') \<and> invar q' \<and> contents q' = xs \<and> capacity q' = capacity q"
begin

lemma run_within_credit:
  "invar q \<Longrightarrow> list_all ok (puts_of ops) \<Longrightarrow> ops_fit (capacity q) (length (contents q)) ops \<Longrightarrow>
     \<exists>outs q'. queue_run put get q ops = Some (puts_of ops, outs, q') \<and> invar q' \<and>
       capacity q' = capacity q \<and> contents q @ puts_of ops = outs @ contents q'"
proof (induction ops arbitrary: q)
  case (Cons opn ops)
  show ?case
  proof (cases opn)
    case (Put x)
    then obtain q1 where q1: "put q x = Some (True, q1)" "invar q1" "contents q1 = contents q @ [x]"
        "capacity q1 = capacity q"
      using Cons.prems put_room [of q x] by auto
    with Cons.IH [of q1] Cons.prems Put show ?thesis by auto
  next
    case Get
    show ?thesis
    proof (cases "contents q")
      case Nil
      with Cons.IH [of q] Cons.prems Get take_empty [of q] show ?thesis by auto
    next
      case (Cons x xs)
      then obtain q1 where q1: "get q = Some (Some x, q1)" "invar q1" "contents q1 = xs"
          "capacity q1 = capacity q"
        using Cons.prems take_first [of q x xs] by auto
      with Cons.IH [of q1] Cons.prems Get Cons show ?thesis by auto
    qed
  qed
qed simp

end

text \<open>Every bounded queue keeps the weaker contract.\<close>

sublocale bounded_fifo < credit: credit_channel invar contents capacity put get "\<lambda>_. True"
proof unfold_locales
  show "\<exists>q'. put q x = Some (False, q')" if "invar q" "capacity q \<le> length (contents q)" for q x
    using put_full [OF that] by blast
qed (use put_fits get_empty get_first in auto)

end
