(* ===== verification/LLRing.thy ===== *)
theory LLRing
  imports Servant_Prelude Queue_Interface
begin

text \<open>
  The single-producer/single-consumer operations of the ring of \<open>src/llring.h\<close>: the
  ring structure, its initialisation and watermark, the two copy macros with their unrolled
  loops, the enqueue and dequeue bodies with both behaviours, the wrappers the program
  calls, and the queries on the number of entries. Every access of the ring memory and of the
  caller's table is checked: \<open>None\<close> is an access outside one of the two arrays.
\<close>

section \<open>The ring structure\<close>

text \<open>\<open>struct llring\<close>, flattened: \<open>common.slots\<close> is \<open>common_slots\<close> and so on; the
  flexible array member \<open>ring\<close> is the list \<open>ring_mem\<close>.\<close>

record 'a llring =
  common_slots :: u32
  common_mask :: u32
  common_sp_enqueue :: u32
  common_sc_dequeue :: u32
  common_watermark :: u32
  prod_head :: u32
  prod_tail :: u32
  cons_head :: u32
  cons_tail :: u32
  ring_mem :: "'a list"

datatype llring_queue_behavior = LLRING_QUEUE_FIXED | LLRING_QUEUE_VARIABLE

definition LLRING_ERR_NOBUF :: u32 where "LLRING_ERR_NOBUF = 1"
definition LLRING_ERR_QUOT :: u32 where "LLRING_ERR_QUOT = 2"
definition LLRING_ERR_NOENT :: u32 where "LLRING_ERR_NOENT = 3"
definition LLRING_ERR_NOPOW2 :: u32 where "LLRING_ERR_NOPOW2 = 4"
definition LLRING_ERR_INVAL :: u32 where "LLRING_ERR_INVAL = 5"
definition RING_QUOT_EXCEED :: u32 where "RING_QUOT_EXCEED = push_bit 31 1"

lemmas llring_consts = LLRING_ERR_NOBUF_def LLRING_ERR_QUOT_def LLRING_ERR_NOENT_def
  LLRING_ERR_NOPOW2_def LLRING_ERR_INVAL_def RING_QUOT_EXCEED_def

text \<open>\<open>sizeof(struct llring)\<close>: four cache-line aligned blocks before the array.\<close>

definition sizeof_llring :: nat where "sizeof_llring = 256"

text \<open>The C function returns \<open>int\<close>: the 64-bit sum is truncated to 32 bits.\<close>

definition llring_bytes_with_slots :: "u32 \<Rightarrow> u32" where
  "llring_bytes_with_slots slots = of_nat (sizeof_llring + 8 * unat slots)"

definition llring_bytes :: "'a llring \<Rightarrow> u32" where
  "llring_bytes r = llring_bytes_with_slots (common_slots r)"

text \<open>
  The byte loop of \<open>llring_init\<close> compares a signed counter with the (signed) byte count;
  \<open>zeroed_slots\<close> is the number of ring entries it clears.
\<close>

definition zeroed_slots :: "u32 \<Rightarrow> nat" where
  "zeroed_slots slots = nat (sint (llring_bytes_with_slots slots) - int sizeof_llring) div 8"

definition llring_init :: "'a::zero llring \<Rightarrow> u32 \<Rightarrow> u32 \<Rightarrow> u32 \<Rightarrow> (u32 \<times> 'a llring) option" where
  "llring_init r slots sp sc =
     (if slots AND (slots - 1) \<noteq> 0 then Some (- LLRING_ERR_NOPOW2, r)
      else if length (ring_mem r) < zeroed_slots slots then None
      else Some (0, \<lparr>common_slots = slots, common_mask = slots - 1,
             common_sp_enqueue = (if sp \<noteq> 0 then 1 else 0),
             common_sc_dequeue = (if sc \<noteq> 0 then 1 else 0),
             common_watermark = slots, prod_head = 0, prod_tail = 0,
             cons_head = 0, cons_tail = 0,
             ring_mem = replicate (zeroed_slots slots) 0 @ drop (zeroed_slots slots) (ring_mem r)\<rparr>))"

definition llring_set_water_mark :: "'a llring \<Rightarrow> u32 \<Rightarrow> u32 \<times> 'a llring" where
  "llring_set_water_mark r count =
     (if count \<ge> common_slots r then (- LLRING_ERR_INVAL, r)
      else let count = (if count = 0 then common_slots r else count)
           in (0, r\<lparr>common_watermark := count\<rparr>))"

section \<open>The copy macros\<close>

text \<open>
  Both macros have the same control flow and differ in the assignment they repeat,
  \<open>r->ring[idx] = obj_table[i]\<close> or \<open>obj_table[i] = r->ring[idx]\<close>. The control flow is
  written once over that assignment, the parameter \<open>mv\<close> (ring index, table index,
  destination array). The counters are naturals: \<open>i\<close> stays below \<open>n\<close>, and \<open>idx\<close> cannot
  wrap without an access outside the ring first.
\<close>

definition cp_elem :: "'a list \<Rightarrow> nat \<Rightarrow> 'a list \<Rightarrow> nat \<Rightarrow> 'a list option" where
  "cp_elem dst d src s =
     (if d < length dst \<and> s < length src then Some (dst[d := src ! s]) else None)"

text \<open>\<open>for (i = 0; i < (n & ~3); i += 4, idx += 4)\<close> with its four assignments.\<close>

function ptrs_by_four ::
  "(nat \<Rightarrow> nat \<Rightarrow> 'd \<Rightarrow> 'd option) \<Rightarrow> nat \<Rightarrow> nat \<Rightarrow> nat \<Rightarrow> 'd \<Rightarrow> (nat \<times> nat \<times> 'd) option" where
  "ptrs_by_four mv lim idx i d =
     (if i < lim then do {
        d \<leftarrow> mv idx i d;
        d \<leftarrow> mv (idx + 1) (i + 1) d;
        d \<leftarrow> mv (idx + 2) (i + 2) d;
        d \<leftarrow> mv (idx + 3) (i + 3) d;
        ptrs_by_four mv lim (idx + 4) (i + 4) d
      } else Some (idx, i, d))"
  by pat_completeness auto
termination
  by (relation "measure (\<lambda>(mv, lim, idx, i, d). lim - i)") auto

text \<open>\<open>switch (n & 3)\<close>: case \<open>k\<close> does one assignment and falls through to case \<open>k - 1\<close>.\<close>

fun ptrs_switch :: "(nat \<Rightarrow> nat \<Rightarrow> 'd \<Rightarrow> 'd option) \<Rightarrow> nat \<Rightarrow> nat \<Rightarrow> nat \<Rightarrow> 'd \<Rightarrow> 'd option" where
  "ptrs_switch mv 0 idx i d = Some d"
| "ptrs_switch mv (Suc k) idx i d = do { d \<leftarrow> mv idx i d; ptrs_switch mv k (Suc idx) (Suc i) d }"

text \<open>\<open>for (i = 0; idx < slots; i++, idx++)\<close> and \<open>for (idx = 0; i < n; i++, idx++)\<close>.\<close>

function ptrs_to_end ::
  "(nat \<Rightarrow> nat \<Rightarrow> 'd \<Rightarrow> 'd option) \<Rightarrow> nat \<Rightarrow> nat \<Rightarrow> nat \<Rightarrow> 'd \<Rightarrow> (nat \<times> 'd) option" where
  "ptrs_to_end mv slots idx i d =
     (if idx < slots then do { d \<leftarrow> mv idx i d; ptrs_to_end mv slots (Suc idx) (Suc i) d }
      else Some (i, d))"
  by pat_completeness auto
termination
  by (relation "measure (\<lambda>(mv, slots, idx, i, d). slots - idx)") auto

function ptrs_wrapped ::
  "(nat \<Rightarrow> nat \<Rightarrow> 'd \<Rightarrow> 'd option) \<Rightarrow> nat \<Rightarrow> nat \<Rightarrow> nat \<Rightarrow> 'd \<Rightarrow> 'd option" where
  "ptrs_wrapped mv n idx i d =
     (if i < n then do { d \<leftarrow> mv idx i d; ptrs_wrapped mv n (Suc idx) (Suc i) d }
      else Some d)"
  by pat_completeness auto
termination
  by (relation "measure (\<lambda>(mv, n, idx, i, d). n - i)") auto

declare ptrs_by_four.simps [simp del] ptrs_to_end.simps [simp del] ptrs_wrapped.simps [simp del]

definition llring_ptrs ::
  "(nat \<Rightarrow> nat \<Rightarrow> 'd \<Rightarrow> 'd option) \<Rightarrow> u32 \<Rightarrow> u32 \<Rightarrow> u32 \<Rightarrow> u32 \<Rightarrow> 'd \<Rightarrow> 'd option" where
  "llring_ptrs mv slots mask' head n d =
     (let idx = head AND mask' in
      if idx + n < slots then do {
        (idx', i', d) \<leftarrow> ptrs_by_four mv (unat (n AND (NOT 3))) (unat idx) 0 d;
        ptrs_switch mv (unat (n AND 3)) idx' i' d
      } else do {
        (i', d) \<leftarrow> ptrs_to_end mv (unat slots) (unat idx) 0 d;
        ptrs_wrapped mv (unat n) 0 i' d
      })"

definition LLRING_ENQUEUE_PTRS ::
  "'a llring \<Rightarrow> u32 \<Rightarrow> 'a list \<Rightarrow> u32 \<Rightarrow> 'a list option" where
  "LLRING_ENQUEUE_PTRS r head obj_table n =
     llring_ptrs (\<lambda>idx i ring. cp_elem ring idx obj_table i)
       (common_slots r) (common_mask r) head n (ring_mem r)"

definition LLRING_DEQUEUE_PTRS ::
  "'a llring \<Rightarrow> u32 \<Rightarrow> 'a list \<Rightarrow> u32 \<Rightarrow> 'a list option" where
  "LLRING_DEQUEUE_PTRS r head obj_table n =
     llring_ptrs (\<lambda>idx i table. cp_elem table i (ring_mem r) idx)
       (common_slots r) (common_mask r) head n obj_table"

section \<open>Enqueue and dequeue\<close>

text \<open>The return value after a successful copy: the watermark test.\<close>

definition enqueue_ret :: "u32 \<Rightarrow> u32 \<Rightarrow> u32 \<Rightarrow> u32 \<Rightarrow> llring_queue_behavior \<Rightarrow> u32" where
  "enqueue_ret mask' free_entries n watermark behavior =
     (if (mask' + 1) - free_entries + n > watermark
      then (if behavior = LLRING_QUEUE_FIXED then - LLRING_ERR_QUOT else n OR RING_QUOT_EXCEED)
      else (if behavior = LLRING_QUEUE_FIXED then 0 else n))"

definition llring_sp_do_enqueue ::
  "'a llring \<Rightarrow> 'a list \<Rightarrow> u32 \<Rightarrow> llring_queue_behavior \<Rightarrow> (u32 \<times> 'a llring) option" where
  "llring_sp_do_enqueue r obj_table n behavior =
     (let head = prod_head r;
          free_entries = common_mask r + cons_tail r - head in
      if n > free_entries \<and> behavior = LLRING_QUEUE_FIXED then Some (- LLRING_ERR_NOBUF, r)
      else if n > free_entries \<and> free_entries = 0 then Some (0, r)
      else let n = (if n > free_entries then free_entries else n);
               prod_next = head + n;
               r = r\<lparr>prod_head := prod_next\<rparr> in do {
        ring \<leftarrow> LLRING_ENQUEUE_PTRS r head obj_table n;
        Some (enqueue_ret (common_mask r) free_entries n (common_watermark r) behavior,
              r\<lparr>ring_mem := ring, prod_tail := prod_next\<rparr>)
      })"

text \<open>The caller's table is an output: it is returned with the ring.\<close>

definition llring_sc_do_dequeue ::
  "'a llring \<Rightarrow> 'a list \<Rightarrow> u32 \<Rightarrow> llring_queue_behavior \<Rightarrow> (u32 \<times> 'a list \<times> 'a llring) option" where
  "llring_sc_do_dequeue r obj_table n behavior =
     (let head = cons_head r;
          entries = prod_tail r - head in
      if n > entries \<and> behavior = LLRING_QUEUE_FIXED then Some (- LLRING_ERR_NOENT, obj_table, r)
      else if n > entries \<and> entries = 0 then Some (0, obj_table, r)
      else let n = (if n > entries then entries else n);
               cons_next = head + n;
               r = r\<lparr>cons_head := cons_next\<rparr> in do {
        table \<leftarrow> LLRING_DEQUEUE_PTRS r head obj_table n;
        Some (if behavior = LLRING_QUEUE_FIXED then 0 else n, table, r\<lparr>cons_tail := cons_next\<rparr>)
      })"

definition llring_sp_enqueue_bulk :: "'a llring \<Rightarrow> 'a list \<Rightarrow> u32 \<Rightarrow> (u32 \<times> 'a llring) option" where
  "llring_sp_enqueue_bulk r obj_table n = llring_sp_do_enqueue r obj_table n LLRING_QUEUE_FIXED"

definition llring_sp_enqueue :: "'a llring \<Rightarrow> 'a \<Rightarrow> (u32 \<times> 'a llring) option" where
  "llring_sp_enqueue r obj = llring_sp_enqueue_bulk r [obj] 1"

definition llring_sp_enqueue_burst :: "'a llring \<Rightarrow> 'a list \<Rightarrow> u32 \<Rightarrow> (u32 \<times> 'a llring) option" where
  "llring_sp_enqueue_burst r obj_table n = llring_sp_do_enqueue r obj_table n LLRING_QUEUE_VARIABLE"

definition llring_sc_dequeue_bulk ::
  "'a llring \<Rightarrow> 'a list \<Rightarrow> u32 \<Rightarrow> (u32 \<times> 'a list \<times> 'a llring) option" where
  "llring_sc_dequeue_bulk r obj_table n = llring_sc_do_dequeue r obj_table n LLRING_QUEUE_FIXED"

definition llring_sc_dequeue :: "'a llring \<Rightarrow> 'a \<Rightarrow> (u32 \<times> 'a list \<times> 'a llring) option" where
  "llring_sc_dequeue r obj = llring_sc_dequeue_bulk r [obj] 1"

definition llring_sc_dequeue_burst ::
  "'a llring \<Rightarrow> 'a list \<Rightarrow> u32 \<Rightarrow> (u32 \<times> 'a list \<times> 'a llring) option" where
  "llring_sc_dequeue_burst r obj_table n = llring_sc_do_dequeue r obj_table n LLRING_QUEUE_VARIABLE"

section \<open>Queries\<close>

definition llring_full :: "'a llring \<Rightarrow> bool" where
  "llring_full r = ((cons_tail r - prod_tail r - 1) AND common_mask r = 0)"

definition llring_empty :: "'a llring \<Rightarrow> bool" where
  "llring_empty r = (cons_tail r = prod_tail r)"

definition llring_count :: "'a llring \<Rightarrow> u32" where
  "llring_count r = (prod_tail r - cons_tail r) AND common_mask r"

definition llring_free_count :: "'a llring \<Rightarrow> u32" where
  "llring_free_count r = (cons_tail r - prod_tail r - 1) AND common_mask r"

section \<open>The copy macros against a plain circular copy\<close>

text \<open>The reference: one assignment per step, the ring index reduced modulo the size.\<close>

fun copy_circular ::
  "(nat \<Rightarrow> nat \<Rightarrow> 'd \<Rightarrow> 'd option) \<Rightarrow> nat \<Rightarrow> nat \<Rightarrow> nat \<Rightarrow> nat \<Rightarrow> 'd \<Rightarrow> 'd option" where
  "copy_circular mv sz base i 0 d = Some d"
| "copy_circular mv sz base i (Suc k) d =
     do { d \<leftarrow> mv ((base + i) mod sz) i d; copy_circular mv sz base (Suc i) k d }"

lemma ptrs_switch_add:
  "ptrs_switch mv (a + b) idx i d = (ptrs_switch mv a idx i d \<bind> ptrs_switch mv b (idx + a) (i + a))"
  by (induction a arbitrary: idx i d) (auto intro!: Option.bind_cong)

lemma ptrs_by_four_eq:
  "lim = i + 4 * g \<Longrightarrow> ptrs_by_four mv lim idx i d =
     map_option (\<lambda>d. (idx + 4 * g, i + 4 * g, d)) (ptrs_switch mv (4 * g) idx i d)"
proof (induction g arbitrary: idx i d)
  case 0
  then show ?case by (subst ptrs_by_four.simps) simp
next
  case (Suc g)
  have four: "4 * Suc g = Suc (Suc (Suc (Suc (4 * g))))" by simp
  show ?case
    by (subst ptrs_by_four.simps)
      (use Suc in \<open>auto simp: four numeral_eq_Suc map_option_bind intro!: Option.bind_cong\<close>)
qed

lemma ptrs_to_end_eq:
  "idx \<le> slots \<Longrightarrow> ptrs_to_end mv slots idx i d =
     map_option (\<lambda>d. (i + (slots - idx), d)) (ptrs_switch mv (slots - idx) idx i d)"
proof (induction "slots - idx" arbitrary: idx i d)
  case 0
  then show ?case by (subst ptrs_to_end.simps) simp
next
  case (Suc g)
  then have lt: "idx < slots" and g: "slots - idx = Suc (slots - Suc idx)"
    and e: "i + slots - idx = Suc (i + slots - Suc idx)" by simp_all
  show ?case
    by (subst ptrs_to_end.simps)
      (use Suc lt in \<open>auto simp: g e map_option_bind intro!: Option.bind_cong\<close>)
qed

lemma ptrs_wrapped_eq: "ptrs_wrapped mv n idx i d = ptrs_switch mv (n - i) idx i d"
proof (induction "n - i" arbitrary: idx i d)
  case 0
  then show ?case by (subst ptrs_wrapped.simps) simp
next
  case (Suc g)
  then have lt: "i < n" and g: "n - i = Suc (n - Suc i)" by simp_all
  show ?case
    by (subst ptrs_wrapped.simps) (use Suc lt in \<open>auto simp: g intro!: Option.bind_cong\<close>)
qed

lemma copy_circular_add:
  "copy_circular mv sz base i (a + b) d =
     (copy_circular mv sz base i a d \<bind> copy_circular mv sz base (i + a) b)"
  by (induction a arbitrary: i d) (auto intro!: Option.bind_cong)

lemma copy_circular_linear:
  "(base + i) mod sz = p \<Longrightarrow> p + k \<le> sz \<Longrightarrow>
     copy_circular mv sz base i k d = ptrs_switch mv k p i d"
proof (induction k arbitrary: i p d)
  case (Suc k)
  show ?case
  proof (cases k)
    case 0
    with Suc.prems show ?thesis by (auto intro!: Option.bind_cong)
  next
    case (Suc k')
    with Suc.prems have "(base + Suc i) mod sz = Suc p" by (simp add: mod_Suc)
    then show ?thesis using Suc.prems Suc.IH [of "Suc i" "Suc p"]
      by (auto intro!: Option.bind_cong)
  qed
qed simp

text \<open>The unrolled and split copy of the source is the plain circular copy.\<close>

lemma llring_ptrs_circular:
  assumes k: "unat slots = 2 ^ k" "k < 32" and n: "n \<le> slots"
  shows "llring_ptrs mv slots (slots - 1) head n d =
    copy_circular mv (unat slots) (unat head) 0 (unat n) d"
proof -
  let ?S = "unat slots" and ?idx = "unat (head AND (slots - 1))" and ?n = "unat n"
  have S0: "0 < ?S" by (simp add: k)
  have idx: "?idx = unat head mod ?S" using k(1) by (rule unat_and_ring_mask)
  then have idxlt: "?idx < ?S" using S0 by simp
  have nS: "?n \<le> ?S" using n by (simp add: word_le_nat_alt)
  have "(2::nat) ^ k \<le> 2 ^ 31" using k(2) by (intro power_increasing) simp_all
  then have sum: "unat ((head AND (slots - 1)) + n) = ?idx + ?n"
    using idxlt nS k(1) by (intro unat_add_lem [THEN iffD1]) simp
  let ?g = "?n div 4"
  have n4: "?n = 4 * ?g + ?n mod 4" by simp
  show ?thesis
  proof (cases "(head AND (slots - 1)) + n < slots")
    case True
    with sum have le: "?idx + ?n \<le> ?S" by (simp add: word_less_nat_alt)
    have "llring_ptrs mv slots (slots - 1) head n d =
        (ptrs_switch mv (4 * ?g) ?idx 0 d \<bind> ptrs_switch mv (?n mod 4) (?idx + 4 * ?g) (4 * ?g))"
      using True by (simp add: llring_ptrs_def Let_def unat_and_3 unat_and_not_3 [simplified]
          ptrs_by_four_eq [where g = ?g] bind_map_option comp_def)
    also have "\<dots> = ptrs_switch mv ?n ?idx 0 d"
      using ptrs_switch_add [of mv "4 * ?g" "?n mod 4" ?idx 0 d] by simp
    also have "\<dots> = copy_circular mv ?S (unat head) 0 ?n d"
      using copy_circular_linear [of "unat head" 0 ?S ?idx ?n mv d] idx le by simp
    finally show ?thesis .
  next
    case False
    with sum have ge: "?S \<le> ?idx + ?n" by (simp add: word_less_nat_alt)
    let ?a = "?S - ?idx"
    have "llring_ptrs mv slots (slots - 1) head n d =
        (ptrs_switch mv ?a ?idx 0 d \<bind> ptrs_switch mv (?n - ?a) 0 ?a)"
      using False idxlt by (simp add: llring_ptrs_def Let_def ptrs_to_end_eq ptrs_wrapped_eq
          bind_map_option comp_def)
    also have "\<dots> = (copy_circular mv ?S (unat head) 0 ?a d \<bind> copy_circular mv ?S (unat head) ?a (?n - ?a))"
    proof (rule Option.bind_cong)
      show "ptrs_switch mv ?a ?idx 0 d = copy_circular mv ?S (unat head) 0 ?a d"
        using copy_circular_linear [of "unat head" 0 ?S ?idx ?a mv d] idx idxlt by simp
      have "(unat head + ?a) mod ?S = (?idx + ?a) mod ?S" using idx by (simp add: mod_simps)
      then have "(unat head + ?a) mod ?S = 0" using idxlt by simp
      then show "ptrs_switch mv (?n - ?a) 0 ?a x = copy_circular mv ?S (unat head) ?a (?n - ?a) x" for x
        using nS idxlt by (intro copy_circular_linear [symmetric]) auto
    qed
    also have "\<dots> = copy_circular mv ?S (unat head) 0 ?n d"
      using copy_circular_add [of mv ?S "unat head" 0 ?a "?n - ?a" d] ge idxlt by simp
    finally show ?thesis .
  qed
qed

section \<open>Reading and writing runs of a circular array\<close>

fun circ_write :: "'a list \<Rightarrow> nat \<Rightarrow> 'a list \<Rightarrow> 'a list" where
  "circ_write ring p [] = ring"
| "circ_write ring p (x # xs) = circ_write (ring[p mod length ring := x]) (Suc p) xs"

definition circ_read :: "'a list \<Rightarrow> nat \<Rightarrow> nat \<Rightarrow> 'a list" where
  "circ_read ring p k = map (\<lambda>j. ring ! ((p + j) mod length ring)) [0..<k]"

lemma length_circ_write [simp]: "length (circ_write ring p xs) = length ring"
  by (induction ring p xs rule: circ_write.induct) simp_all

lemma length_circ_read [simp]: "length (circ_read ring p k) = k"
  by (simp add: circ_read_def)

lemma circ_read_0 [simp]: "circ_read ring p 0 = []"
  by (simp add: circ_read_def)

lemma circ_write_cong:
  "p mod length ring = q mod length ring \<Longrightarrow> circ_write ring p xs = circ_write ring q xs"
proof (induction xs arbitrary: ring p q)
  case (Cons x xs)
  then have "Suc p mod length ring = Suc q mod length ring" by (simp add: mod_Suc)
  with Cons show ?case by (metis circ_write.simps(2) length_list_update)
qed simp

lemma circ_read_cong:
  "p mod length ring = q mod length ring \<Longrightarrow> circ_read ring p k = circ_read ring q k"
  unfolding circ_read_def by (metis mod_add_left_eq)

lemma circ_write_nth_other:
  "(\<And>j. j < length xs \<Longrightarrow> (p + j) mod length ring \<noteq> q) \<Longrightarrow> circ_write ring p xs ! q = ring ! q"
proof (induction xs arbitrary: ring p)
  case (Cons x xs)
  have "(Suc p + j) mod length ring \<noteq> q" if "j < length xs" for j
    using Cons.prems [of "Suc j"] that by simp
  moreover have "p mod length ring \<noteq> q" using Cons.prems [of 0] by simp
  ultimately show ?case using Cons.IH [of "Suc p" "ring[p mod length ring := x]"] by simp
qed simp

lemma circ_write_nth:
  "length xs \<le> length ring \<Longrightarrow> j < length xs \<Longrightarrow>
     circ_write ring p xs ! ((p + j) mod length ring) = xs ! j"
proof (induction xs arbitrary: ring p j)
  case (Cons x xs)
  show ?case
  proof (cases j)
    case 0
    have "(Suc p + i) mod length ring \<noteq> p mod length ring" if "i < length xs" for i
      using mod_add_right_inj [of "Suc i" "length ring" 0 p] that Cons.prems(1) by fastforce
    moreover from Cons.prems have "p mod length ring < length ring" by (intro mod_less_divisor) auto
    ultimately show ?thesis using 0 by (simp add: circ_write_nth_other)
  next
    case (Suc i)
    then show ?thesis using Cons.prems Cons.IH [of "ring[p mod length ring := x]" i "Suc p"] by simp
  qed
qed simp

lemma circ_read_write:
  assumes "k + length xs \<le> length ring"
  shows "circ_read (circ_write ring (p + k) xs) p (k + length xs) = circ_read ring p k @ xs"
proof (rule nth_equalityI)
  fix j assume "j < length (circ_read (circ_write ring (p + k) xs) p (k + length xs))"
  then have j: "j < k + length xs" by simp
  show "circ_read (circ_write ring (p + k) xs) p (k + length xs) ! j = (circ_read ring p k @ xs) ! j"
  proof (cases "j < k")
    case True
    have "(p + k + i) mod length ring \<noteq> (p + j) mod length ring" if "i < length xs" for i
      using mod_add_right_inj [of "k + i" "length ring" j p] that True assms
      by (fastforce simp: add.assoc)
    then show ?thesis using True j by (simp add: circ_read_def circ_write_nth_other nth_append)
  next
    case False
    then obtain i where i: "j = k + i" by (metis le_add_diff_inverse not_less)
    then show ?thesis using j assms circ_write_nth [of xs ring i "p + k"]
      by (simp add: circ_read_def nth_append add.assoc)
  qed
qed simp

lemma circ_read_drop: "k \<le> n \<Longrightarrow> drop k (circ_read ring p n) = circ_read ring (p + k) (n - k)"
  by (rule nth_equalityI) (auto simp: circ_read_def nth_upt less_diff_conv ac_simps)

lemma circ_read_take: "k \<le> n \<Longrightarrow> take k (circ_read ring p n) = circ_read ring p k"
  by (rule nth_equalityI) (simp_all add: circ_read_def)

lemma circ_read_Suc: "circ_read ring p (Suc k) = ring ! (p mod length ring) # circ_read ring (Suc p) k"
  by (rule nth_equalityI) (auto simp: circ_read_def nth_Cons simp del: upt_Suc split: nat.splits)

lemma copy_circular_enqueue:
  "ring \<noteq> [] \<Longrightarrow> i + k \<le> length objs \<Longrightarrow>
     copy_circular (\<lambda>idx i ring. cp_elem ring idx objs i) (length ring) base i k ring =
     Some (circ_write ring (base + i) (take k (drop i objs)))"
proof (induction k arbitrary: i ring)
  case (Suc k)
  let ?ring = "ring[(base + i) mod length ring := objs ! i]"
  have "cp_elem ring ((base + i) mod length ring) objs i = Some ?ring"
    using Suc.prems by (simp add: cp_elem_def)
  moreover have "take (Suc k) (drop i objs) = objs ! i # take k (drop (Suc i) objs)"
    using Suc.prems by (metis Cons_nth_drop_Suc Suc_le_lessD add_Suc_right le_add1 order_less_le_trans
        less_Suc_eq_le take_Suc_Cons)
  moreover have "copy_circular (\<lambda>idx i ring. cp_elem ring idx objs i) (length ring) base (Suc i) k ?ring
      = Some (circ_write ?ring (base + Suc i) (take k (drop (Suc i) objs)))"
    using Suc.IH [of ?ring "Suc i"] Suc.prems by simp
  ultimately show ?case by simp
qed simp

lemma copy_circular_dequeue:
  "ring \<noteq> [] \<Longrightarrow> i + k \<le> length table \<Longrightarrow>
     copy_circular (\<lambda>idx i table. cp_elem table i ring idx) (length ring) base i k table =
     Some (take i table @ circ_read ring (base + i) k @ drop (i + k) table)"
proof (induction k arbitrary: i table)
  case (Suc k)
  let ?x = "ring ! ((base + i) mod length ring)"
  have "cp_elem table i ring ((base + i) mod length ring) = Some (table[i := ?x])"
    using Suc.prems by (simp add: cp_elem_def)
  moreover have "take (Suc i) (table[i := ?x]) = take i table @ [?x]"
    using Suc.prems by (simp add: take_Suc_conv_app_nth)
  ultimately show ?case using Suc.prems Suc.IH [of "Suc i" "table[i := ?x]"]
    by (simp add: circ_read_Suc)
qed simp

section \<open>Invariant and abstract view\<close>

text \<open>
  A quiescent ring: its size passes the test of \<open>llring_init\<close> and is not zero, no operation is
  in flight (head and tail of each side agree), and at most \<open>slots - 1\<close> entries are held.
\<close>

definition llring_geometry :: "'a llring \<Rightarrow> bool" where
  "llring_geometry r \<longleftrightarrow>
     common_slots r AND (common_slots r - 1) = 0 \<and> common_slots r \<noteq> 0 \<and>
     common_mask r = common_slots r - 1 \<and> length (ring_mem r) = unat (common_slots r)"

definition llring_inv :: "'a llring \<Rightarrow> bool" where
  "llring_inv r \<longleftrightarrow> llring_geometry r \<and> prod_head r = prod_tail r \<and> cons_head r = cons_tail r \<and>
     prod_tail r - cons_tail r \<le> common_mask r \<and>
     0 < common_watermark r \<and> common_watermark r \<le> common_slots r"

text \<open>The abstract value: the queued objects, oldest first, and the number of free entries.\<close>

definition llring_contents :: "'a llring \<Rightarrow> 'a list" where
  "llring_contents r =
     circ_read (ring_mem r) (unat (cons_tail r)) (unat (prod_tail r - cons_tail r))"

definition llring_room :: "'a llring \<Rightarrow> nat" where
  "llring_room r = unat (common_slots r) - 1 - length (llring_contents r)"

lemma length_llring_contents: "length (llring_contents r) = unat (prod_tail r - cons_tail r)"
  by (simp add: llring_contents_def)

lemma llring_geometry_pow2:
  assumes "llring_geometry r"
  obtains k where "k < 32" and "unat (common_slots r) = 2 ^ k"
    and "length (ring_mem r) = 2 ^ k" and "common_mask r = common_slots r - 1"
    and "unat (common_mask r) = 2 ^ k - 1"
proof -
  from assms u32_pow2_check [of "common_slots r"]
  obtain k where k: "k < 32" "unat (common_slots r) = 2 ^ k" by (auto simp: llring_geometry_def)
  with assms that [OF k] show thesis by (auto simp: llring_geometry_def unat_minus_one)
qed

lemma llring_inv_bound:
  "llring_inv r \<Longrightarrow> length (llring_contents r) \<le> unat (common_slots r) - 1"
  by (auto simp: llring_inv_def llring_geometry_def length_llring_contents word_le_nat_alt
      unat_minus_one)

text \<open>The two abstract updates: append a list at the producer side, drop from the consumer side.\<close>

definition llring_push :: "'a llring \<Rightarrow> 'a list \<Rightarrow> 'a llring" where
  "llring_push r xs =
     r\<lparr>prod_head := prod_tail r + of_nat (length xs), prod_tail := prod_tail r + of_nat (length xs),
       ring_mem := circ_write (ring_mem r) (unat (prod_tail r)) xs\<rparr>"

definition llring_pop :: "'a llring \<Rightarrow> nat \<Rightarrow> 'a llring" where
  "llring_pop r k =
     r\<lparr>cons_head := cons_tail r + of_nat k, cons_tail := cons_tail r + of_nat k\<rparr>"

lemma llring_push_inv:
  assumes inv: "llring_inv r" and len: "length xs \<le> llring_room r"
  shows "llring_inv (llring_push r xs)"
    and "llring_contents (llring_push r xs) = llring_contents r @ xs"
proof -
  from inv have geo: "llring_geometry r" by (simp add: llring_inv_def)
  then obtain k where k: "k < 32" "unat (common_slots r) = 2 ^ k" "length (ring_mem r) = 2 ^ k"
      "unat (common_mask r) = 2 ^ k - 1" by (rule llring_geometry_pow2)
  let ?u = "unat (prod_tail r - cons_tail r)"
  have u: "?u \<le> 2 ^ k - 1" using llring_inv_bound [OF inv] by (simp add: length_llring_contents k)
  have ul: "?u + length xs \<le> 2 ^ k - 1"
    using len u by (simp add: llring_room_def length_llring_contents k)
  have "(2::nat) ^ k \<le> 2 ^ 31" using k(1) by (intro power_increasing) simp_all
  with ul have small: "?u + length xs < 2 ^ 32" by simp
  have diff: "prod_tail r + of_nat (length xs) - cons_tail r = of_nat (?u + length xs)"
    by simp
  have used: "unat (prod_tail r + of_nat (length xs) - cons_tail r) = ?u + length xs"
    unfolding diff using small by (rule unat_of_nat_u32)
  have "unat (prod_tail r) mod 2 ^ k = (unat (cons_tail r) + ?u) mod 2 ^ k"
    using unat_add_of_nat_mod [OF k(1), of "cons_tail r" ?u] by simp
  then have wr: "circ_write (ring_mem r) (unat (prod_tail r)) xs =
      circ_write (ring_mem r) (unat (cons_tail r) + ?u) xs"
    by (intro circ_write_cong) (simp add: k)
  have "circ_read (circ_write (ring_mem r) (unat (cons_tail r) + ?u) xs) (unat (cons_tail r))
      (?u + length xs) = llring_contents r @ xs"
    unfolding llring_contents_def using ul k(3) by (intro circ_read_write) simp
  then show "llring_contents (llring_push r xs) = llring_contents r @ xs"
    by (simp add: llring_push_def llring_contents_def used wr)
  show "llring_inv (llring_push r xs)"
    using inv ul used k(4) by (simp add: llring_inv_def llring_geometry_def llring_push_def
        word_le_nat_alt)
qed

lemma llring_pop_inv:
  assumes inv: "llring_inv r" and len: "n \<le> length (llring_contents r)"
  shows "llring_inv (llring_pop r n)"
    and "llring_contents (llring_pop r n) = drop n (llring_contents r)"
proof -
  from inv have geo: "llring_geometry r" by (simp add: llring_inv_def)
  then obtain k where k: "k < 32" "unat (common_slots r) = 2 ^ k" "length (ring_mem r) = 2 ^ k"
      "unat (common_mask r) = 2 ^ k - 1" by (rule llring_geometry_pow2)
  let ?u = "unat (prod_tail r - cons_tail r)"
  have u: "?u \<le> 2 ^ k - 1" "n \<le> ?u"
    using llring_inv_bound [OF inv] len by (simp_all add: length_llring_contents k)
  have "?u < 2 ^ 32" using unsigned_less [of "prod_tail r - cons_tail r"] by simp
  with u(2) have n: "unat (of_nat n :: u32) = n" by (intro unat_of_nat_u32) simp
  have diff: "prod_tail r - (cons_tail r + of_nat n) = (prod_tail r - cons_tail r) - of_nat n"
    by simp
  have used: "unat (prod_tail r - (cons_tail r + of_nat n)) = ?u - n"
    unfolding diff using u(2) n by (simp add: unat_sub word_le_nat_alt)
  have "unat (cons_tail r + of_nat n) mod length (ring_mem r) = (unat (cons_tail r) + n) mod length (ring_mem r)"
    using unat_add_of_nat_mod [OF k(1), of "cons_tail r" n] by (simp add: k)
  note rd = circ_read_cong [OF this]
  show "llring_contents (llring_pop r n) = drop n (llring_contents r)"
    using u(2) by (simp add: llring_pop_def llring_contents_def used circ_read_drop rd)
  have "?u - n \<le> 2 ^ k - 1" using u(1) by linarith
  then show "llring_inv (llring_pop r n)"
    using inv used k(4) by (simp add: llring_inv_def llring_geometry_def llring_pop_def
        word_le_nat_alt)
qed

section \<open>The operations refine a bounded queue\<close>

text \<open>How many of \<open>n\<close> objects fit: all or none with the fixed behaviour, as many as fit otherwise.\<close>

definition queue_accept :: "nat \<Rightarrow> nat \<Rightarrow> llring_queue_behavior \<Rightarrow> nat" where
  "queue_accept avail n behavior =
     (if n \<le> avail then n else if behavior = LLRING_QUEUE_FIXED then 0 else avail)"

text \<open>
  The status words, from the number of entries used and the room left. The code compares the
  watermark with one entry more than the ring then holds, so it reports the quota when the watermark
  is reached; its comments say when it is exceeded.
\<close>

definition enqueue_status :: "nat \<Rightarrow> nat \<Rightarrow> nat \<Rightarrow> nat \<Rightarrow> llring_queue_behavior \<Rightarrow> u32" where
  "enqueue_status used room watermark n behavior =
     (if behavior = LLRING_QUEUE_FIXED
      then (if room < n then - LLRING_ERR_NOBUF
            else if watermark < used + 1 + n then - LLRING_ERR_QUOT else 0)
      else (if room < n \<and> room = 0 then 0
            else if watermark < used + 1 + min n room then of_nat (min n room) OR RING_QUOT_EXCEED
            else of_nat (min n room)))"

definition dequeue_status :: "nat \<Rightarrow> nat \<Rightarrow> llring_queue_behavior \<Rightarrow> u32" where
  "dequeue_status used n behavior =
     (if behavior = LLRING_QUEUE_FIXED then (if used < n then - LLRING_ERR_NOENT else 0)
      else of_nat (min n used))"

lemma llring_push_Nil: "llring_inv r \<Longrightarrow> llring_push r [] = r"
  by (simp add: llring_push_def llring_inv_def)

lemma llring_pop_0: "llring_inv r \<Longrightarrow> llring_pop r 0 = r"
  by (simp add: llring_pop_def llring_inv_def)

lemma LLRING_ENQUEUE_PTRS_circular:
  assumes "llring_geometry r" and "n \<le> common_slots r" and "unat n \<le> length objs"
  shows "LLRING_ENQUEUE_PTRS r head objs n =
    Some (circ_write (ring_mem r) (unat head) (take (unat n) objs))"
proof -
  from assms(1) obtain k where k: "k < 32" "unat (common_slots r) = 2 ^ k"
      "length (ring_mem r) = 2 ^ k" "common_mask r = common_slots r - 1" by (rule llring_geometry_pow2)
  then have ne: "ring_mem r \<noteq> []" by auto
  show ?thesis
    unfolding LLRING_ENQUEUE_PTRS_def k(4) llring_ptrs_circular [OF k(2,1) assms(2)]
    using copy_circular_enqueue [OF ne, of 0 "unat n" objs "unat head"] assms(3) k by simp
qed

lemma LLRING_DEQUEUE_PTRS_circular:
  assumes "llring_geometry r" and "n \<le> common_slots r" and "unat n \<le> length table"
  shows "LLRING_DEQUEUE_PTRS r head table n =
    Some (circ_read (ring_mem r) (unat head) (unat n) @ drop (unat n) table)"
proof -
  from assms(1) obtain k where k: "k < 32" "unat (common_slots r) = 2 ^ k"
      "length (ring_mem r) = 2 ^ k" "common_mask r = common_slots r - 1" by (rule llring_geometry_pow2)
  then have ne: "ring_mem r \<noteq> []" by auto
  show ?thesis
    unfolding LLRING_DEQUEUE_PTRS_def k(4) llring_ptrs_circular [OF k(2,1) assms(2)]
    using copy_circular_dequeue [OF ne, of 0 "unat n" table "unat head"] assms(3) k by simp
qed

text \<open>The free entries as the code computes them, by wrapping arithmetic.\<close>

lemma llring_free_entries:
  assumes "llring_inv r"
  shows "unat (common_mask r + cons_tail r - prod_head r) = llring_room r"
    and "llring_room r \<le> unat (common_mask r)"
    and "unat (common_mask r) + 1 = unat (common_slots r)"
proof -
  from assms have ph: "prod_head r = prod_tail r" and le: "prod_tail r - cons_tail r \<le> common_mask r"
    and m: "common_mask r = common_slots r - 1" and s: "common_slots r \<noteq> 0"
    by (auto simp: llring_inv_def llring_geometry_def)
  have e: "common_mask r + cons_tail r - prod_head r = common_mask r - (prod_tail r - cons_tail r)"
    by (simp add: ph)
  show "unat (common_mask r + cons_tail r - prod_head r) = llring_room r"
    unfolding e unat_sub [OF le]
    by (simp add: llring_room_def length_llring_contents m unat_minus_one [OF s])
  show "llring_room r \<le> unat (common_mask r)"
    by (simp add: llring_room_def m unat_minus_one [OF s])
  show "unat (common_mask r) + 1 = unat (common_slots r)"
    using s by (simp add: m unat_minus_one [OF s] Suc_leI unat_gt_0)
qed

lemma enqueue_ret_status:
  assumes inv: "llring_inv r" and n: "unat n \<le> llring_room r"
  shows "enqueue_ret (common_mask r) (common_mask r + cons_tail r - prod_head r) n
      (common_watermark r) behavior =
    enqueue_status (length (llring_contents r)) (llring_room r) (unat (common_watermark r)) (unat n) behavior"
proof -
  let ?free = "common_mask r + cons_tail r - prod_head r" and ?used = "length (llring_contents r)"
  note fe = llring_free_entries [OF inv]
  have m: "common_mask r + 1 = common_slots r" using inv by (simp add: llring_inv_def llring_geometry_def)
  have fle: "?free \<le> common_slots r" using fe by (simp add: word_le_nat_alt)
  have bound: "?used \<le> unat (common_slots r) - 1" using inv by (rule llring_inv_bound)
  have "unat (common_slots r - ?free) = ?used + 1"
    using fe bound by (simp add: unat_sub [OF fle] llring_room_def)
  moreover have "unat (common_slots r) < 2 ^ 32" using unsigned_less [of "common_slots r"] by simp
  then have "?used + 1 + unat n < 2 ^ 32" using n bound fe(3) by (simp add: llring_room_def)
  ultimately have "unat (common_slots r - ?free + n) = ?used + 1 + unat n"
    using unat_add_lem [of "common_slots r - ?free" n] by simp
  then have "common_watermark r < common_slots r - ?free + n \<longleftrightarrow>
      unat (common_watermark r) < ?used + 1 + unat n"
    by (simp add: word_less_nat_alt)
  then show ?thesis using n by (auto simp: enqueue_ret_def enqueue_status_def m)
qed

lemma llring_sp_do_enqueue_exact:
  assumes inv: "llring_inv r" and len: "unat n \<le> length objs"
  shows "llring_sp_do_enqueue r objs n behavior =
    Some (enqueue_status (length (llring_contents r)) (llring_room r)
            (unat (common_watermark r)) (unat n) behavior,
          llring_push r (take (queue_accept (llring_room r) (unat n) behavior) objs))"
proof -
  let ?free = "common_mask r + cons_tail r - prod_head r" and ?room = "llring_room r"
  note fe = llring_free_entries [OF inv]
  have gt: "?free < m \<longleftrightarrow> ?room < unat m" for m by (simp add: word_less_nat_alt fe(1))
  have z: "common_mask r + cons_tail r = prod_head r \<longleftrightarrow> ?room = 0"
    using fe(1) by (metis unat_eq_zero right_minus_eq)
  have geo: "llring_geometry r" and ph: "prod_head r = prod_tail r" using inv by (auto simp: llring_inv_def)
  have copy: "LLRING_ENQUEUE_PTRS (r\<lparr>prod_head := p\<rparr>) (prod_head r) objs m =
      Some (circ_write (ring_mem r) (unat (prod_tail r)) (take (unat m) objs))"
    if "unat m \<le> ?room" "unat m \<le> length objs" for p m
    using LLRING_ENQUEUE_PTRS_circular [of "r\<lparr>prod_head := p\<rparr>" m objs "prod_head r"] that fe geo ph
    by (simp add: llring_geometry_def word_le_nat_alt)
  have run: "(do { ring \<leftarrow> LLRING_ENQUEUE_PTRS (r\<lparr>prod_head := prod_head r + m\<rparr>) (prod_head r) objs m;
      Some (ret, r\<lparr>prod_head := prod_head r + m, ring_mem := ring, prod_tail := prod_head r + m\<rparr>) }) =
      Some (ret, llring_push r (take (unat m) objs))"
    if "unat m \<le> ?room" "unat m \<le> length objs" for m and ret :: u32
    using copy [OF that, of "prod_head r + m"] that ph by (simp add: llring_push_def min_def)
  show ?thesis
  proof (cases "unat n \<le> ?room")
    case True
    then show ?thesis using run [OF True len] enqueue_ret_status [OF inv True, of behavior] len
      by (simp add: llring_sp_do_enqueue_def Let_def gt queue_accept_def)
  next
    case False
    have fr: "unat ?free \<le> ?room" "unat ?free \<le> length objs" using False len fe(1) by simp_all
    show ?thesis using False run [OF fr] enqueue_ret_status [OF inv fr(1), of behavior] inv
      by (cases behavior) (auto simp: llring_sp_do_enqueue_def Let_def gt z queue_accept_def fe(1)
          enqueue_status_def llring_push_Nil)
  qed
qed

lemma llring_sc_do_dequeue_exact:
  assumes inv: "llring_inv r" and len: "unat n \<le> length table"
  shows "llring_sc_do_dequeue r table n behavior =
    (let k = queue_accept (length (llring_contents r)) (unat n) behavior in
     Some (dequeue_status (length (llring_contents r)) (unat n) behavior,
           take k (llring_contents r) @ drop k table, llring_pop r k))"
proof -
  let ?used = "length (llring_contents r)" and ?ent = "prod_tail r - cons_head r"
  have geo: "llring_geometry r" and ch: "cons_head r = cons_tail r" using inv by (auto simp: llring_inv_def)
  have ent: "unat ?ent = ?used" by (simp add: length_llring_contents ch)
  have gt: "?ent < m \<longleftrightarrow> ?used < unat m" for m by (simp add: word_less_nat_alt ent)
  have z: "prod_tail r = cons_head r \<longleftrightarrow> ?used = 0"
    using ent by (metis unat_eq_zero right_minus_eq)
  have ofn: "of_nat ?used = ?ent" by (simp flip: ent)
  have used: "?used \<le> unat (common_slots r)" using llring_inv_bound [OF inv] by simp
  have copy: "LLRING_DEQUEUE_PTRS (r\<lparr>cons_head := p\<rparr>) (cons_head r) table m =
      Some (take (unat m) (llring_contents r) @ drop (unat m) table)"
    if "unat m \<le> ?used" "unat m \<le> length table" for p m
    using LLRING_DEQUEUE_PTRS_circular [of "r\<lparr>cons_head := p\<rparr>" m table "cons_head r"] that used geo ch
    by (simp add: llring_geometry_def word_le_nat_alt llring_contents_def circ_read_take)
  have run: "(do { tb \<leftarrow> LLRING_DEQUEUE_PTRS (r\<lparr>cons_head := cons_head r + m\<rparr>) (cons_head r) table m;
      Some (ret, tb, r\<lparr>cons_head := cons_head r + m, cons_tail := cons_head r + m\<rparr>) }) =
      Some (ret, take (unat m) (llring_contents r) @ drop (unat m) table, llring_pop r (unat m))"
    if "unat m \<le> ?used" "unat m \<le> length table" for m and ret :: u32
    using copy [OF that, of "cons_head r + m"] ch by (simp add: llring_pop_def)
  show ?thesis
  proof (cases "unat n \<le> ?used")
    case True
    then show ?thesis using run [OF True len]
      by (simp add: llring_sc_do_dequeue_def Let_def gt queue_accept_def dequeue_status_def min_def)
  next
    case False
    have fr: "unat ?ent \<le> ?used" "unat ?ent \<le> length table" using False len ent by simp_all
    show ?thesis using False run [OF fr] ent inv ofn
      by (cases behavior) (auto simp: llring_sc_do_dequeue_def Let_def gt z queue_accept_def
          dequeue_status_def llring_pop_0)
  qed
qed

section \<open>One object at a time: the queue the channel uses\<close>

text \<open>
  The caller's idiom around a burst of one object (\<open>vchannel.c\<close>): the quota bit is masked
  off, and fewer than one object is a failure. \<open>junk\<close> is the uninitialised pointer that the
  dequeue is given to fill.
\<close>

definition ring_put :: "'a llring \<Rightarrow> 'a \<Rightarrow> (bool \<times> 'a llring) option" where
  "ring_put r x =
     do { (ret, r) \<leftarrow> llring_sp_enqueue_burst r [x] 1;
          Some (\<not> sint (ret AND 0x7fffffff) < 1, r) }"

definition ring_get :: "'a \<Rightarrow> 'a llring \<Rightarrow> ('a option \<times> 'a llring) option" where
  "ring_get junk r =
     do { (ret, table, r) \<leftarrow> llring_sc_dequeue_burst r [junk] 1;
          Some (if sint ret < 1 then None else Some (hd table), r) }"

lemma llring_push_frame [simp]:
  "common_slots (llring_push r xs) = common_slots r"
  "common_mask (llring_push r xs) = common_mask r"
  "common_watermark (llring_push r xs) = common_watermark r"
  "cons_tail (llring_push r xs) = cons_tail r"
  by (simp_all add: llring_push_def)

lemma llring_pop_frame [simp]:
  "common_slots (llring_pop r k) = common_slots r"
  "common_mask (llring_pop r k) = common_mask r"
  "common_watermark (llring_pop r k) = common_watermark r"
  "prod_tail (llring_pop r k) = prod_tail r"
  "ring_mem (llring_pop r k) = ring_mem r"
  by (simp_all add: llring_pop_def)

lemma queue_accept_le: "queue_accept avail n b \<le> avail" "queue_accept avail n b \<le> n"
  by (auto simp: queue_accept_def)

lemma queue_accept_1: "queue_accept avail (Suc 0) b = (if avail = 0 then 0 else 1)"
  by (simp add: queue_accept_def)

lemma llring_room_positive:
  "llring_inv r \<Longrightarrow> 0 < llring_room r \<longleftrightarrow> length (llring_contents r) < unat (common_slots r) - 1"
  by (auto simp: llring_room_def)

text \<open>The status of a burst of one: bit 31 never reaches the caller once it is masked off.\<close>

lemma burst_one_status:
  "sint (enqueue_status used room wm 1 LLRING_QUEUE_VARIABLE AND 0x7fffffff) < 1 \<longleftrightarrow> room = 0"
  by (auto simp: enqueue_status_def RING_QUOT_EXCEED_def min_def not_le)

lemma ring_put_exact:
  "llring_inv r \<Longrightarrow> ring_put r x =
     Some (0 < llring_room r, if 0 < llring_room r then llring_push r [x] else r)"
  using burst_one_status
  by (simp add: ring_put_def llring_sp_enqueue_burst_def llring_sp_do_enqueue_exact queue_accept_1
      llring_push_Nil)

lemma ring_get_exact:
  "llring_inv r \<Longrightarrow> ring_get junk r =
     (case llring_contents r of [] \<Rightarrow> Some (None, r) | x # xs \<Rightarrow> Some (Some x, llring_pop r 1))"
  by (auto simp: ring_get_def llring_sc_dequeue_burst_def llring_sc_do_dequeue_exact Let_def
      queue_accept_1 dequeue_status_def llring_pop_0 split: list.splits)

section \<open>Queries and initialisation\<close>

lemma llring_count_contents:
  assumes "llring_inv r"
  shows "unat (llring_count r) = length (llring_contents r)"
proof -
  from assms have "llring_geometry r" by (simp add: llring_inv_def)
  then obtain k where k: "unat (common_slots r) = 2 ^ k" "common_mask r = common_slots r - 1"
    by (rule llring_geometry_pow2)
  have "unat (llring_count r) = unat (prod_tail r - cons_tail r) mod 2 ^ k"
    using unat_and_ring_mask [OF k(1)] by (simp add: llring_count_def k)
  moreover have "length (llring_contents r) < 2 ^ k"
    using llring_inv_bound [OF assms] by (simp add: k(1))
      (metis Suc_pred le_imp_less_Suc zero_less_numeral zero_less_power)
  ultimately show ?thesis by (simp add: length_llring_contents)
qed

lemma llring_free_count_room:
  assumes "llring_inv r"
  shows "unat (llring_free_count r) = llring_room r"
proof -
  from assms have geo: "llring_geometry r" and ph: "prod_head r = prod_tail r"
    by (auto simp: llring_inv_def)
  from geo obtain k where k: "k < 32" "unat (common_slots r) = 2 ^ k" "common_mask r = common_slots r - 1"
    by (rule llring_geometry_pow2)
  note fe = llring_free_entries [OF assms]
  have slots: "of_nat (2 ^ k) = common_slots r" by (simp flip: k(2))
  have "common_mask r + cons_tail r - prod_head r = (cons_tail r - prod_tail r - 1) + of_nat (2 ^ k)"
    unfolding slots by (simp add: k(3) ph)
  with fe(1) have "llring_room r = unat ((cons_tail r - prod_tail r - 1) + of_nat (2 ^ k))"
    by (simp only:)
  then have "llring_room r mod 2 ^ k = unat (cons_tail r - prod_tail r - 1) mod 2 ^ k"
    by (simp only: unat_add_of_nat_mod [OF k(1)] mod_add_self2)
  moreover have "llring_room r < 2 ^ k" using fe(2,3) k(2) by simp
  ultimately show ?thesis using unat_and_ring_mask [OF k(2)] k by (simp add: llring_free_count_def)
qed

lemma llring_full_room: "llring_inv r \<Longrightarrow> llring_full r \<longleftrightarrow> llring_room r = 0"
  using llring_free_count_room [of r] by (metis llring_free_count_def llring_full_def unat_eq_zero)

lemma llring_empty_contents: "llring_empty r \<longleftrightarrow> llring_contents r = []"
  using length_llring_contents [of r]
  by (metis length_0_conv llring_empty_def right_minus_eq unat_eq_zero)

lemma zeroed_slots_le: "zeroed_slots slots \<le> unat slots"
proof -
  let ?x = "sizeof_llring + 8 * unat slots"
  have "sint w \<le> uint w" for w :: u32
    by (simp add: sint_uint signed_take_bit_int_less_eq_self_iff order_trans [OF _ uint_ge_0])
  then have "sint (of_nat ?x :: u32) \<le> int (unat (of_nat ?x :: u32))" by simp
  also have "\<dots> \<le> int ?x" by (simp only: unat_of_nat of_nat_le_iff mod_less_eq_dividend)
  finally have "sint (of_nat ?x :: u32) - int sizeof_llring \<le> int (8 * unat slots)"
    by linarith
  then have "nat (sint (of_nat ?x :: u32) - int sizeof_llring) \<le> 8 * unat slots"
    by (simp only: nat_le_iff)
  then show ?thesis unfolding zeroed_slots_def llring_bytes_with_slots_def by simp
qed

lemma llring_init_accepts:
  assumes "length (ring_mem r) = unat slots" and "slots \<noteq> 0" and "slots AND (slots - 1) = 0"
  obtains r' where "llring_init r slots sp sc = Some (0, r')" and "llring_inv r'"
    and "llring_contents r' = []" and "common_slots r' = slots" and "common_watermark r' = slots"
  using assms zeroed_slots_le [of slots]
  by (auto simp: llring_init_def llring_inv_def llring_geometry_def llring_contents_def word_neq_0_conv)

section \<open>The ring is a counted bounded queue\<close>

interpretation lq: counted_fifo llring_inv llring_contents "\<lambda>r. unat (common_slots r) - 1"
    ring_put "ring_get junk" llring_count
  for junk
proof unfold_locales
  fix r :: "'a llring" and x :: 'a and xs
  assume inv: "llring_inv r"
  show "length (llring_contents r) \<le> unat (common_slots r) - 1" using inv by (rule llring_inv_bound)
  show "unat (llring_count r) = length (llring_contents r)" using inv by (rule llring_count_contents)
  show "ring_put r x = Some (False, r)" if "unat (common_slots r) - 1 \<le> length (llring_contents r)"
    using that llring_room_positive [OF inv] by (simp add: ring_put_exact [OF inv])
  show "\<exists>q'. ring_put r x = Some (True, q') \<and> llring_inv q' \<and> llring_contents q' = llring_contents r @ [x] \<and>
      unat (common_slots q') - 1 = unat (common_slots r) - 1"
    if "length (llring_contents r) < unat (common_slots r) - 1"
    using that llring_room_positive [OF inv] llring_push_inv [OF inv, of "[x]"]
    by (simp add: ring_put_exact [OF inv])
  show "ring_get junk r = Some (None, r)" if "llring_contents r = []"
    using that by (simp add: ring_get_exact [OF inv])
  show "\<exists>q'. ring_get junk r = Some (Some x, q') \<and> llring_inv q' \<and> llring_contents q' = xs \<and>
      unat (common_slots q') - 1 = unat (common_slots r) - 1"
    if "llring_contents r = x # xs"
    using that llring_pop_inv [OF inv, of 1] by (simp add: ring_get_exact [OF inv])
qed

section \<open>Properties\<close>

text \<open>A concrete ring of four slots whose counters are about to wrap, used by the witnesses:
  it holds the single object 7.\<close>

definition wrap_ring :: "int llring" where
  "wrap_ring = \<lparr>common_slots = 4, common_mask = 3, common_sp_enqueue = 0, common_sc_dequeue = 0,
     common_watermark = 4, prod_head = 0xFFFFFFFF, prod_tail = 0xFFFFFFFF,
     cons_head = 0xFFFFFFFE, cons_tail = 0xFFFFFFFE, ring_mem = [0, 0, 7, 0]\<rparr>"

lemma wrap_ring_inv: "llring_inv wrap_ring"
  by (simp add: wrap_ring_def llring_inv_def llring_geometry_def)

lemma wrap_ring_contents: "llring_contents wrap_ring = [7]"
  by (simp add: wrap_ring_def llring_contents_def circ_read_def)

lemma wrap_ring_fields [simp]:
  "common_slots wrap_ring = 4" "common_watermark wrap_ring = 4" "ring_mem wrap_ring = [0, 0, 7, 0]"
  by (simp_all add: wrap_ring_def)

lemma wrap_ring_room: "llring_room wrap_ring = 2"
  by (simp add: llring_room_def wrap_ring_contents)

lemma llring_enqueue_step:
  assumes "llring_inv r" and "unat n \<le> length objs"
  shows "\<exists>r'. llring_sp_do_enqueue r objs n behavior =
      Some (enqueue_status (length (llring_contents r)) (llring_room r)
              (unat (common_watermark r)) (unat n) behavior, r') \<and>
    llring_inv r' \<and>
    llring_contents r' =
      llring_contents r @ take (queue_accept (llring_room r) (unat n) behavior) objs \<and>
    common_slots r' = common_slots r \<and> common_watermark r' = common_watermark r"
proof -
  let ?xs = "take (queue_accept (llring_room r) (unat n) behavior) objs"
  have "length ?xs \<le> llring_room r"
    using queue_accept_le(1) [of "llring_room r" "unat n" behavior] by simp
  from llring_push_inv [OF assms(1) this] show ?thesis
    by (simp add: llring_sp_do_enqueue_exact [OF assms])
qed

text \<open>C9: the unrolled, split copies of \<open>LLRING_ENQUEUE_PTRS\<close> and \<open>LLRING_DEQUEUE_PTRS\<close> never
  access memory outside the ring or the caller's table, and compute the plain circular copy
  of \<open>n\<close> objects at the masked head, for every value of the 32-bit head.\<close>

theorem llring_copy_macros:
  assumes "llring_geometry r" and "n \<le> common_slots r" and "unat n \<le> length table"
  shows "LLRING_ENQUEUE_PTRS r head table n =
      Some (circ_write (ring_mem r) (unat head) (take (unat n) table)) \<and>
    LLRING_DEQUEUE_PTRS r head table n =
      Some (circ_read (ring_mem r) (unat head) (unat n) @ drop (unat n) table)"
  using assms by (simp add: LLRING_ENQUEUE_PTRS_circular LLRING_DEQUEUE_PTRS_circular)

theorem llring_copy_macros_witness:
  "LLRING_ENQUEUE_PTRS wrap_ring 0xFFFFFFFF [1, 2, 3] 3 = Some [2, 3, 7, 1] \<and>
   LLRING_DEQUEUE_PTRS wrap_ring 0xFFFFFFFE [1, 2, 3] 3 = Some [7, 0, 0]"
proof -
  have "llring_geometry wrap_ring" using wrap_ring_inv by (simp add: llring_inv_def)
  note copies = llring_copy_macros [OF this, of 3 "[1, 2, 3]"]
  show ?thesis using copies [of "0xFFFFFFFF"] copies [of "0xFFFFFFFE"]
    by (simp add: circ_read_def upt_rec)
qed

text \<open>C6: an enqueue of \<open>n\<close> objects on a quiescent ring never faults, appends to the queue
  exactly the objects that fit (all or none with the fixed behaviour, as many as fit with the
  variable one), and keeps the invariant and the configuration. When nothing fits, the fixed
  behaviour returns \<open>-LLRING_ERR_NOBUF\<close> and the variable one 0. Otherwise the quota is reported
  (\<open>-LLRING_ERR_QUOT\<close>, or the quota bit beside the number of objects) exactly when the ring then holds
  at least as many entries as the watermark says; below, the status is 0 or the number of objects.
  The comments of \<open>llring.h\<close> let the quota be reported only when the watermark is exceeded: the code
  differs from them when the watermark is met exactly.\<close>

theorem llring_enqueue_refines:
  assumes "llring_inv r" and "unat n \<le> length objs"
  shows "\<exists>ret r'. llring_sp_do_enqueue r objs n behavior = Some (ret, r') \<and>
    llring_inv r' \<and> common_slots r' = common_slots r \<and> common_watermark r' = common_watermark r \<and>
    (if llring_room r < unat n \<and> (behavior = LLRING_QUEUE_FIXED \<or> llring_room r = 0)
     then llring_contents r' = llring_contents r \<and> ret = (if behavior = LLRING_QUEUE_FIXED then - 1 else 0)
     else let k = min (unat n) (llring_room r);
              quota = unat (common_watermark r) \<le> length (llring_contents r') in
       llring_contents r' = llring_contents r @ take k objs \<and>
       ret = (if behavior = LLRING_QUEUE_FIXED then if quota then - 2 else 0
              else if quota then of_nat k OR 0x80000000 else of_nat k))"
proof -
  have le: "min (unat n) (llring_room r) \<le> length objs" using assms(2) by simp
  from llring_enqueue_step [OF assms, of behavior] obtain r' where
    "llring_sp_do_enqueue r objs n behavior =
      Some (enqueue_status (length (llring_contents r)) (llring_room r) (unat (common_watermark r)) (unat n) behavior, r')"
    "llring_inv r'" "common_slots r' = common_slots r" "common_watermark r' = common_watermark r"
    "llring_contents r' = llring_contents r @ take (queue_accept (llring_room r) (unat n) behavior) objs" by blast
  then show ?thesis using assms(2)
    by (cases behavior) (auto simp: queue_accept_def enqueue_status_def Let_def LLRING_ERR_NOBUF_def
        LLRING_ERR_QUOT_def RING_QUOT_EXCEED_def)
qed

theorem llring_enqueue_refines_witness:
  "\<exists>r'. llring_sp_do_enqueue (wrap_ring\<lparr>common_watermark := 3\<rparr>) [1, 2, 3] 3 LLRING_QUEUE_VARIABLE =
       Some (2 OR 0x80000000, r') \<and>
     llring_inv r' \<and> llring_contents r' = [7, 1, 2] \<and> common_slots r' = 4"
proof -
  let ?r = "wrap_ring\<lparr>common_watermark := 3\<rparr>"
  have "llring_inv ?r" and s: "llring_room ?r = 2" "llring_contents ?r = [7]" "common_slots ?r = 4"
    by (simp_all add: wrap_ring_def llring_inv_def llring_geometry_def llring_room_def
        llring_contents_def circ_read_def)
  then show ?thesis using llring_enqueue_refines [of ?r 3 "[1, 2, 3]" LLRING_QUEUE_VARIABLE]
    by (auto simp: Let_def)
qed

text \<open>C7: a dequeue of \<open>n\<close> objects never faults, copies the oldest objects into the caller's
  table in their order (all \<open>n\<close> or none with the fixed behaviour, as many as there are with
  the variable one), removes exactly these, and returns the documented status.\<close>

theorem llring_dequeue_refines:
  assumes "llring_inv r" and "unat n \<le> length table"
  shows "\<exists>r'. llring_sc_do_dequeue r table n behavior =
      Some (dequeue_status (length (llring_contents r)) (unat n) behavior,
            take (queue_accept (length (llring_contents r)) (unat n) behavior) (llring_contents r) @
            drop (queue_accept (length (llring_contents r)) (unat n) behavior) table, r') \<and>
    llring_inv r' \<and>
    llring_contents r' =
      drop (queue_accept (length (llring_contents r)) (unat n) behavior) (llring_contents r) \<and>
    common_slots r' = common_slots r \<and> common_watermark r' = common_watermark r"
  using llring_pop_inv [OF assms(1) queue_accept_le(1) [of "length (llring_contents r)"]]
  by (simp add: llring_sc_do_dequeue_exact [OF assms] Let_def)

theorem llring_dequeue_refines_witness:
  "\<exists>r'. llring_sc_do_dequeue wrap_ring [1, 2] 2 LLRING_QUEUE_VARIABLE = Some (1, [7, 2], r') \<and>
     llring_inv r' \<and> llring_contents r' = [] \<and> common_slots r' = 4"
  using llring_dequeue_refines [OF wrap_ring_inv, of 2 "[1, 2]" LLRING_QUEUE_VARIABLE]
  by (auto simp: wrap_ring_contents queue_accept_def dequeue_status_def)

text \<open>\<open>llring_init\<close> accepts a size exactly when \<open>slots & (slots - 1)\<close> is zero; for such a
  nonzero size and a memory area of that many entries it yields an empty ring that satisfies
  the invariant, holds \<open>slots - 1\<close> free entries, and leaves the ring alone otherwise.\<close>

theorem llring_init_correct:
  assumes "length (ring_mem r) = unat slots" and "slots \<noteq> 0"
  shows "if slots AND (slots - 1) = 0
    then \<exists>r'. llring_init r slots sp sc = Some (0, r') \<and> llring_inv r' \<and> llring_contents r' = [] \<and>
      llring_room r' = unat slots - 1 \<and> common_watermark r' = slots
    else llring_init r slots sp sc = Some (- LLRING_ERR_NOPOW2, r)"
proof (cases "slots AND (slots - 1) = 0")
  case True
  from llring_init_accepts [OF assms True, of sp sc] show ?thesis
    by (metis (no_types, lifting) True diff_zero list.size(3) llring_room_def)
qed (simp add: llring_init_def)

theorem llring_init_correct_witness:
  "(\<exists>r'. llring_init wrap_ring 4 0 0 = Some (0, r') \<and> llring_inv r' \<and> llring_contents r' = []) \<and>
   llring_init (wrap_ring\<lparr>ring_mem := [0, 0, 0]\<rparr>) 3 0 0 =
     Some (- LLRING_ERR_NOPOW2, wrap_ring\<lparr>ring_mem := [0, 0, 0]\<rparr>)"
  using llring_init_correct [of wrap_ring 4 0 0]
    llring_init_correct [of "wrap_ring\<lparr>ring_mem := [0, 0, 0]\<rparr>" 3 0 0]
  by auto

text \<open>The power-of-two test accepts the size 0, and the ring it initialises then accepts an
  enqueue although it has no entry: the copy accesses memory behind the ring.\<close>

theorem llring_init_zero_slots:
  assumes "ring_mem r = []"
  shows "\<exists>r'. llring_init r 0 sp sc = Some (0, r') \<and> llring_sp_enqueue_burst r' [x] 1 = None"
  using assms
  by (simp add: llring_init_def zeroed_slots_def llring_bytes_with_slots_def sizeof_llring_def
      llring_sp_enqueue_burst_def llring_sp_do_enqueue_def LLRING_ENQUEUE_PTRS_def llring_ptrs_def
      ptrs_to_end.simps ptrs_wrapped.simps cp_elem_def)

theorem llring_init_zero_slots_witness:
  "\<exists>r'. llring_init (wrap_ring\<lparr>ring_mem := []\<rparr>) 0 1 1 = Some (0, r') \<and>
     llring_sp_enqueue_burst r' [5] 1 = None"
  by (rule llring_init_zero_slots) simp

text \<open>On a quiescent ring the four queries, computed from wrapping differences under the
  mask, report the queue's length, its free entries, fullness and emptiness.\<close>

theorem llring_queries:
  assumes "llring_inv r"
  shows "unat (llring_count r) = length (llring_contents r) \<and>
    unat (llring_free_count r) = llring_room r \<and>
    unat (llring_count r) + unat (llring_free_count r) = unat (common_slots r) - 1 \<and>
    (llring_full r \<longleftrightarrow> llring_room r = 0) \<and> (llring_empty r \<longleftrightarrow> llring_contents r = [])"
  using assms llring_inv_bound [OF assms]
  by (simp add: llring_count_contents llring_free_count_room llring_full_room
      llring_empty_contents) (simp add: llring_room_def)

theorem llring_queries_witness:
  "unat (llring_count wrap_ring) = 1 \<and> unat (llring_free_count wrap_ring) = 2 \<and>
   \<not> llring_full wrap_ring \<and> \<not> llring_empty wrap_ring"
  using llring_queries [OF wrap_ring_inv] by (simp add: wrap_ring_contents wrap_ring_room)

text \<open>With the watermark that \<open>llring_init\<close> sets, a burst enqueue returns the plain number of
  objects enqueued, the smaller of \<open>n\<close> and the room: the quota bit is never set.\<close>

theorem llring_burst_count:
  assumes "llring_inv r" and "common_watermark r = common_slots r" and "unat n \<le> length objs"
  shows "\<exists>ret r'. llring_sp_enqueue_burst r objs n = Some (ret, r') \<and>
    unat ret = min (unat n) (llring_room r) \<and>
    llring_contents r' = llring_contents r @ take (unat ret) objs"
proof -
  let ?used = "length (llring_contents r)" and ?room = "llring_room r"
  have "?used + 1 + min (unat n) ?room \<le> unat (common_watermark r)"
    using llring_inv_bound [OF assms(1)] llring_free_entries(3) [OF assms(1)] assms(2)
    by (simp add: llring_room_def)
  then have st: "enqueue_status ?used ?room (unat (common_watermark r)) (unat n) LLRING_QUEUE_VARIABLE
      = of_nat (min (unat n) ?room)"
    by (simp add: enqueue_status_def)
  have "unat (of_nat (min (unat n) ?room) :: u32) = min (unat n) ?room"
    using unat_u32_bound [of n] by (intro unat_of_nat_u32) (simp add: min_less_iff_disj)
  then show ?thesis
    using llring_enqueue_step [OF assms(1,3), of LLRING_QUEUE_VARIABLE] st
    by (auto simp: llring_sp_enqueue_burst_def queue_accept_def min_def)
qed

theorem llring_burst_count_witness:
  "\<exists>ret r'. llring_sp_enqueue_burst wrap_ring [1, 2, 3] 3 = Some (ret, r') \<and> unat ret = 2"
  using llring_burst_count [OF wrap_ring_inv, of 3 "[1, 2, 3]"] by (auto simp: wrap_ring_room)

text \<open>What one side enqueues the other dequeues: after an accepted fixed enqueue, a fixed
  dequeue of everything returns the earlier content followed by the new objects and leaves
  the ring empty.\<close>

theorem llring_roundtrip:
  assumes inv: "llring_inv r" and room: "unat n \<le> llring_room r" and len: "length objs = unat n"
    and table: "length table = unat m" and m: "unat m = length (llring_contents r) + unat n"
  shows "\<exists>st r1 r2. llring_sp_enqueue_bulk r objs n = Some (st, r1) \<and>
    llring_sc_dequeue_bulk r1 table m = Some (0, llring_contents r @ objs, r2) \<and>
    llring_contents r2 = []"
proof -
  from llring_enqueue_step [OF inv, of n objs LLRING_QUEUE_FIXED] room len
  obtain st r1 where r1: "llring_sp_enqueue_bulk r objs n = Some (st, r1)" "llring_inv r1"
      "llring_contents r1 = llring_contents r @ objs"
    by (auto simp: llring_sp_enqueue_bulk_def queue_accept_def)
  have "length (llring_contents r1) \<le> length (llring_contents r1)" by simp
  from llring_pop_inv [OF r1(2) this] llring_sc_do_dequeue_exact [OF r1(2), of m table LLRING_QUEUE_FIXED] table m len r1(1,3)
  show ?thesis by (auto simp: llring_sc_dequeue_bulk_def queue_accept_def dequeue_status_def Let_def)
qed

theorem llring_roundtrip_witness:
  "\<exists>st r1 r2. llring_sp_enqueue_bulk wrap_ring [1, 2] 2 = Some (st, r1) \<and>
     llring_sc_dequeue_bulk r1 [0, 0, 0] 3 = Some (0, [7, 1, 2], r2) \<and> llring_contents r2 = []"
  using llring_roundtrip [OF wrap_ring_inv, of 2 "[1, 2]" "[0, 0, 0]" 3]
  by (auto simp: wrap_ring_contents wrap_ring_room)

text \<open>Any sequence of single puts and gets runs without a fault and is first-in first-out:
  the initial content followed by the accepted objects is the delivered objects followed by
  the final content.\<close>

theorem llring_fifo_runs:
  assumes "llring_inv r"
  shows "\<exists>ins outs r'. queue_run ring_put (ring_get junk) r ops = Some (ins, outs, r') \<and>
    llring_inv r' \<and> llring_contents r @ ins = outs @ llring_contents r'"
  using lq.run_fifo [OF assms, of junk ops] by blast

theorem llring_fifo_runs_witness:
  "\<exists>ins outs r'. queue_run ring_put (ring_get 0) wrap_ring [Put 1, Get, Get, Get] = Some (ins, outs, r') \<and>
     llring_inv r' \<and> [7] @ ins = outs @ llring_contents r'"
  using llring_fifo_runs [OF wrap_ring_inv, of 0 "[Put 1, Get, Get, Get]"]
  by (simp add: wrap_ring_contents)

text \<open>\<open>llring_set_water_mark\<close> keeps the invariant and the content and refuses a value not
  below the size; after it, an accepted bulk enqueue reports the quota status already when
  the number of entries reaches the watermark, not only when it exceeds it.\<close>

theorem llring_watermark_reached:
  assumes "llring_inv r" and "unat n \<le> llring_room r" and "length objs = unat n"
  shows "(\<exists>ret r'. llring_sp_enqueue_bulk r objs n = Some (ret, r') \<and>
    (ret = - LLRING_ERR_QUOT \<longleftrightarrow> unat (common_watermark r) \<le> length (llring_contents r'))) \<and>
    (case llring_set_water_mark r c of (st, r2) \<Rightarrow> llring_inv r2 \<and>
      llring_contents r2 = llring_contents r \<and> (st = 0 \<longleftrightarrow> c < common_slots r) \<and>
      (c < common_slots r \<longrightarrow> c \<noteq> 0 \<longrightarrow> common_watermark r2 = c))"
proof -
  from llring_enqueue_step [OF assms(1), of n objs LLRING_QUEUE_FIXED] assms(2,3)
  have "\<exists>ret r'. llring_sp_enqueue_bulk r objs n = Some (ret, r') \<and>
    (ret = - LLRING_ERR_QUOT \<longleftrightarrow> unat (common_watermark r) \<le> length (llring_contents r'))"
    by (auto simp: llring_sp_enqueue_bulk_def queue_accept_def enqueue_status_def LLRING_ERR_QUOT_def)
  moreover have "case llring_set_water_mark r c of (st, r2) \<Rightarrow> llring_inv r2 \<and>
      llring_contents r2 = llring_contents r \<and> (st = 0 \<longleftrightarrow> c < common_slots r) \<and>
      (c < common_slots r \<longrightarrow> c \<noteq> 0 \<longrightarrow> common_watermark r2 = c)"
    using assms(1) by (auto simp: llring_set_water_mark_def llring_inv_def llring_geometry_def
        llring_contents_def LLRING_ERR_INVAL_def Let_def word_neq_0_conv not_le)
  ultimately show ?thesis by blast
qed

theorem llring_watermark_reached_witness:
  "\<exists>ret r'. llring_sp_enqueue_bulk (wrap_ring\<lparr>common_watermark := 3\<rparr>) [1, 2] 2 = Some (ret, r') \<and>
     (ret = - LLRING_ERR_QUOT \<longleftrightarrow> 3 \<le> length (llring_contents r'))"
proof -
  let ?r = "wrap_ring\<lparr>common_watermark := 3\<rparr>"
  have "llring_inv ?r" and "llring_room ?r = 2"
    by (simp_all add: wrap_ring_def llring_inv_def llring_geometry_def llring_room_def
        llring_contents_def)
  then show ?thesis using llring_watermark_reached [of ?r 2 "[1, 2]" 1] by auto
qed

end
