(* ===== verification/Step_Interface.thy ===== *)
theory Step_Interface
  imports Main
begin
text \<open>
  The contracts that the step relations of the development share: an invariant that every step keeps,
  and a thread that can always go on and comes closer to its end with every step of its own.
\<close>

section \<open>Invariants\<close>

locale step_invariant =
  fixes step :: "'s \<Rightarrow> 's \<Rightarrow> bool" and good :: "'s \<Rightarrow> bool"
  assumes preserved: "good s \<Longrightarrow> step s t \<Longrightarrow> good t"
begin

lemma reached: "step\<^sup>*\<^sup>* s t \<Longrightarrow> good s \<Longrightarrow> good t"
  by (induction rule: rtranclp_induct) (auto intro: preserved)

text \<open>A fact that the steps between good states keep holds along the whole run.\<close>

lemma kept:
  assumes "step\<^sup>*\<^sup>* s t" and "good s" and "P s" and "\<And>u v. good u \<Longrightarrow> step u v \<Longrightarrow> P u \<Longrightarrow> P v"
  shows "P t"
  using assms(1)
proof (induction rule: rtranclp_induct)
  case (step u v)
  then show ?case using reached [of s u] assms(2,4) by blast
qed (rule assms(3))

end

section \<open>Progress\<close>

text \<open>\<open>own\<close> are the steps of one thread, \<open>busy\<close> says that it is inside an operation, and \<open>work\<close> bounds the
  steps that are left.\<close>

locale step_progress = step_invariant own good
  for own :: "'s \<Rightarrow> 's \<Rightarrow> bool" and good +
  fixes busy :: "'s \<Rightarrow> bool" and work :: "'s \<Rightarrow> nat"
  assumes enabled: "good s \<Longrightarrow> \<exists>t. own s t"
    and closer: "good s \<Longrightarrow> busy s \<Longrightarrow> own s t \<Longrightarrow> work t < work s"
begin

text \<open>Left alone, the thread ends its operation, after at most \<open>work\<close> steps.\<close>

lemma finishes: "good s \<Longrightarrow> \<exists>n t. n \<le> work s \<and> (own ^^ n) s t \<and> \<not> busy t"
proof (induction "work s" arbitrary: s rule: less_induct)
  case less
  show ?case
  proof (cases "busy s")
    case True
    obtain t where t: "own s t" using enabled less.prems by blast
    then have w: "work t < work s" "good t" using closer preserved less.prems True by blast+
    from less.hyps [OF w] obtain n u where n: "n \<le> work t" "(own ^^ n) t u" "\<not> busy u" by blast
    have "(own ^^ Suc n) s u" using t n(2) by (rule relpowp_Suc_I2)
    moreover have "Suc n \<le> work s" using n(1) w(1) by simp
    ultimately show ?thesis using n(3) by blast
  next
    case False
    have "(own ^^ 0) s s" by simp
    then show ?thesis using False by blast
  qed
qed

end

end
