(* ===== verification/LLRing_Concurrent.thy ===== *)
theory LLRing_Concurrent
  imports LLRing Step_Interface
begin
text \<open>
  The ring of \<open>src/llring.h\<close> under concurrency. First one producer and one consumer thread whose
  reads and writes of the shared ring interleave one access at a time, in the order in which
  \<open>__llring_sp_do_enqueue\<close> and \<open>__llring_sc_do_dequeue\<close> issue them (sequentially consistent
  memory; \<open>COMPILER_BARRIER\<close> keeps the copies before the publishing write). Then the
  multi-producer and multi-consumer bodies, one thread's code against an environment that
  changes the ring between its accesses.
\<close>

section \<open>One producer, one consumer: steps\<close>

text \<open>
  The program counter of the producer with the locals that are live there: after the read of
  \<open>prod.head\<close>; after the read of \<open>cons.tail\<close>, with the objects that fit; in the copy, with the
  number of entries written. The length of the list is the parameter \<open>n\<close>.
\<close>

datatype 'a producer_pc =
    PIdle
  | PLoaded "'a list" llring_queue_behavior u32
  | PClaim "'a list" u32
  | PCopy "'a list" u32 nat

datatype 'a consumer_pc =
    CIdle
  | CLoaded u32 llring_queue_behavior u32
  | CClaim u32 u32
  | CCopy u32 u32 "'a list"

text \<open>The shared ring, the two threads, and as history the objects published and consumed.\<close>

record 'a spsc =
  shared :: "'a llring"
  producer :: "'a producer_pc"
  consumer :: "'a consumer_pc"
  published :: "'a list"
  consumed :: "'a list"

inductive prod_step :: "'a spsc \<Rightarrow> 'a spsc \<Rightarrow> bool" where
  p_load: "producer s = PIdle \<Longrightarrow> length objs < 2 ^ 32 \<Longrightarrow>
     prod_step s (s\<lparr>producer := PLoaded objs behavior (prod_head (shared s))\<rparr>)"
| p_full: "producer s = PLoaded objs behavior head \<Longrightarrow>
     free_entries = common_mask (shared s) + cons_tail (shared s) - head \<Longrightarrow>
     of_nat (length objs) > free_entries \<Longrightarrow> behavior = LLRING_QUEUE_FIXED \<or> free_entries = 0 \<Longrightarrow>
     prod_step s (s\<lparr>producer := PIdle\<rparr>)"
| p_room: "producer s = PLoaded objs behavior head \<Longrightarrow>
     free_entries = common_mask (shared s) + cons_tail (shared s) - head \<Longrightarrow>
     \<not> (of_nat (length objs) > free_entries \<and> (behavior = LLRING_QUEUE_FIXED \<or> free_entries = 0)) \<Longrightarrow>
     n = (if of_nat (length objs) > free_entries then free_entries else of_nat (length objs)) \<Longrightarrow>
     prod_step s (s\<lparr>producer := PClaim (take (unat n) objs) head\<rparr>)"
| p_claim: "producer s = PClaim objs head \<Longrightarrow>
     prod_step s (s\<lparr>shared := (shared s)\<lparr>prod_head := head + of_nat (length objs)\<rparr>,
                    producer := PCopy objs head 0\<rparr>)"
| p_copy: "producer s = PCopy objs head i \<Longrightarrow> i < length objs \<Longrightarrow>
     idx = (unat (head AND common_mask (shared s)) + i) mod unat (common_slots (shared s)) \<Longrightarrow>
     prod_step s (s\<lparr>shared := (shared s)\<lparr>ring_mem := (ring_mem (shared s))[idx := objs ! i]\<rparr>,
                    producer := PCopy objs head (Suc i)\<rparr>)"
| p_publish: "producer s = PCopy objs head i \<Longrightarrow> i = length objs \<Longrightarrow>
     prod_step s (s\<lparr>shared := (shared s)\<lparr>prod_tail := head + of_nat (length objs)\<rparr>,
                    producer := PIdle, published := published s @ objs\<rparr>)"

inductive cons_step :: "'a spsc \<Rightarrow> 'a spsc \<Rightarrow> bool" where
  c_load: "consumer s = CIdle \<Longrightarrow>
     cons_step s (s\<lparr>consumer := CLoaded n behavior (cons_head (shared s))\<rparr>)"
| c_none: "consumer s = CLoaded n behavior head \<Longrightarrow> entries = prod_tail (shared s) - head \<Longrightarrow>
     n > entries \<Longrightarrow> behavior = LLRING_QUEUE_FIXED \<or> entries = 0 \<Longrightarrow>
     cons_step s (s\<lparr>consumer := CIdle\<rparr>)"
| c_some: "consumer s = CLoaded n behavior head \<Longrightarrow> entries = prod_tail (shared s) - head \<Longrightarrow>
     \<not> (n > entries \<and> (behavior = LLRING_QUEUE_FIXED \<or> entries = 0)) \<Longrightarrow>
     cons_step s (s\<lparr>consumer := CClaim (if n > entries then entries else n) head\<rparr>)"
| c_claim: "consumer s = CClaim n head \<Longrightarrow>
     cons_step s (s\<lparr>shared := (shared s)\<lparr>cons_head := head + n\<rparr>, consumer := CCopy n head []\<rparr>)"
| c_copy: "consumer s = CCopy n head table \<Longrightarrow> length table < unat n \<Longrightarrow>
     idx = (unat (head AND common_mask (shared s)) + length table) mod unat (common_slots (shared s)) \<Longrightarrow>
     cons_step s (s\<lparr>consumer := CCopy n head (table @ [ring_mem (shared s) ! idx])\<rparr>)"
| c_publish: "consumer s = CCopy n head table \<Longrightarrow> length table = unat n \<Longrightarrow>
     cons_step s (s\<lparr>shared := (shared s)\<lparr>cons_tail := head + n\<rparr>,
                    consumer := CIdle, consumed := consumed s @ table\<rparr>)"

definition spsc_step :: "'a spsc \<Rightarrow> 'a spsc \<Rightarrow> bool" where
  "spsc_step s s' \<longleftrightarrow> prod_step s s' \<or> cons_step s s'"

text \<open>Both threads idle on a ring that \<open>llring_init\<close> made.\<close>

definition spsc_start :: "'a llring \<Rightarrow> 'a spsc" where
  "spsc_start r = \<lparr>shared = r, producer = PIdle, consumer = CIdle, published = [], consumed = []\<rparr>"

inductive_cases prod_stepE: "prod_step s s'"
inductive_cases cons_stepE: "cons_step s s'"

section \<open>The invariant of the two threads\<close>

text \<open>
  With \<open>P\<close> objects published and \<open>C\<close> consumed, the tails are \<open>P\<close> and \<open>C\<close> modulo \<open>2 ^ 32\<close>, the ring
  holds object \<open>j\<close> at \<open>j mod slots\<close> for \<open>C \<le> j < P\<close>, and a thread in the middle of an operation
  owns a run of entries that the other one does not touch.
\<close>

definition ring_holds :: "'a llring \<Rightarrow> nat \<Rightarrow> 'a list \<Rightarrow> bool" where
  "ring_holds r p xs \<longleftrightarrow> (\<forall>j < length xs. ring_mem r ! ((p + j) mod unat (common_slots r)) = xs ! j)"

definition tails_ok :: "'a llring \<Rightarrow> nat \<Rightarrow> nat \<Rightarrow> bool" where
  "tails_ok r p c \<longleftrightarrow> llring_geometry r \<and> prod_tail r = of_nat p \<and> cons_tail r = of_nat c \<and>
     c \<le> p \<and> p \<le> c + unat (common_mask r)"

fun producer_ok :: "'a producer_pc \<Rightarrow> 'a llring \<Rightarrow> nat \<Rightarrow> nat \<Rightarrow> bool" where
  "producer_ok PIdle r p c \<longleftrightarrow> prod_head r = prod_tail r"
| "producer_ok (PLoaded objs b head) r p c \<longleftrightarrow>
     prod_head r = prod_tail r \<and> head = prod_tail r \<and> length objs < 2 ^ 32"
| "producer_ok (PClaim objs head) r p c \<longleftrightarrow> prod_head r = prod_tail r \<and> head = prod_tail r \<and>
     p + length objs \<le> c + unat (common_mask r)"
| "producer_ok (PCopy objs head i) r p c \<longleftrightarrow>
     prod_head r = prod_tail r + of_nat (length objs) \<and> head = prod_tail r \<and>
     p + length objs \<le> c + unat (common_mask r) \<and> i \<le> length objs \<and> ring_holds r p (take i objs)"

fun consumer_ok :: "'a consumer_pc \<Rightarrow> 'a llring \<Rightarrow> 'a list \<Rightarrow> nat \<Rightarrow> bool" where
  "consumer_ok CIdle r pub c \<longleftrightarrow> cons_head r = cons_tail r"
| "consumer_ok (CLoaded n b head) r pub c \<longleftrightarrow> cons_head r = cons_tail r \<and> head = cons_tail r"
| "consumer_ok (CClaim n head) r pub c \<longleftrightarrow> cons_head r = cons_tail r \<and> head = cons_tail r \<and>
     c + unat n \<le> length pub"
| "consumer_ok (CCopy n head table) r pub c \<longleftrightarrow> cons_head r = cons_tail r + n \<and> head = cons_tail r \<and>
     c + unat n \<le> length pub \<and> length table \<le> unat n \<and> table = take (length table) (drop c pub)"

definition spsc_inv :: "'a spsc \<Rightarrow> bool" where
  "spsc_inv s \<longleftrightarrow>
     tails_ok (shared s) (length (published s)) (length (consumed s)) \<and>
     consumed s = take (length (consumed s)) (published s) \<and>
     ring_holds (shared s) (length (consumed s)) (drop (length (consumed s)) (published s)) \<and>
     producer_ok (producer s) (shared s) (length (published s)) (length (consumed s)) \<and>
     consumer_ok (consumer s) (shared s) (published s) (length (consumed s))"

lemma tails_okD:
  assumes "tails_ok r p c"
  obtains k where "k < 32" and "unat (common_slots r) = 2 ^ k" and "unat (common_mask r) = 2 ^ k - 1"
    and "length (ring_mem r) = 2 ^ k" and "common_mask r = common_slots r - 1"
    and "unat (prod_tail r - cons_tail r) = p - c"
    and "unat (common_mask r + cons_tail r - prod_tail r) = unat (common_mask r) - (p - c)"
proof -
  from assms have geo: "llring_geometry r" and t: "prod_tail r = of_nat p" "cons_tail r = of_nat c"
    and le: "c \<le> p" "p \<le> c + unat (common_mask r)" by (auto simp: tails_ok_def)
  from geo obtain k where k: "k < 32" "unat (common_slots r) = 2 ^ k" "length (ring_mem r) = 2 ^ k"
      "common_mask r = common_slots r - 1" "unat (common_mask r) = 2 ^ k - 1" by (rule llring_geometry_pow2)
  have "p - c < 2 ^ 32" using le unat_u32_bound [of "common_mask r"] by linarith
  then have used: "unat (of_nat (p - c) :: u32) = p - c" by (rule unat_of_nat_u32)
  have d: "prod_tail r - cons_tail r = of_nat (p - c)" using le by (simp add: t)
  have e: "common_mask r + cons_tail r - prod_tail r = common_mask r - of_nat (p - c)"
    using le by (simp add: t)
  have "of_nat (p - c) \<le> common_mask r" using le used by (simp add: word_le_nat_alt)
  from unat_sub [OF this] have "unat (common_mask r + cons_tail r - prod_tail r) = unat (common_mask r) - (p - c)"
    unfolding e used .
  moreover have "unat (prod_tail r - cons_tail r) = p - c" unfolding d by (rule used)
  ultimately show thesis using k by (intro that [of k])
qed

text \<open>The masked index of the copies.\<close>

lemma tails_ok_index:
  assumes "tails_ok r p c"
  shows "(unat (prod_tail r AND common_mask r) + i) mod unat (common_slots r) = (p + i) mod unat (common_slots r)"
    and "(unat (cons_tail r AND common_mask r) + i) mod unat (common_slots r) = (c + i) mod unat (common_slots r)"
    and "0 < unat (common_slots r)" and "length (ring_mem r) = unat (common_slots r)"
    and "unat (common_slots r) = Suc (unat (common_mask r))"
proof -
  from assms obtain k where k: "k < 32" "unat (common_slots r) = 2 ^ k" "unat (common_mask r) = 2 ^ k - 1"
      "length (ring_mem r) = 2 ^ k" "common_mask r = common_slots r - 1" by (rule tails_okD)
  have t: "prod_tail r = of_nat p" "cons_tail r = of_nat c" using assms by (auto simp: tails_ok_def)
  have "(unat (of_nat q AND common_mask r) + i) mod unat (common_slots r) = (q + i) mod unat (common_slots r)" for q
  proof -
    have "unat (of_nat q AND common_mask r) = unat (of_nat q :: u32) mod 2 ^ k"
      unfolding k(5) using unat_and_ring_mask [OF k(2)] by (simp add: k(2))
    also have "\<dots> = q mod 2 ^ k" using unat_add_of_nat_mod [OF k(1), of 0 q] by simp
    finally show ?thesis by (simp add: k(2) mod_simps)
  qed
  then show "(unat (prod_tail r AND common_mask r) + i) mod unat (common_slots r) = (p + i) mod unat (common_slots r)"
    "(unat (cons_tail r AND common_mask r) + i) mod unat (common_slots r) = (c + i) mod unat (common_slots r)"
    by (simp_all only: t)
  show "0 < unat (common_slots r)" "length (ring_mem r) = unat (common_slots r)"
    "unat (common_slots r) = Suc (unat (common_mask r))" using k by simp_all
qed

lemma ring_holds_write_other:
  assumes "ring_holds r c xs" and "c + length xs \<le> q" and "q < c + unat (common_slots r)"
  shows "ring_holds (r\<lparr>ring_mem := (ring_mem r)[q mod unat (common_slots r) := x]\<rparr>) c xs"
proof -
  have "q mod unat (common_slots r) \<noteq> (c + j) mod unat (common_slots r)" if "j < length xs" for j
    using mod_add_right_inj [of j "unat (common_slots r)" "q - c" c] that assms(2,3) by auto
  then show ?thesis using assms(1) by (simp add: ring_holds_def)
qed

lemma ring_holds_write_next:
  assumes holds: "ring_holds r p (take i objs)" and i: "i < length objs"
    and len: "length objs \<le> unat (common_mask r)" and t: "tails_ok r q c"
  shows "ring_holds (r\<lparr>ring_mem := (ring_mem r)[(p + i) mod unat (common_slots r) := objs ! i]\<rparr>) p
    (take (Suc i) objs)"
proof -
  note ix = tails_ok_index(3-5) [OF t]
  let ?r = "r\<lparr>ring_mem := (ring_mem r)[(p + i) mod unat (common_slots r) := objs ! i]\<rparr>"
  have "ring_holds ?r p (take i objs)"
    using i len ix(3) by (intro ring_holds_write_other [OF holds]) simp_all
  moreover have "ring_mem ?r ! ((p + i) mod unat (common_slots r)) = objs ! i" using ix by simp
  ultimately show ?thesis using i by (auto simp: ring_holds_def less_Suc_eq)
qed

lemma ring_holds_frame [simp]:
  "ring_holds (r\<lparr>prod_head := h\<rparr>) p xs = ring_holds r p xs"
  "ring_holds (r\<lparr>prod_tail := h\<rparr>) p xs = ring_holds r p xs"
  "ring_holds (r\<lparr>cons_head := h\<rparr>) p xs = ring_holds r p xs"
  "ring_holds (r\<lparr>cons_tail := h\<rparr>) p xs = ring_holds r p xs"
  by (simp_all add: ring_holds_def)

lemma llring_geometry_frame [simp]:
  "llring_geometry (r\<lparr>prod_head := h\<rparr>) = llring_geometry r"
  "llring_geometry (r\<lparr>prod_tail := h\<rparr>) = llring_geometry r"
  "llring_geometry (r\<lparr>cons_head := h\<rparr>) = llring_geometry r"
  "llring_geometry (r\<lparr>cons_tail := h\<rparr>) = llring_geometry r"
  "llring_geometry (r\<lparr>ring_mem := (ring_mem r)[i := x]\<rparr>) = llring_geometry r"
  by (simp_all add: llring_geometry_def)

lemma ring_holds_append:
  "ring_holds r p (xs @ ys) \<longleftrightarrow> ring_holds r p xs \<and> ring_holds r (p + length xs) ys"
proof
  assume L: "ring_holds r p (xs @ ys)"
  have "ring_mem r ! ((p + j) mod unat (common_slots r)) = xs ! j" if "j < length xs" for j
    using L [unfolded ring_holds_def, rule_format, of j] that by (simp add: nth_append)
  moreover have "ring_mem r ! ((p + length xs + j) mod unat (common_slots r)) = ys ! j" if "j < length ys" for j
    using L [unfolded ring_holds_def, rule_format, of "length xs + j"] that by (simp add: nth_append add.assoc)
  ultimately show "ring_holds r p xs \<and> ring_holds r (p + length xs) ys" by (simp add: ring_holds_def)
next
  assume R: "ring_holds r p xs \<and> ring_holds r (p + length xs) ys"
  have "ring_mem r ! ((p + j) mod unat (common_slots r)) = ys ! (j - length xs)"
    if "length xs \<le> j" "j < length xs + length ys" for j
    using R [unfolded ring_holds_def, THEN conjunct2, rule_format, of "j - length xs"] that by simp
  with R show "ring_holds r p (xs @ ys)" by (auto simp: ring_holds_def nth_append)
qed

section \<open>Every step keeps the invariant\<close>

text \<open>The producer's own fields are written by the producer only, and likewise for the consumer.\<close>

lemma producer_ok_frame:
  assumes "producer_ok pc r p c" and "c \<le> c'"
    and "prod_head r' = prod_head r" and "prod_tail r' = prod_tail r" and "common_mask r' = common_mask r"
    and "common_slots r' = common_slots r" and "ring_mem r' = ring_mem r"
  shows "producer_ok pc r' p c'"
  using assms by (cases pc) (auto simp: ring_holds_def)

lemma consumer_ok_frame:
  assumes "consumer_ok pc r pub c" and "pub' = pub @ ys" and "c \<le> length pub"
    and "cons_head r' = cons_head r" and "cons_tail r' = cons_tail r"
  shows "consumer_ok pc r' pub' c"
  using assms by (cases pc) auto

lemma spsc_invD:
  assumes "spsc_inv s"
  shows "tails_ok (shared s) (length (published s)) (length (consumed s))"
    and "consumed s = take (length (consumed s)) (published s)"
    and "ring_holds (shared s) (length (consumed s)) (drop (length (consumed s)) (published s))"
    and "producer_ok (producer s) (shared s) (length (published s)) (length (consumed s))"
    and "consumer_ok (consumer s) (shared s) (published s) (length (consumed s))"
    and "length (consumed s) \<le> length (published s)"
    and "length (published s) \<le> length (consumed s) + unat (common_mask (shared s))"
  using assms by (auto simp: spsc_inv_def tails_ok_def)

lemma producer_room:
  assumes inv: "spsc_inv s" and pc: "producer s = PLoaded objs behavior head"
    and free: "free_entries = common_mask (shared s) + cons_tail (shared s) - head"
    and n: "n = (if of_nat (length objs) > free_entries then free_entries else of_nat (length objs))"
  shows "length (published s) + length (take (unat n) objs) \<le>
    length (consumed s) + unat (common_mask (shared s))"
proof -
  note i = spsc_invD [OF inv]
  from i(4) pc have h: "head = prod_tail (shared s)" and l: "length objs < 2 ^ 32" by simp_all
  obtain k where "unat (common_mask (shared s) + cons_tail (shared s) - prod_tail (shared s)) =
      unat (common_mask (shared s)) - (length (published s) - length (consumed s))"
    using i(1) by (rule tails_okD)
  then have f: "unat free_entries = unat (common_mask (shared s)) - (length (published s) - length (consumed s))"
    unfolding free h .
  have "n \<le> free_entries" unfolding n by (simp add: not_less)
  then have "unat n \<le> unat free_entries" by (simp add: word_le_nat_alt)
  then show ?thesis using f i(6,7) by simp
qed

lemma producer_copy_inv:
  assumes inv: "spsc_inv s" and pc: "producer s = PCopy objs head i" and i: "i < length objs"
    and idx: "idx = (unat (head AND common_mask (shared s)) + i) mod unat (common_slots (shared s))"
  shows "spsc_inv (s\<lparr>shared := (shared s)\<lparr>ring_mem := (ring_mem (shared s))[idx := objs ! i]\<rparr>,
    producer := PCopy objs head (Suc i)\<rparr>)"
proof -
  note v = spsc_invD [OF inv]
  let ?p = "length (published s)" and ?c = "length (consumed s)" and ?r = "shared s"
  from v(4) pc have pok: "head = prod_tail ?r" "prod_head ?r = prod_tail ?r + of_nat (length objs)"
      "?p + length objs \<le> ?c + unat (common_mask ?r)" "ring_holds ?r ?p (take i objs)" by simp_all
  note ix = tails_ok_index [OF v(1)]
  have idx': "idx = (?p + i) mod unat (common_slots ?r)" unfolding idx pok(1) by (rule ix(1))
  have ol: "length objs \<le> unat (common_mask ?r)" using pok(3) v(6) by linarith
  have "ring_holds (?r\<lparr>ring_mem := (ring_mem ?r)[idx := objs ! i]\<rparr>) ?p (take (Suc i) objs)"
    unfolding idx' by (rule ring_holds_write_next [OF pok(4) i ol v(1)])
  moreover have "ring_holds (?r\<lparr>ring_mem := (ring_mem ?r)[idx := objs ! i]\<rparr>) ?c (drop ?c (published s))"
    unfolding idx' using i pok(3) v(6) ix(5) by (intro ring_holds_write_other [OF v(3)]) simp_all
  moreover have "tails_ok (?r\<lparr>ring_mem := (ring_mem ?r)[idx := objs ! i]\<rparr>) ?p ?c"
    using v(1) by (simp add: tails_ok_def)
  moreover have "consumer_ok (consumer s) (?r\<lparr>ring_mem := (ring_mem ?r)[idx := objs ! i]\<rparr>) (published s) ?c"
    using v(5,6) by (intro consumer_ok_frame [OF v(5), where ys = "[]"]) simp_all
  ultimately show ?thesis using v(2) pok i by (simp add: spsc_inv_def)
qed

lemma producer_publish_inv:
  assumes inv: "spsc_inv s" and pc: "producer s = PCopy objs head (length objs)"
  shows "spsc_inv (s\<lparr>shared := (shared s)\<lparr>prod_tail := head + of_nat (length objs)\<rparr>,
    producer := PIdle, published := published s @ objs\<rparr>)"
proof -
  note v = spsc_invD [OF inv]
  let ?p = "length (published s)" and ?c = "length (consumed s)" and ?r = "shared s"
  from v(4) pc have pok: "head = prod_tail ?r" "prod_head ?r = prod_tail ?r + of_nat (length objs)"
      "?p + length objs \<le> ?c + unat (common_mask ?r)" "ring_holds ?r ?p objs" by simp_all
  have t: "prod_tail ?r = of_nat ?p" using v(1) by (simp add: tails_ok_def)
  have "tails_ok (?r\<lparr>prod_tail := head + of_nat (length objs)\<rparr>) (?p + length objs) ?c"
    using v(1,6) pok(3) by (simp add: tails_ok_def pok(1))
  moreover have "ring_holds ?r ?c (drop ?c (published s @ objs))"
    using v(3,6) pok(4) by (simp add: ring_holds_append)
  moreover have "consumer_ok (consumer s) (?r\<lparr>prod_tail := head + of_nat (length objs)\<rparr>) (published s @ objs) ?c"
    using v(6) by (intro consumer_ok_frame [OF v(5)]) simp_all
  ultimately show ?thesis using v(2,6) pok by (simp add: spsc_inv_def)
qed

lemma prod_step_inv: "prod_step s s' \<Longrightarrow> spsc_inv s \<Longrightarrow> spsc_inv s'"
proof (induction rule: prod_step.induct)
  case (p_room s objs behavior head free_entries n)
  note v = spsc_invD [OF p_room.prems]
  show ?case using producer_room [OF p_room.prems p_room.hyps(1,2,4)] v(4) p_room.hyps(1) p_room.prems
    by (simp add: spsc_inv_def)
next
  case (p_claim s objs head)
  note v = spsc_invD [OF p_claim.prems]
  have "consumer_ok (consumer s) ((shared s)\<lparr>prod_head := head + of_nat (length objs)\<rparr>) (published s)
      (length (consumed s))"
    using v(6) by (intro consumer_ok_frame [OF v(5), where ys = "[]"]) simp_all
  moreover have "ring_holds r p []" for r :: "'a llring" and p by (simp add: ring_holds_def)
  ultimately show ?case using p_claim by (simp add: spsc_inv_def tails_ok_def)
next
  case (p_copy s objs head i idx)
  then show ?case by (intro producer_copy_inv)
next
  case (p_publish s objs head i)
  then show ?case using producer_publish_inv [of s objs head] by simp
qed (simp_all add: spsc_inv_def)

lemma consumer_room:
  assumes inv: "spsc_inv s" and pc: "consumer s = CLoaded n behavior head"
    and e: "entries = prod_tail (shared s) - head"
  shows "length (consumed s) + unat (if n > entries then entries else n) \<le> length (published s)"
proof -
  note v = spsc_invD [OF inv]
  from v(5) pc have h: "head = cons_tail (shared s)" by simp
  have "unat entries = length (published s) - length (consumed s)"
    unfolding e h using v(1) by (rule tails_okD)
  moreover have "unat (if n > entries then entries else n) \<le> unat entries"
    by (auto simp: word_less_nat_alt)
  ultimately show ?thesis using v(6) by linarith
qed

lemma consumer_copy_inv:
  assumes inv: "spsc_inv s" and pc: "consumer s = CCopy n head table" and l: "length table < unat n"
    and idx: "idx = (unat (head AND common_mask (shared s)) + length table) mod unat (common_slots (shared s))"
  shows "spsc_inv (s\<lparr>consumer := CCopy n head (table @ [ring_mem (shared s) ! idx])\<rparr>)"
proof -
  note v = spsc_invD [OF inv]
  let ?c = "length (consumed s)" and ?j = "length table"
  from v(5) pc have cok: "head = cons_tail (shared s)" "?c + unat n \<le> length (published s)"
      "table = take ?j (drop ?c (published s))" by simp_all
  have j: "?j < length (drop ?c (published s))" using l cok(2) by simp
  have "idx = (?c + ?j) mod unat (common_slots (shared s))"
    unfolding idx cok(1) by (rule tails_ok_index(2) [OF v(1)])
  then have "ring_mem (shared s) ! idx = drop ?c (published s) ! ?j"
    using v(3) [unfolded ring_holds_def, rule_format, OF j] by simp
  then have "table @ [ring_mem (shared s) ! idx] = take (Suc ?j) (drop ?c (published s))"
    using cok(3) j by (simp add: take_Suc_conv_app_nth)
  moreover have "min (length (published s) - ?c) (Suc ?j) = Suc ?j" using j by simp
  ultimately show ?thesis using v pc l by (simp add: spsc_inv_def)
qed

lemma consumer_publish_inv:
  assumes inv: "spsc_inv s" and pc: "consumer s = CCopy n head table" and l: "length table = unat n"
  shows "spsc_inv (s\<lparr>shared := (shared s)\<lparr>cons_tail := head + n\<rparr>, consumer := CIdle,
    consumed := consumed s @ table\<rparr>)"
proof -
  note v = spsc_invD [OF inv]
  let ?c = "length (consumed s)" and ?j = "length table"
  from v(5) pc have cok: "head = cons_tail (shared s)" "cons_head (shared s) = cons_tail (shared s) + n"
      "?c + ?j \<le> length (published s)" "table = take ?j (drop ?c (published s))" using l by simp_all
  have n: "n = of_nat ?j" by (simp add: l)
  have "tails_ok ((shared s)\<lparr>cons_tail := head + n\<rparr>) (length (published s)) (?c + ?j)"
    using v(1,7) cok(3) by (simp add: tails_ok_def cok(1) n)
  moreover have "consumed s @ table = take (?c + ?j) (published s)"
    using v(2) cok(4) by (metis take_add)
  moreover have "ring_holds (shared s) (?c + ?j) (drop (?c + ?j) (published s))"
  proof -
    have "drop ?c (published s) = table @ drop ?j (drop ?c (published s))"
      using cok(4) by (metis append_take_drop_id)
    then have "ring_holds (shared s) ?c (table @ drop ?j (drop ?c (published s)))" using v(3) by simp
    then show ?thesis by (simp add: ring_holds_append add.commute)
  qed
  moreover have "producer_ok (producer s) ((shared s)\<lparr>cons_tail := head + n\<rparr>) (length (published s)) (?c + ?j)"
    by (rule producer_ok_frame [OF v(4)]) simp_all
  moreover have "min (length (published s)) (?c + ?j) = ?c + ?j" using cok(3) by simp
  ultimately show ?thesis using cok(1,2) by (simp add: spsc_inv_def)
qed

lemma cons_step_inv: "cons_step s s' \<Longrightarrow> spsc_inv s \<Longrightarrow> spsc_inv s'"
proof (induction rule: cons_step.induct)
  case (c_some s n behavior head entries)
  then show ?case using consumer_room [OF c_some.prems c_some.hyps(1,2)]
    by (simp add: spsc_inv_def)
next
  case (c_claim s n head)
  note v = spsc_invD [OF c_claim.prems]
  have "producer_ok (producer s) ((shared s)\<lparr>cons_head := head + n\<rparr>) (length (published s)) (length (consumed s))"
    by (rule producer_ok_frame [OF v(4)]) simp_all
  then show ?case using c_claim by (simp add: spsc_inv_def tails_ok_def)
next
  case (c_copy s n head table idx)
  then show ?case by (intro consumer_copy_inv)
next
  case (c_publish s n head table)
  then show ?case by (intro consumer_publish_inv)
qed (simp_all add: spsc_inv_def)

interpretation spsc_run: step_invariant spsc_step spsc_inv
  by unfold_locales (auto simp: spsc_step_def intro: prod_step_inv cons_step_inv)

lemma spsc_start_inv:
  "llring_inv r \<Longrightarrow> prod_tail r = 0 \<Longrightarrow> cons_tail r = 0 \<Longrightarrow> spsc_inv (spsc_start r)"
  by (simp add: spsc_inv_def spsc_start_def tails_ok_def llring_inv_def ring_holds_def)

section \<open>An operation finishes within its own steps\<close>

fun producer_work :: "'a producer_pc \<Rightarrow> nat" where
  "producer_work PIdle = 0"
| "producer_work (PLoaded objs b head) = length objs + 3"
| "producer_work (PClaim objs head) = length objs + 2"
| "producer_work (PCopy objs head i) = length objs - i + 1"

fun consumer_work :: "u32 \<Rightarrow> 'a consumer_pc \<Rightarrow> nat" where
  "consumer_work m CIdle = 0"
| "consumer_work m (CLoaded n b head) = unat n + 3"
| "consumer_work m (CClaim n head) = unat n + 2"
| "consumer_work m (CCopy n head table) = unat n - length table + 1"

lemma prod_step_work:
  "prod_step s s' \<Longrightarrow> producer s \<noteq> PIdle \<Longrightarrow> producer_work (producer s') < producer_work (producer s)"
  by (induction rule: prod_step.induct) auto

lemma cons_step_work:
  "cons_step s s' \<Longrightarrow> consumer s \<noteq> CIdle \<Longrightarrow> consumer_work m (consumer s') < consumer_work m (consumer s)"
proof (induction rule: cons_step.induct)
  case (c_some s n behavior head entries)
  then show ?case by (auto simp: word_less_nat_alt)
qed auto

lemma prod_step_enabled:
  assumes "spsc_inv s"
  shows "\<exists>s'. prod_step s s'"
proof (cases "producer s")
  case PIdle
  then show ?thesis using p_load [of s "[]"] by auto
next
  case (PLoaded objs b head)
  then show ?thesis using p_full [OF PLoaded refl] p_room [OF PLoaded refl _ refl] by blast
next
  case (PClaim objs head)
  then show ?thesis using p_claim by blast
next
  case (PCopy objs head i)
  then have "i \<le> length objs" using assms by (simp add: spsc_inv_def)
  then show ?thesis using p_copy [OF PCopy _ refl] p_publish [OF PCopy] by (cases "i = length objs") auto
qed

lemma cons_step_enabled:
  assumes "spsc_inv s"
  shows "\<exists>s'. cons_step s s'"
proof (cases "consumer s")
  case CIdle
  then show ?thesis using c_load by blast
next
  case (CLoaded n b head)
  then show ?thesis using c_none [OF CLoaded refl] c_some [OF CLoaded refl] by blast
next
  case (CClaim n head)
  then show ?thesis using c_claim by blast
next
  case (CCopy n head table)
  then have "length table \<le> unat n" using assms by (simp add: spsc_inv_def)
  then show ?thesis using c_copy [OF CCopy _ refl] c_publish [OF CCopy] by (cases "length table = unat n") auto
qed

interpretation spsc_producer: step_progress prod_step spsc_inv "\<lambda>s. producer s \<noteq> PIdle" "\<lambda>s. producer_work (producer s)"
  by unfold_locales (auto intro: prod_step_inv prod_step_enabled prod_step_work)

interpretation spsc_consumer: step_progress cons_step spsc_inv "\<lambda>s. consumer s \<noteq> CIdle" "\<lambda>s. consumer_work 0 (consumer s)"
  by unfold_locales (auto intro: cons_step_inv cons_step_enabled cons_step_work)

section \<open>Several producers, several consumers: one thread in an environment\<close>

text \<open>
  The environment is a list of moves of the other threads on the ring, one before each shared
  access of a retry and one per turn of the waiting loop; the value \<open>None\<close> says that the moves
  ran out before the operation returned. The copy itself runs on entries the thread has claimed.
\<close>

definition llring_atomic32_cmpset :: "u32 \<Rightarrow> u32 \<Rightarrow> u32 \<Rightarrow> int \<times> u32" where
  "llring_atomic32_cmpset dst exp src = (if dst = exp then (1, src) else (0, dst))"

datatype claim = Return u32 | Claimed u32 u32 u32

fun mp_move_head ::
  "('a llring \<Rightarrow> 'a llring) list \<Rightarrow> 'a llring \<Rightarrow> u32 \<Rightarrow> u32 \<Rightarrow> llring_queue_behavior \<Rightarrow>
     (claim \<times> 'a llring \<times> ('a llring \<Rightarrow> 'a llring) list) option" where
  "mp_move_head (e1 # e2 # es) r mask' max' behavior =
     (let head = prod_head r; r = e1 r; free_entries = mask' + cons_tail r - head in
      if max' > free_entries \<and> behavior = LLRING_QUEUE_FIXED
      then Some (Return (- LLRING_ERR_NOBUF), r, e2 # es)
      else if max' > free_entries \<and> free_entries = 0 then Some (Return 0, r, e2 # es)
      else let n = (if max' > free_entries then free_entries else max'); r = e2 r;
               (success, h) = llring_atomic32_cmpset (prod_head r) head (head + n) in
        if success = 0 then mp_move_head es r mask' max' behavior
        else Some (Claimed head free_entries n, r\<lparr>prod_head := h\<rparr>, es))"
| "mp_move_head _ r mask' max' behavior = None"

fun mp_wait_tail ::
  "('a llring \<Rightarrow> 'a llring) list \<Rightarrow> 'a llring \<Rightarrow> u32 \<Rightarrow> 'a llring option" where
  "mp_wait_tail es r head =
     (if prod_tail r = head then Some r
      else case es of [] \<Rightarrow> None | e # es \<Rightarrow> mp_wait_tail es (e r) head)"

definition llring_mp_do_enqueue ::
  "('a llring \<Rightarrow> 'a llring) list \<Rightarrow> 'a llring \<Rightarrow> 'a list \<Rightarrow> u32 \<Rightarrow> llring_queue_behavior \<Rightarrow>
     (u32 \<times> 'a llring) c_result option" where
  "llring_mp_do_enqueue es r obj_table n behavior = do {
     (c, r, es) \<leftarrow> mp_move_head es r (common_mask r) n behavior;
     case c of Return ret \<Rightarrow> Some (Inr (ret, r))
     | Claimed head free_entries n \<Rightarrow>
         (case LLRING_ENQUEUE_PTRS r head obj_table n of None \<Rightarrow> Some (Inl OutOfBounds)
          | Some ring \<Rightarrow> do {
              let ret = enqueue_ret (common_mask r) free_entries n (common_watermark r) behavior;
              r \<leftarrow> mp_wait_tail es (r\<lparr>ring_mem := ring\<rparr>) head;
              Some (Inr (ret, r\<lparr>prod_tail := head + n\<rparr>))
            })
   }"

fun mc_move_head ::
  "('a llring \<Rightarrow> 'a llring) list \<Rightarrow> 'a llring \<Rightarrow> u32 \<Rightarrow> llring_queue_behavior \<Rightarrow>
     (claim \<times> 'a llring \<times> ('a llring \<Rightarrow> 'a llring) list) option" where
  "mc_move_head (e1 # e2 # es) r max' behavior =
     (let head = cons_head r; r = e1 r; entries = prod_tail r - head in
      if max' > entries \<and> behavior = LLRING_QUEUE_FIXED
      then Some (Return (- LLRING_ERR_NOENT), r, e2 # es)
      else if max' > entries \<and> entries = 0 then Some (Return 0, r, e2 # es)
      else let n = (if max' > entries then entries else max'); r = e2 r;
               (success, h) = llring_atomic32_cmpset (cons_head r) head (head + n) in
        if success = 0 then mc_move_head es r max' behavior
        else Some (Claimed head entries n, r\<lparr>cons_head := h\<rparr>, es))"
| "mc_move_head _ r max' behavior = None"

fun mc_wait_tail ::
  "('a llring \<Rightarrow> 'a llring) list \<Rightarrow> 'a llring \<Rightarrow> u32 \<Rightarrow> 'a llring option" where
  "mc_wait_tail es r head =
     (if cons_tail r = head then Some r
      else case es of [] \<Rightarrow> None | e # es \<Rightarrow> mc_wait_tail es (e r) head)"

definition llring_mc_do_dequeue ::
  "('a llring \<Rightarrow> 'a llring) list \<Rightarrow> 'a llring \<Rightarrow> 'a list \<Rightarrow> u32 \<Rightarrow> llring_queue_behavior \<Rightarrow>
     (u32 \<times> 'a list \<times> 'a llring) c_result option" where
  "llring_mc_do_dequeue es r obj_table n behavior = do {
     (c, r, es) \<leftarrow> mc_move_head es r n behavior;
     case c of Return ret \<Rightarrow> Some (Inr (ret, obj_table, r))
     | Claimed head entries n \<Rightarrow>
         (case LLRING_DEQUEUE_PTRS r head obj_table n of None \<Rightarrow> Some (Inl OutOfBounds)
          | Some table \<Rightarrow> do {
              r \<leftarrow> mc_wait_tail es r head;
              Some (Inr (if behavior = LLRING_QUEUE_FIXED then 0 else n, table, r\<lparr>cons_tail := head + n\<rparr>))
            })
   }"

declare mp_wait_tail.simps [simp del] mc_wait_tail.simps [simp del]

text \<open>The wrappers, and the entry points that choose by the flags of \<open>llring_init\<close>.\<close>

definition llring_mp_enqueue_bulk where
  "llring_mp_enqueue_bulk es r obj_table n = llring_mp_do_enqueue es r obj_table n LLRING_QUEUE_FIXED"

definition llring_mp_enqueue_burst where
  "llring_mp_enqueue_burst es r obj_table n = llring_mp_do_enqueue es r obj_table n LLRING_QUEUE_VARIABLE"

definition llring_mp_enqueue where
  "llring_mp_enqueue es r obj = llring_mp_enqueue_bulk es r [obj] 1"

definition llring_mc_dequeue_bulk where
  "llring_mc_dequeue_bulk es r obj_table n = llring_mc_do_dequeue es r obj_table n LLRING_QUEUE_FIXED"

definition llring_mc_dequeue_burst where
  "llring_mc_dequeue_burst es r obj_table n = llring_mc_do_dequeue es r obj_table n LLRING_QUEUE_VARIABLE"

definition llring_mc_dequeue where
  "llring_mc_dequeue es r obj_p = llring_mc_dequeue_bulk es r [obj_p] 1"

definition llring_enqueue_bulk where
  "llring_enqueue_bulk es r obj_table n =
     (if common_sp_enqueue r \<noteq> 0 then Some (c_opt OutOfBounds (llring_sp_enqueue_bulk r obj_table n))
      else llring_mp_enqueue_bulk es r obj_table n)"

definition llring_enqueue_burst where
  "llring_enqueue_burst es r obj_table n =
     (if common_sp_enqueue r \<noteq> 0 then Some (c_opt OutOfBounds (llring_sp_enqueue_burst r obj_table n))
      else llring_mp_enqueue_burst es r obj_table n)"

definition llring_enqueue where
  "llring_enqueue es r obj =
     (if common_sp_enqueue r \<noteq> 0 then Some (c_opt OutOfBounds (llring_sp_enqueue r obj))
      else llring_mp_enqueue es r obj)"

definition llring_dequeue_bulk where
  "llring_dequeue_bulk es r obj_table n =
     (if common_sc_dequeue r \<noteq> 0 then Some (c_opt OutOfBounds (llring_sc_dequeue_bulk r obj_table n))
      else llring_mc_dequeue_bulk es r obj_table n)"

definition llring_dequeue_burst where
  "llring_dequeue_burst es r obj_table n =
     (if common_sc_dequeue r \<noteq> 0 then Some (c_opt OutOfBounds (llring_sc_dequeue_burst r obj_table n))
      else llring_mc_dequeue_burst es r obj_table n)"

definition llring_dequeue where
  "llring_dequeue es r obj_p =
     (if common_sc_dequeue r \<noteq> 0 then Some (c_opt OutOfBounds (llring_sc_dequeue r obj_p))
      else llring_mc_dequeue es r obj_p)"

lemma cmpset_simps [simp]:
  "llring_atomic32_cmpset d d s = (1, s)" "d \<noteq> e \<Longrightarrow> llring_atomic32_cmpset d e s = (0, d)"
  by (simp_all add: llring_atomic32_cmpset_def)

lemma mp_uncontended:
  assumes "prod_head r = prod_tail r"
  shows "llring_mp_do_enqueue [id, id] r objs n behavior =
    Some (c_opt OutOfBounds (llring_sp_do_enqueue r objs n behavior))"
proof -
  have e: "LLRING_ENQUEUE_PTRS (r\<lparr>prod_head := h\<rparr>) k objs m = LLRING_ENQUEUE_PTRS r k objs m" for h k m
    by (simp add: LLRING_ENQUEUE_PTRS_def)
  show ?thesis
    using assms by (auto simp: llring_mp_do_enqueue_def llring_sp_do_enqueue_def Let_def e
        mp_wait_tail.simps split: option.splits)
qed

lemma mc_uncontended:
  assumes "cons_head r = cons_tail r"
  shows "llring_mc_do_dequeue [id, id] r table n behavior =
    Some (c_opt OutOfBounds (llring_sc_do_dequeue r table n behavior))"
proof -
  have e: "LLRING_DEQUEUE_PTRS (r\<lparr>cons_head := h\<rparr>) k table m = LLRING_DEQUEUE_PTRS r k table m" for h k m
    by (simp add: LLRING_DEQUEUE_PTRS_def)
  show ?thesis
    using assms by (auto simp: llring_mc_do_dequeue_def llring_sc_do_dequeue_def Let_def e
        mc_wait_tail.simps split: option.splits)
qed

lemmas llring_dispatch_defs = llring_enqueue_bulk_def llring_enqueue_burst_def llring_enqueue_def
  llring_dequeue_bulk_def llring_dequeue_burst_def llring_dequeue_def
  llring_mp_enqueue_bulk_def llring_mp_enqueue_burst_def llring_mp_enqueue_def
  llring_mc_dequeue_bulk_def llring_mc_dequeue_burst_def llring_mc_dequeue_def
  llring_sp_enqueue_bulk_def llring_sp_enqueue_burst_def llring_sp_enqueue_def
  llring_sc_dequeue_bulk_def llring_sc_dequeue_burst_def llring_sc_dequeue_def

lemma mp_move_head_claim:
  "mp_move_head es r mask' max' behavior = Some (Claimed head free_entries n, r', es') \<Longrightarrow>
     (\<exists>r0. prod_head r0 = head \<and> r' = r0\<lparr>prod_head := head + n\<rparr>) \<and> n \<le> free_entries \<and> n \<le> max' \<and>
     (behavior = LLRING_QUEUE_FIXED \<longrightarrow> n = max')"
proof (induction es r mask' max' behavior rule: mp_move_head.induct)
  case (1 e1 e2 es r mask' max' behavior)
  show ?case
  proof (cases "prod_head (e2 (e1 r)) = prod_head r")
    case True
    with "1.prems" show ?thesis by (auto simp: Let_def not_less split: if_splits)
  next
    case False
    with "1.prems" "1.IH" [OF refl refl refl] show ?thesis
      by (auto simp: Let_def not_less split: if_splits)
  qed
qed simp_all

lemma mp_move_head_returns:
  assumes "even (length pre)" and "\<And>r. prod_head (e1 r) = prod_head r" and "\<And>r. prod_head (e2 r) = prod_head r"
  shows "\<exists>res. mp_move_head (pre @ e1 # e2 # es) r mask' max' behavior = Some res"
  using assms(1)
proof (induction pre arbitrary: r rule: induct_list012)
  case (3 d1 d2 pre)
  then show ?case by (auto simp: Let_def llring_atomic32_cmpset_def split: prod.splits)
qed (auto simp: Let_def assms(2,3))

lemma mp_wait_tail_blocked:
  "prod_tail r \<noteq> head \<Longrightarrow> (\<And>e r. e \<in> set es \<Longrightarrow> prod_tail (e r) = prod_tail r) \<Longrightarrow>
     mp_wait_tail es r head = None"
proof (induction es arbitrary: r)
  case (Cons e es)
  then show ?case by (subst mp_wait_tail.simps) simp
qed (simp add: mp_wait_tail.simps)

section \<open>Properties\<close>

lemma wrap_ring_start:
  "llring_inv (wrap_ring\<lparr>prod_head := 0, prod_tail := 0, cons_head := 0, cons_tail := 0\<rparr>)"
  by (simp add: wrap_ring_def llring_inv_def llring_geometry_def)

text \<open>C5: however the accesses of one producer and one consumer interleave, for any sequence of
  operations of both behaviours and any burst sizes: what was consumed is a prefix of what was
  published, at most \<open>slots - 1\<close> published objects are outstanding, and these are exactly the
  ring entries from the consumer's tail on. This covers counters that have wrapped.\<close>

theorem spsc_fifo:
  assumes "llring_inv r" and "prod_tail r = 0" and "cons_tail r = 0"
    and "spsc_step\<^sup>*\<^sup>* (spsc_start r) s"
  shows "consumed s = take (length (consumed s)) (published s) \<and>
    length (published s) - length (consumed s) \<le> unat (common_mask (shared s)) \<and>
    llring_contents (shared s) = drop (length (consumed s)) (published s)"
proof -
  have inv: "spsc_inv s" using assms spsc_run.reached spsc_start_inv by blast
  note v = spsc_invD [OF inv]
  let ?r = "shared s" and ?c = "length (consumed s)"
  have u: "unat (prod_tail ?r - cons_tail ?r) = length (published s) - ?c" using v(1) by (rule tails_okD)
  have "ring_mem ?r ! ((unat (cons_tail ?r) + j) mod length (ring_mem ?r)) = drop ?c (published s) ! j"
    if "j < length (published s) - ?c" for j
  proof -
    have "(unat (cons_tail ?r) + j) mod length (ring_mem ?r) =
        (unat (cons_tail ?r AND common_mask ?r) + j) mod unat (common_slots ?r)"
    proof -
      obtain k where k: "unat (common_slots ?r) = 2 ^ k" "length (ring_mem ?r) = 2 ^ k"
          "common_mask ?r = common_slots ?r - 1" using v(1) by (rule tails_okD)
      show ?thesis unfolding k(3) unat_and_ring_mask [OF k(1)] by (simp add: k(1,2) mod_simps)
    qed
    also have "\<dots> = (?c + j) mod unat (common_slots ?r)" by (rule tails_ok_index(2) [OF v(1)])
    finally show ?thesis using v(3) that by (simp add: ring_holds_def)
  qed
  then have "llring_contents ?r = drop ?c (published s)"
    by (intro nth_equalityI) (simp_all add: llring_contents_def circ_read_def u)
  then show ?thesis using v(2,7) by simp
qed

text \<open>The witness: one object is enqueued and dequeued, step by step.\<close>

definition spsc_ring :: "int llring" where
  "spsc_ring = wrap_ring\<lparr>prod_head := 0, prod_tail := 0, cons_head := 0, cons_tail := 0\<rparr>"

definition spsc_at ::
  "u32 \<Rightarrow> u32 \<Rightarrow> u32 \<Rightarrow> u32 \<Rightarrow> int \<Rightarrow> int producer_pc \<Rightarrow> int consumer_pc \<Rightarrow> int list \<Rightarrow> int list \<Rightarrow> int spsc" where
  "spsc_at ph pt ch ct x p c pub con =
     \<lparr>shared = spsc_ring\<lparr>prod_head := ph, prod_tail := pt, cons_head := ch, cons_tail := ct,
        ring_mem := [x, 0, 7, 0]\<rparr>, producer = p, consumer = c, published = pub, consumed = con\<rparr>"

lemma spsc_demo_run: "spsc_step\<^sup>*\<^sup>* (spsc_start spsc_ring) (spsc_at 1 1 1 1 5 PIdle CIdle [5] [5])"
proof -
  let ?V = LLRING_QUEUE_VARIABLE
  have s: "spsc_start spsc_ring = spsc_at 0 0 0 0 0 PIdle CIdle [] []"
    by (simp add: spsc_start_def spsc_at_def spsc_ring_def wrap_ring_def)
  have "prod_step (spsc_at 0 0 0 0 0 PIdle CIdle [] []) (spsc_at 0 0 0 0 0 (PLoaded [5] ?V 0) CIdle [] [])"
    using p_load [of "spsc_at 0 0 0 0 0 PIdle CIdle [] []" "[5]" ?V] by (simp add: spsc_at_def)
  moreover have "prod_step (spsc_at 0 0 0 0 0 (PLoaded [5] ?V 0) CIdle [] [])
      (spsc_at 0 0 0 0 0 (PClaim [5] 0) CIdle [] [])"
  proof -
    let ?s = "spsc_at 0 0 0 0 0 (PLoaded [5] ?V 0) CIdle [] []"
    have "prod_step ?s (?s\<lparr>producer := PClaim (take (unat (1::u32)) [5]) 0\<rparr>)"
      by (rule p_room [where objs = "[5]" and behavior = ?V and free_entries = 3])
        (simp_all add: spsc_at_def spsc_ring_def wrap_ring_def)
    then show ?thesis by (simp add: spsc_at_def)
  qed
  moreover have "prod_step (spsc_at 0 0 0 0 0 (PClaim [5] 0) CIdle [] [])
      (spsc_at 1 0 0 0 0 (PCopy [5] 0 0) CIdle [] [])"
    using p_claim [of "spsc_at 0 0 0 0 0 (PClaim [5] 0) CIdle [] []" "[5]" 0]
    by (simp add: spsc_at_def spsc_ring_def wrap_ring_def)
  moreover have "prod_step (spsc_at 1 0 0 0 0 (PCopy [5] 0 0) CIdle [] [])
      (spsc_at 1 0 0 0 5 (PCopy [5] 0 1) CIdle [] [])"
    using p_copy [of "spsc_at 1 0 0 0 0 (PCopy [5] 0 0) CIdle [] []" "[5]" 0 0 0]
    by (simp add: spsc_at_def spsc_ring_def wrap_ring_def)
  moreover have "prod_step (spsc_at 1 0 0 0 5 (PCopy [5] 0 1) CIdle [] []) (spsc_at 1 1 0 0 5 PIdle CIdle [5] [])"
    using p_publish [of "spsc_at 1 0 0 0 5 (PCopy [5] 0 1) CIdle [] []" "[5]" 0 1]
    by (simp add: spsc_at_def spsc_ring_def wrap_ring_def)
  moreover have "cons_step (spsc_at 1 1 0 0 5 PIdle CIdle [5] []) (spsc_at 1 1 0 0 5 PIdle (CLoaded 1 ?V 0) [5] [])"
    using c_load [of "spsc_at 1 1 0 0 5 PIdle CIdle [5] []" 1 ?V] by (simp add: spsc_at_def)
  moreover have "cons_step (spsc_at 1 1 0 0 5 PIdle (CLoaded 1 ?V 0) [5] [])
      (spsc_at 1 1 0 0 5 PIdle (CClaim 1 0) [5] [])"
    using c_some [of "spsc_at 1 1 0 0 5 PIdle (CLoaded 1 ?V 0) [5] []" 1 ?V 0 1] by (simp add: spsc_at_def)
  moreover have "cons_step (spsc_at 1 1 0 0 5 PIdle (CClaim 1 0) [5] [])
      (spsc_at 1 1 1 0 5 PIdle (CCopy 1 0 []) [5] [])"
    using c_claim [of "spsc_at 1 1 0 0 5 PIdle (CClaim 1 0) [5] []" 1 0]
    by (simp add: spsc_at_def spsc_ring_def wrap_ring_def)
  moreover have "cons_step (spsc_at 1 1 1 0 5 PIdle (CCopy 1 0 []) [5] [])
      (spsc_at 1 1 1 0 5 PIdle (CCopy 1 0 [5]) [5] [])"
    using c_copy [of "spsc_at 1 1 1 0 5 PIdle (CCopy 1 0 []) [5] []" 1 0 "[]" 0]
    by (simp add: spsc_at_def spsc_ring_def wrap_ring_def)
  moreover have "cons_step (spsc_at 1 1 1 0 5 PIdle (CCopy 1 0 [5]) [5] []) (spsc_at 1 1 1 1 5 PIdle CIdle [5] [5])"
    using c_publish [of "spsc_at 1 1 1 0 5 PIdle (CCopy 1 0 [5]) [5] []" 1 0 "[5]"]
    by (simp add: spsc_at_def spsc_ring_def wrap_ring_def)
  ultimately show ?thesis unfolding s
    by (meson spsc_step_def converse_rtranclp_into_rtranclp rtranclp.rtrancl_refl)
qed

theorem spsc_fifo_witness:
  "spsc_step\<^sup>*\<^sup>* (spsc_start spsc_ring) (spsc_at 1 1 1 1 5 PIdle CIdle [5] [5]) \<and>
   llring_contents (shared (spsc_at 1 1 1 1 5 PIdle CIdle [5] [5])) = []"
  using spsc_fifo [OF _ _ _ spsc_demo_run] spsc_demo_run wrap_ring_start
  by (simp add: spsc_ring_def spsc_at_def)

text \<open>From every reachable state each thread can make a step of its own whatever the other one
  does, and every step of a busy thread brings its operation closer to the end: an operation on
  \<open>n\<close> objects is over after at most \<open>n + 3\<close> steps of its own thread, without waiting.\<close>

theorem spsc_wait_free:
  assumes "llring_inv r" and "prod_tail r = 0" and "cons_tail r = 0"
    and "spsc_step\<^sup>*\<^sup>* (spsc_start r) s"
  shows "(\<exists>s'. prod_step s s') \<and> (\<exists>s'. cons_step s s') \<and>
    (\<forall>s'. prod_step s s' \<longrightarrow> producer s = PIdle \<or> producer_work (producer s') < producer_work (producer s)) \<and>
    (\<forall>s'. cons_step s s' \<longrightarrow> consumer s = CIdle \<or> consumer_work 0 (consumer s') < consumer_work 0 (consumer s))"
proof -
  have "spsc_inv s" using assms spsc_run.reached spsc_start_inv by blast
  then show ?thesis using prod_step_enabled cons_step_enabled prod_step_work cons_step_work by blast
qed

theorem spsc_wait_free_witness:
  "\<exists>s'. prod_step (spsc_at 1 1 1 1 5 PIdle CIdle [5] [5]) s'"
  using spsc_wait_free [OF _ _ _ spsc_demo_run] wrap_ring_start by (simp add: spsc_ring_def)

text \<open>C40: wherever the two threads are interrupted, each of them ends the operation it is in when it runs
  alone from there, in at most three steps more than the objects it handles: neither thread ever waits
  for the other one.\<close>

theorem spsc_finishes:
  assumes "llring_inv r" and "prod_tail r = 0" and "cons_tail r = 0"
    and "spsc_step\<^sup>*\<^sup>* (spsc_start r) s"
  shows "(\<exists>n s'. n \<le> producer_work (producer s) \<and> (prod_step ^^ n) s s' \<and> producer s' = PIdle) \<and>
    (\<exists>n s'. n \<le> consumer_work 0 (consumer s) \<and> (cons_step ^^ n) s s' \<and> consumer s' = CIdle)"
proof -
  have "spsc_inv s" using assms spsc_run.reached spsc_start_inv by blast
  then show ?thesis using spsc_producer.finishes [of s] spsc_consumer.finishes [of s] by simp
qed

theorem spsc_finishes_witness:
  "\<exists>n s'. n \<le> 0 \<and> (prod_step ^^ n) (spsc_at 1 1 1 1 5 PIdle CIdle [5] [5]) s' \<and> producer s' = PIdle"
  using spsc_finishes [OF _ _ _ spsc_demo_run] wrap_ring_start by (simp add: spsc_ring_def spsc_at_def)

text \<open>C31: without interference the multi-producer and multi-consumer bodies do exactly what the
  single ones do, results, table and ring alike; so all six entry points that choose by the flags
  given to \<open>llring_init\<close> behave the same on a quiescent ring whatever the flags are.\<close>

theorem llring_dispatch:
  assumes "llring_inv r"
  shows "llring_enqueue_bulk [id, id] r objs n = Some (c_opt OutOfBounds (llring_sp_enqueue_bulk r objs n)) \<and>
    llring_enqueue_burst [id, id] r objs n = Some (c_opt OutOfBounds (llring_sp_enqueue_burst r objs n)) \<and>
    llring_enqueue [id, id] r obj = Some (c_opt OutOfBounds (llring_sp_enqueue r obj)) \<and>
    llring_dequeue_bulk [id, id] r table n = Some (c_opt OutOfBounds (llring_sc_dequeue_bulk r table n)) \<and>
    llring_dequeue_burst [id, id] r table n = Some (c_opt OutOfBounds (llring_sc_dequeue_burst r table n)) \<and>
    llring_dequeue [id, id] r obj = Some (c_opt OutOfBounds (llring_sc_dequeue r obj))"
proof -
  have "prod_head r = prod_tail r" "cons_head r = cons_tail r" using assms by (simp_all add: llring_inv_def)
  then show ?thesis by (simp add: llring_dispatch_defs mp_uncontended mc_uncontended)
qed

theorem llring_dispatch_witness:
  "llring_enqueue_burst [id, id] wrap_ring [1, 2] 2 =
     Some (c_opt OutOfBounds (llring_sp_enqueue_burst wrap_ring [1, 2] 2))"
  using llring_dispatch [OF wrap_ring_inv] by blast

text \<open>A retry of the multi-producer claim returns as soon as no other thread moves \<open>prod.head\<close>
  during one retry, whatever happened before; and a successful claim takes exactly the entries
  that follow the head at the moment of the compare-and-set, no more than requested and than were
  free, so two claims never overlap.\<close>

theorem mp_claim:
  assumes "even (length pre)" and "\<And>r. prod_head (e1 r) = prod_head r" and "\<And>r. prod_head (e2 r) = prod_head r"
  shows "\<exists>c r' es'. mp_move_head (pre @ e1 # e2 # es) r mask' max' behavior = Some (c, r', es') \<and>
    (\<forall>head free_entries n. c = Claimed head free_entries n \<longrightarrow>
      (\<exists>r0. prod_head r0 = head \<and> r' = r0\<lparr>prod_head := head + n\<rparr>) \<and> n \<le> free_entries \<and> n \<le> max')"
proof -
  obtain c r' es' where "mp_move_head (pre @ e1 # e2 # es) r mask' max' behavior = Some (c, r', es')"
    using mp_move_head_returns [OF assms] by (metis prod_cases3)
  then show ?thesis using mp_move_head_claim by blast
qed

theorem mp_claim_witness:
  "\<exists>c r' es'. mp_move_head [\<lambda>r. r\<lparr>prod_head := prod_head r + 1\<rparr>, id, id, id] wrap_ring 3 1 LLRING_QUEUE_FIXED =
     Some (c, r', es')"
  using mp_claim [of "[\<lambda>r. r\<lparr>prod_head := prod_head r + 1\<rparr>, id]" id id "[]" wrap_ring 3 1 LLRING_QUEUE_FIXED]
  by auto

text \<open>The multi-producer enqueue is not lock-free: behind a claim that its owner never
  publishes it waits forever, for every number of turns of the waiting loop.\<close>

theorem mp_waits_for_earlier_claim:
  assumes "llring_geometry r" and "prod_head r \<noteq> prod_tail r" and "0 < n" and "unat n \<le> length objs"
    and "n \<le> common_mask r + cons_tail r - prod_head r" and "n \<le> common_slots r"
  shows "llring_mp_do_enqueue (replicate turns id) r objs n behavior = None"
proof (cases turns)
  fix k assume "turns = Suc k"
  then show ?thesis
  proof (cases k)
    case (Suc m)
    have "mp_wait_tail (replicate m id) r' (prod_head r) = None" if "prod_tail r' = prod_tail r" for r' :: "'a llring"
      using assms(2) that by (intro mp_wait_tail_blocked) auto
    moreover have "LLRING_ENQUEUE_PTRS (r\<lparr>prod_head := h\<rparr>) (prod_head r) objs n \<noteq> None" for h
      using LLRING_ENQUEUE_PTRS_circular [of "r\<lparr>prod_head := h\<rparr>" n objs "prod_head r"] assms(1,4,6) by simp
    ultimately show ?thesis using \<open>turns = Suc k\<close> Suc assms(5)
      by (auto simp: llring_mp_do_enqueue_def Let_def not_less [symmetric] split: option.splits)
  qed (simp add: llring_mp_do_enqueue_def)
qed (simp add: llring_mp_do_enqueue_def)

theorem mp_waits_for_earlier_claim_witness:
  "llring_mp_do_enqueue (replicate 100 id) (wrap_ring\<lparr>prod_head := 0\<rparr>) [9] 1 LLRING_QUEUE_FIXED = None"
  by (rule mp_waits_for_earlier_claim) (simp_all add: wrap_ring_def llring_geometry_def)

end
