(* ===== verification/LLRing_Multi.thy ===== *)
theory LLRing_Multi
  imports LLRing_Concurrent
begin
text \<open>
  Any number of producers and consumers on one ring: the bodies \<open>__llring_mp_do_enqueue\<close> and
  \<open>__llring_mc_do_dequeue\<close> of \<open>src/llring.h\<close> with their accesses of the shared ring interleaved, the
  compare-and-set as one access. The objects are numbered in the order in which they are claimed;
  these numbers (\<open>pos\<close>) and the lists of claimed and delivered objects are history, the code sees only
  their residues modulo \<open>2 ^ 32\<close>.
\<close>

section \<open>Steps\<close>

text \<open>
  Between calls; at the head of the loop; after the read of the own head; after the read of the other
  side's tail, with the count \<open>n\<close> that fits; in the copy, with the entries written or read.
\<close>

datatype 'a mp_pc =
    MPIdle
  | MPTry "'a list" llring_queue_behavior
  | MPHead "'a list" llring_queue_behavior u32 nat
  | MPClaim "'a list" llring_queue_behavior u32 u32 nat
  | MPCopy "'a list" u32 nat nat

datatype 'a mc_pc =
    MCIdle
  | MCTry u32 llring_queue_behavior
  | MCHead u32 llring_queue_behavior u32 nat
  | MCClaim u32 llring_queue_behavior u32 u32 nat
  | MCCopy u32 u32 nat "'a list"

record 'a mpmc =
  mring :: "'a llring"
  producers :: "nat \<Rightarrow> 'a mp_pc"
  consumers :: "nat \<Rightarrow> 'a mc_pc"
  claimed :: "'a list"
  npublished :: nat
  ntaken :: nat
  delivered :: "'a list"

inductive mp_step :: "nat \<Rightarrow> 'a mpmc \<Rightarrow> 'a mpmc \<Rightarrow> bool" for i where
  mp_call: "producers s i = MPIdle \<Longrightarrow> length objs < 2 ^ 32 \<Longrightarrow>
     mp_step i s (s\<lparr>producers := (producers s)(i := MPTry objs behavior)\<rparr>)"
| mp_load: "producers s i = MPTry objs behavior \<Longrightarrow>
     mp_step i s (s\<lparr>producers := (producers s)(i := MPHead objs behavior (prod_head (mring s)) (length (claimed s)))\<rparr>)"
| mp_full: "producers s i = MPHead objs behavior head pos \<Longrightarrow>
     free_entries = common_mask (mring s) + cons_tail (mring s) - head \<Longrightarrow>
     of_nat (length objs) > free_entries \<Longrightarrow> behavior = LLRING_QUEUE_FIXED \<or> free_entries = 0 \<Longrightarrow>
     mp_step i s (s\<lparr>producers := (producers s)(i := MPIdle)\<rparr>)"
| mp_room: "producers s i = MPHead objs behavior head pos \<Longrightarrow>
     free_entries = common_mask (mring s) + cons_tail (mring s) - head \<Longrightarrow>
     \<not> (of_nat (length objs) > free_entries \<and> (behavior = LLRING_QUEUE_FIXED \<or> free_entries = 0)) \<Longrightarrow>
     n = (if of_nat (length objs) > free_entries then free_entries else of_nat (length objs)) \<Longrightarrow>
     mp_step i s (s\<lparr>producers := (producers s)(i := MPClaim objs behavior n head pos)\<rparr>)"
| mp_cas: "producers s i = MPClaim objs behavior n head pos \<Longrightarrow> prod_head (mring s) = head \<Longrightarrow>
     mp_step i s (s\<lparr>mring := (mring s)\<lparr>prod_head := head + n\<rparr>, claimed := claimed s @ take (unat n) objs,
       producers := (producers s)(i := MPCopy (take (unat n) objs) head (length (claimed s)) 0)\<rparr>)"
| mp_retry: "producers s i = MPClaim objs behavior n head pos \<Longrightarrow> prod_head (mring s) \<noteq> head \<Longrightarrow>
     mp_step i s (s\<lparr>producers := (producers s)(i := MPTry objs behavior)\<rparr>)"
| mp_copy: "producers s i = MPCopy objs head pos k \<Longrightarrow> k < length objs \<Longrightarrow>
     idx = (unat (head AND common_mask (mring s)) + k) mod unat (common_slots (mring s)) \<Longrightarrow>
     mp_step i s (s\<lparr>mring := (mring s)\<lparr>ring_mem := (ring_mem (mring s))[idx := objs ! k]\<rparr>,
       producers := (producers s)(i := MPCopy objs head pos (Suc k))\<rparr>)"
| mp_publish: "producers s i = MPCopy objs head pos k \<Longrightarrow> k = length objs \<Longrightarrow> prod_tail (mring s) = head \<Longrightarrow>
     mp_step i s (s\<lparr>mring := (mring s)\<lparr>prod_tail := head + of_nat (length objs)\<rparr>,
       npublished := npublished s + length objs, producers := (producers s)(i := MPIdle)\<rparr>)"

inductive mc_step :: "nat \<Rightarrow> 'a mpmc \<Rightarrow> 'a mpmc \<Rightarrow> bool" for i where
  mc_call: "consumers s i = MCIdle \<Longrightarrow>
     mc_step i s (s\<lparr>consumers := (consumers s)(i := MCTry n behavior)\<rparr>)"
| mc_load: "consumers s i = MCTry n behavior \<Longrightarrow>
     mc_step i s (s\<lparr>consumers := (consumers s)(i := MCHead n behavior (cons_head (mring s)) (ntaken s))\<rparr>)"
| mc_none: "consumers s i = MCHead n behavior head pos \<Longrightarrow> entries = prod_tail (mring s) - head \<Longrightarrow>
     n > entries \<Longrightarrow> behavior = LLRING_QUEUE_FIXED \<or> entries = 0 \<Longrightarrow>
     mc_step i s (s\<lparr>consumers := (consumers s)(i := MCIdle)\<rparr>)"
| mc_some: "consumers s i = MCHead max' behavior head pos \<Longrightarrow> entries = prod_tail (mring s) - head \<Longrightarrow>
     \<not> (max' > entries \<and> (behavior = LLRING_QUEUE_FIXED \<or> entries = 0)) \<Longrightarrow>
     n = (if max' > entries then entries else max') \<Longrightarrow>
     mc_step i s (s\<lparr>consumers := (consumers s)(i := MCClaim max' behavior n head pos)\<rparr>)"
| mc_cas: "consumers s i = MCClaim max' behavior n head pos \<Longrightarrow> cons_head (mring s) = head \<Longrightarrow>
     mc_step i s (s\<lparr>mring := (mring s)\<lparr>cons_head := head + n\<rparr>, ntaken := ntaken s + unat n,
       consumers := (consumers s)(i := MCCopy n head (ntaken s) [])\<rparr>)"
| mc_retry: "consumers s i = MCClaim max' behavior n head pos \<Longrightarrow> cons_head (mring s) \<noteq> head \<Longrightarrow>
     mc_step i s (s\<lparr>consumers := (consumers s)(i := MCTry max' behavior)\<rparr>)"
| mc_copy: "consumers s i = MCCopy n head pos table \<Longrightarrow> length table < unat n \<Longrightarrow>
     idx = (unat (head AND common_mask (mring s)) + length table) mod unat (common_slots (mring s)) \<Longrightarrow>
     mc_step i s (s\<lparr>consumers := (consumers s)(i := MCCopy n head pos (table @ [ring_mem (mring s) ! idx]))\<rparr>)"
| mc_publish: "consumers s i = MCCopy n head pos table \<Longrightarrow> length table = unat n \<Longrightarrow> cons_tail (mring s) = head \<Longrightarrow>
     mc_step i s (s\<lparr>mring := (mring s)\<lparr>cons_tail := head + n\<rparr>, delivered := delivered s @ table,
       consumers := (consumers s)(i := MCIdle)\<rparr>)"

definition mpmc_start :: "'a llring \<Rightarrow> 'a mpmc" where
  "mpmc_start r = \<lparr>mring = r, producers = (\<lambda>_. MPIdle), consumers = (\<lambda>_. MCIdle), claimed = [],
     npublished = 0, ntaken = 0, delivered = []\<rparr>"

text \<open>
  A compare-and-set cannot tell a head from the same head \<open>2 ^ 32\<close> objects later. A run is fresh when
  nobody sleeps that long between the read of a head and the compare-and-set on it.
\<close>

fun mp_pos :: "'a mp_pc \<Rightarrow> nat option" where
  "mp_pos (MPHead objs b head pos) = Some pos" | "mp_pos (MPClaim objs b n head pos) = Some pos" | "mp_pos _ = None"

fun mc_pos :: "'a mc_pc \<Rightarrow> nat option" where
  "mc_pos (MCHead n b head pos) = Some pos" | "mc_pos (MCClaim m b n head pos) = Some pos" | "mc_pos _ = None"

definition fresh :: "'a mpmc \<Rightarrow> bool" where
  "fresh s \<longleftrightarrow> (\<forall>i pos. mp_pos (producers s i) = Some pos \<longrightarrow> length (claimed s) < pos + 2 ^ 32) \<and>
     (\<forall>i pos. mc_pos (consumers s i) = Some pos \<longrightarrow> ntaken s < pos + 2 ^ 32)"

definition mpmc_step :: "'a mpmc \<Rightarrow> 'a mpmc \<Rightarrow> bool" where
  "mpmc_step s s' \<longleftrightarrow> fresh s \<and> (\<exists>i. mp_step i s s' \<or> mc_step i s s')"

section \<open>The invariant\<close>

fun mp_span :: "'a mp_pc \<Rightarrow> nat set" where
  "mp_span (MPCopy objs head pos k) = {pos..<pos + length objs}" | "mp_span _ = {}"

fun mc_span :: "'a mc_pc \<Rightarrow> nat set" where
  "mc_span (MCCopy n head pos table) = {pos..<pos + unat n}" | "mc_span _ = {}"

definition apart :: "(nat \<Rightarrow> nat set) \<Rightarrow> bool" where
  "apart sp \<longleftrightarrow> (\<forall>i j. i \<noteq> j \<longrightarrow> sp i \<inter> sp j = {})"

fun mp_ok :: "'a mp_pc \<Rightarrow> 'a llring \<Rightarrow> 'a list \<Rightarrow> nat \<Rightarrow> nat \<Rightarrow> bool" where
  "mp_ok MPIdle r cl pt ct \<longleftrightarrow> True"
| "mp_ok (MPTry objs b) r cl pt ct \<longleftrightarrow> length objs < 2 ^ 32"
| "mp_ok (MPHead objs b head pos) r cl pt ct \<longleftrightarrow> length objs < 2 ^ 32 \<and> head = of_nat pos \<and> pos \<le> length cl"
| "mp_ok (MPClaim objs b n head pos) r cl pt ct \<longleftrightarrow> length objs < 2 ^ 32 \<and> head = of_nat pos \<and> pos \<le> length cl \<and>
     unat n \<le> length objs \<and> pos + unat n \<le> ct + unat (common_mask r)"
| "mp_ok (MPCopy objs head pos k) r cl pt ct \<longleftrightarrow> head = of_nat pos \<and> k \<le> length objs \<and>
     (objs \<noteq> [] \<longrightarrow> pt \<le> pos \<and> pos + length objs \<le> length cl \<and> take (length objs) (drop pos cl) = objs \<and>
        ring_holds r pos (take k objs))"

fun mc_ok :: "'a mc_pc \<Rightarrow> 'a list \<Rightarrow> nat \<Rightarrow> nat \<Rightarrow> nat \<Rightarrow> bool" where
  "mc_ok MCIdle cl pt ch ct \<longleftrightarrow> True"
| "mc_ok (MCTry n b) cl pt ch ct \<longleftrightarrow> True"
| "mc_ok (MCHead n b head pos) cl pt ch ct \<longleftrightarrow> head = of_nat pos \<and> pos \<le> ch"
| "mc_ok (MCClaim m b n head pos) cl pt ch ct \<longleftrightarrow> head = of_nat pos \<and> pos \<le> ch \<and> pos + unat n \<le> pt"
| "mc_ok (MCCopy n head pos table) cl pt ch ct \<longleftrightarrow> head = of_nat pos \<and> length table \<le> unat n \<and>
     (n \<noteq> 0 \<longrightarrow> ct \<le> pos \<and> pos + unat n \<le> ch \<and> table = take (length table) (drop pos cl))"

definition positions_ok :: "'a mpmc \<Rightarrow> bool" where
  "positions_ok s \<longleftrightarrow> tails_ok (mring s) (npublished s) (length (delivered s)) \<and>
     prod_head (mring s) = of_nat (length (claimed s)) \<and> cons_head (mring s) = of_nat (ntaken s) \<and>
     length (delivered s) \<le> ntaken s \<and> ntaken s \<le> npublished s \<and> npublished s \<le> length (claimed s) \<and>
     length (claimed s) \<le> length (delivered s) + unat (common_mask (mring s))"

definition mpmc_inv :: "'a mpmc \<Rightarrow> bool" where
  "mpmc_inv s \<longleftrightarrow> positions_ok s \<and> delivered s = take (length (delivered s)) (claimed s) \<and>
     ring_holds (mring s) (length (delivered s))
       (take (npublished s - length (delivered s)) (drop (length (delivered s)) (claimed s))) \<and>
     (\<forall>i. mp_ok (producers s i) (mring s) (claimed s) (npublished s) (length (delivered s))) \<and>
     (\<forall>i. mc_ok (consumers s i) (claimed s) (npublished s) (ntaken s) (length (delivered s))) \<and>
     apart (\<lambda>i. mp_span (producers s i)) \<and> apart (\<lambda>i. mc_span (consumers s i))"

lemma mpmc_invD:
  assumes "mpmc_inv s"
  shows "positions_ok s" and "delivered s = take (length (delivered s)) (claimed s)"
    and "ring_holds (mring s) (length (delivered s))
       (take (npublished s - length (delivered s)) (drop (length (delivered s)) (claimed s)))"
    and "mp_ok (producers s i) (mring s) (claimed s) (npublished s) (length (delivered s))"
    and "mc_ok (consumers s i) (claimed s) (npublished s) (ntaken s) (length (delivered s))"
    and "apart (\<lambda>i. mp_span (producers s i))" and "apart (\<lambda>i. mc_span (consumers s i))"
  using assms by (simp_all add: mpmc_inv_def)

lemma positions_okD:
  assumes "positions_ok s"
  shows "tails_ok (mring s) (npublished s) (length (delivered s))" and "llring_geometry (mring s)"
    and "prod_head (mring s) = of_nat (length (claimed s))" and "cons_head (mring s) = of_nat (ntaken s)"
    and "prod_tail (mring s) = of_nat (npublished s)" and "cons_tail (mring s) = of_nat (length (delivered s))"
    and "length (delivered s) \<le> ntaken s" and "ntaken s \<le> npublished s" and "npublished s \<le> length (claimed s)"
    and "length (claimed s) \<le> length (delivered s) + unat (common_mask (mring s))"
  using assms by (auto simp: positions_ok_def tails_ok_def)

lemma apart_upd:
  "apart (\<lambda>i. sp (f i)) \<Longrightarrow> sp x \<subseteq> sp (f i) \<Longrightarrow> apart (\<lambda>j. sp ((f(i := x)) j))"
  unfolding apart_def by (smt (verit) disjoint_iff fun_upd_apply subsetD)

lemma apart_new:
  "apart (\<lambda>i. sp (f i)) \<Longrightarrow> \<forall>j. j \<noteq> i \<longrightarrow> sp (f j) \<inter> sp x = {} \<Longrightarrow> apart (\<lambda>j. sp ((f(i := x)) j))"
  unfolding apart_def by (auto simp: Int_commute)
section \<open>Residues and positions\<close>

lemma residue_eq:
  assumes "(of_nat a :: u32) = of_nat b" and "a \<le> b" and "b < a + 2 ^ 32"
  shows "a = b"
proof -
  have "(of_nat (b - a) :: u32) = 0" using assms(1,2) by simp
  then have "unat (of_nat (b - a) :: u32) = 0" by simp
  then have "b - a = 0" using assms(3) unat_of_nat_u32 [of "b - a"] by linarith
  then show ?thesis using assms(2) by simp
qed

lemma mask_lt: "unat (common_mask r) < 2 ^ 32" by (rule unat_u32_bound)

lemma masked_index:
  assumes "llring_geometry r"
  shows "(unat (of_nat q AND common_mask r) + i) mod unat (common_slots r) = (q + i) mod unat (common_slots r)"
proof -
  from assms obtain k where k: "k < 32" "unat (common_slots r) = 2 ^ k" "common_mask r = common_slots r - 1"
    by (rule llring_geometry_pow2)
  have "unat (of_nat q AND common_mask r) = unat (of_nat q :: u32) mod 2 ^ k"
    unfolding k(3) using unat_and_ring_mask [OF k(2)] by (simp add: k(2))
  also have "\<dots> = q mod 2 ^ k" using unat_add_of_nat_mod [OF k(1), of 0 q] by simp
  finally show ?thesis by (simp add: k(2) mod_simps)
qed

lemma ring_at:
  assumes "ring_holds r c (take (p - c) (drop c xs))" and "c \<le> q" and "q < p" and "p \<le> length xs"
  shows "ring_mem r ! (q mod unat (common_slots r)) = xs ! q"
proof -
  have "q - c < length (take (p - c) (drop c xs))" using assms(2-4) by simp
  from assms(1) [unfolded ring_holds_def, rule_format, OF this] show ?thesis using assms(2-4) by simp
qed

lemma ring_holds_write_apart:
  assumes "ring_holds r p xs" and "c \<le> p" and "p + length xs \<le> c + s" and "c \<le> q" and "q < c + s"
    and "q < p \<or> p + length xs \<le> q" and "s = unat (common_slots r)"
  shows "ring_holds (r\<lparr>ring_mem := (ring_mem r)[q mod unat (common_slots r) := x]\<rparr>) p xs"
proof -
  have "q mod s \<noteq> (p + j) mod s" if "j < length xs" for j
  proof
    assume eq: "q mod s = (p + j) mod s"
    have "q - c < s" "p + j - c < s" using that assms(2-5) by linarith+
    moreover have "(c + (q - c)) mod s = (c + (p + j - c)) mod s" using eq assms(2,4) by simp
    ultimately have "q - c = p + j - c" by (rule mod_add_right_inj)
    then show False using that assms(2,4,6) by linarith
  qed
  then show ?thesis using assms(1,7) by (auto simp: ring_holds_def)
qed

text \<open>The count that the code computes from a read head and a later tail of the other side never exceeds
  the room behind that head.\<close>

lemma room_bound:
  assumes "pos \<le> c + unat (m :: u32)"
  shows "pos + unat (m + of_nat c - of_nat pos) \<le> c + unat m"
proof -
  have "m + of_nat c - of_nat pos = of_nat (c + unat m - pos)" using assms by simp
  then have "unat (m + of_nat c - of_nat pos) = (c + unat m - pos) mod 2 ^ 32" by (simp only: unat_of_nat) simp
  also have "\<dots> \<le> c + unat m - pos" by (rule mod_less_eq_dividend)
  finally show ?thesis using assms by linarith
qed

lemma entries_bound:
  assumes "pos \<le> p"
  shows "pos + unat (of_nat p - of_nat pos :: u32) \<le> p"
proof -
  have "of_nat p - of_nat pos = (of_nat (p - pos) :: u32)" using assms by simp
  then have "unat (of_nat p - of_nat pos :: u32) = (p - pos) mod 2 ^ 32" by (simp only: unat_of_nat) simp
  also have "\<dots> \<le> p - pos" by (rule mod_less_eq_dividend)
  finally show ?thesis using assms by linarith
qed

section \<open>Every step keeps the invariant\<close>

lemma mpmc_invI:
  assumes "positions_ok s" and "delivered s = take (length (delivered s)) (claimed s)"
    and "ring_holds (mring s) (length (delivered s))
       (take (npublished s - length (delivered s)) (drop (length (delivered s)) (claimed s)))"
    and "\<And>i. mp_ok (producers s i) (mring s) (claimed s) (npublished s) (length (delivered s))"
    and "\<And>i. mc_ok (consumers s i) (claimed s) (npublished s) (ntaken s) (length (delivered s))"
    and "apart (\<lambda>i. mp_span (producers s i))" and "apart (\<lambda>i. mc_span (consumers s i))"
  shows "mpmc_inv s"
  using assms by (simp add: mpmc_inv_def)

text \<open>Steps that only move one thread.\<close>

lemma mpmc_inv_producer:
  assumes "mpmc_inv s" and "mp_ok pc (mring s) (claimed s) (npublished s) (length (delivered s))" and "mp_span pc = {}"
  shows "mpmc_inv (s\<lparr>producers := (producers s)(i := pc)\<rparr>)"
proof -
  have "apart (\<lambda>j. mp_span (((producers s)(i := pc)) j))" using assms by (intro apart_upd) (simp_all add: mpmc_inv_def)
  then show ?thesis using assms(1,2) by (simp add: mpmc_inv_def positions_ok_def)
qed

lemma mpmc_inv_consumer:
  assumes "mpmc_inv s" and "mc_ok pc (claimed s) (npublished s) (ntaken s) (length (delivered s))"
    and "mc_span pc \<subseteq> mc_span (consumers s i)"
  shows "mpmc_inv (s\<lparr>consumers := (consumers s)(i := pc)\<rparr>)"
proof -
  have "apart (\<lambda>j. mc_span (((consumers s)(i := pc)) j))" using assms by (intro apart_upd) (simp_all add: mpmc_inv_def)
  then show ?thesis using assms(1,2) by (simp add: mpmc_inv_def positions_ok_def)
qed

text \<open>What the other threads rely on.\<close>

lemma mp_ok_frame:
  assumes "mp_ok pc r cl pt ct" and "ct \<le> ct'" and "common_mask r' = common_mask r"
    and "common_slots r' = common_slots r" and "ring_mem r' = ring_mem r"
    and "\<forall>x \<in> mp_span pc. pt' \<le> x"
  shows "mp_ok pc r' (cl @ ys) pt' ct'"
  using assms by (cases pc) (auto simp: ring_holds_def)

lemma mc_ok_frame:
  assumes "mc_ok pc cl pt ch ct" and "pt \<le> pt'" and "ch \<le> ch'" and "ch \<le> length cl"
    and "\<forall>x \<in> mc_span pc. ct' \<le> x"
  shows "mc_ok pc (cl @ ys) pt' ch' ct'"
proof (cases pc)
  case (MCCopy n head pos table)
  have "0 < unat n" if "n \<noteq> 0" using that by (simp add: unat_gt_0)
  then show ?thesis using assms MCCopy by auto
qed (use assms in auto)

lemma mp_ok_span: "mp_ok pc r cl pt ct \<Longrightarrow> x \<in> mp_span pc \<Longrightarrow> pt \<le> x \<and> x < length cl"
  by (cases pc) auto

lemma mc_ok_span: "mc_ok pc cl pt ch ct \<Longrightarrow> x \<in> mc_span pc \<Longrightarrow> ct \<le> x \<and> x < ch"
  by (cases pc) auto

lemma mp_cas_inv:
  assumes inv: "mpmc_inv s" and "fresh s" and pc: "producers s i = MPClaim objs behavior n head pos"
    and head: "prod_head (mring s) = head"
  shows "mpmc_inv (s\<lparr>mring := (mring s)\<lparr>prod_head := head + n\<rparr>, claimed := claimed s @ take (unat n) objs,
       producers := (producers s)(i := MPCopy (take (unat n) objs) head (length (claimed s)) 0)\<rparr>)" (is "mpmc_inv ?s'")
proof -
  note v = mpmc_invD [OF inv] and p = positions_okD [OF mpmc_invD(1) [OF inv]]
  let ?r = "(mring s)\<lparr>prod_head := head + n\<rparr>" and ?objs = "take (unat n) objs"
  have ok: "head = of_nat pos" "pos \<le> length (claimed s)" "unat n \<le> length objs"
      "pos + unat n \<le> length (delivered s) + unat (common_mask (mring s))"
    using v(4) [of i] pc by simp_all
  have "length (claimed s) < pos + 2 ^ 32" using assms(2) pc unfolding fresh_def by (metis mp_pos.simps(2))
  then have pos: "pos = length (claimed s)" using residue_eq [OF _ ok(2)] ok(1) p(3) head by simp
  let ?pc = "MPCopy ?objs head (length (claimed s)) 0"
  have len: "length ?objs = unat n" using ok(3) by simp
  have n: "head + n = of_nat (length (claimed s @ ?objs))" using ok(1) pos len by simp
  have pos': "positions_ok (s\<lparr>mring := ?r, claimed := claimed s @ ?objs, producers := (producers s)(i := ?pc)\<rparr>)"
    using p ok(4) pos len n unfolding positions_ok_def tails_ok_def by simp
  have others: "mp_ok (producers s j) ?r (claimed s @ ?objs) (npublished s) (length (delivered s))" for j
    using mp_ok_span [OF v(4) [of j]] by (intro mp_ok_frame [OF v(4)]) simp_all
  have mine: "mp_ok ?pc ?r (claimed s @ ?objs) (npublished s) (length (delivered s))"
    using ok(1,3) pos p(9) by (simp add: ring_holds_def min_absorb2)
  have cons: "mc_ok (consumers s j) (claimed s @ ?objs) (npublished s) (ntaken s) (length (delivered s))" for j
    using mc_ok_span [OF v(5) [of j]] p(8,9) by (intro mc_ok_frame [OF v(5)]) simp_all
  have span: "mp_span (producers s j) \<subseteq> {..<length (claimed s)}" for j
    using mp_ok_span [OF v(4) [of j]] by auto
  have sep: "apart (\<lambda>j. mp_span (((producers s)(i := ?pc)) j))"
    using span by (intro apart_new [where sp = mp_span, OF v(6)]) fastforce
  have app: "take (npublished s - length (delivered s)) (drop (length (delivered s)) (claimed s @ ?objs)) =
      take (npublished s - length (delivered s)) (drop (length (delivered s)) (claimed s))"
    "take (length (delivered s)) (claimed s @ ?objs) = take (length (delivered s)) (claimed s)"
    using p(7-9) by simp_all
  have ring: "ring_holds ?r (length (delivered s)) (take (npublished s - length (delivered s)) (drop (length (delivered s)) (claimed s @ ?objs)))"
    unfolding app using v(3) by simp
  have dlv: "delivered s = take (length (delivered s)) (claimed s @ ?objs)" unfolding app by (rule v(2))
  show ?thesis
  proof (rule mpmc_invI)
    show "mp_ok (producers ?s' j) (mring ?s') (claimed ?s') (npublished ?s') (length (delivered ?s'))" for j
      using mine others [of j] by (cases "j = i") (simp_all del: mp_ok.simps)
  qed (use pos' ring dlv cons sep v(7) in simp_all)
qed

lemma mp_copy_inv:
  assumes inv: "mpmc_inv s" and pc: "producers s i = MPCopy objs head pos k" and k: "k < length objs"
    and idx: "idx = (unat (head AND common_mask (mring s)) + k) mod unat (common_slots (mring s))"
  shows "mpmc_inv (s\<lparr>mring := (mring s)\<lparr>ring_mem := (ring_mem (mring s))[idx := objs ! k]\<rparr>,
       producers := (producers s)(i := MPCopy objs head pos (Suc k))\<rparr>)" (is "mpmc_inv ?s'")
proof -
  note v = mpmc_invD [OF inv] and p = positions_okD [OF mpmc_invD(1) [OF inv]]
  let ?r = "mring s" and ?c = "length (delivered s)"
  let ?r' = "?r\<lparr>ring_mem := (ring_mem ?r)[idx := objs ! k]\<rparr>" and ?pc = "MPCopy objs head pos (Suc k)"
  have ok: "head = of_nat pos" "npublished s \<le> pos" "pos + length objs \<le> length (claimed s)"
      "take (length objs) (drop pos (claimed s)) = objs" "ring_holds ?r pos (take k objs)"
    using v(4) [of i] pc k by auto
  note slots = tails_ok_index(5) [OF p(1)]
  have idx': "idx = (pos + k) mod unat (common_slots ?r)" unfolding idx ok(1) by (rule masked_index [OF p(2)])
  have pos': "positions_ok (s\<lparr>mring := ?r', producers := (producers s)(i := ?pc)\<rparr>)"
    using p unfolding positions_ok_def tails_ok_def by simp
  have ring: "ring_holds ?r' ?c (take (npublished s - ?c) (drop ?c (claimed s)))"
    unfolding idx' using p(7-10) ok(2,3) k slots by (intro ring_holds_write_apart [OF v(3), where c = ?c]) simp_all
  have mine: "mp_ok ?pc ?r' (claimed s) (npublished s) ?c"
  proof -
    have "length objs \<le> unat (common_mask ?r)" using ok(2,3) p(7,8,10) by linarith
    then have "ring_holds ?r' pos (take (Suc k) objs)"
      unfolding idx' by (intro ring_holds_write_next [OF ok(5) k _ p(1)])
    then show ?thesis using ok k by simp
  qed
  have others: "mp_ok (producers s j) ?r' (claimed s) (npublished s) ?c" if "j \<noteq> i" for j
  proof (cases "producers s j")
    case (MPCopy objs' head' pos' k')
    have "mp_span (producers s j) \<inter> mp_span (producers s i) = {}" using v(6) that unfolding apart_def by blast
    moreover have "pos + k \<in> mp_span (producers s i)" using pc k by simp
    ultimately have out: "pos + k \<notin> {pos'..<pos' + length objs'}" using MPCopy by auto
    have "ring_holds ?r' pos' (take k' objs')" if "objs' \<noteq> []"
    proof -
      have o: "npublished s \<le> pos'" "pos' + length objs' \<le> length (claimed s)" "ring_holds ?r pos' (take k' objs')"
        using v(4) [of j] MPCopy that by simp_all
      show ?thesis unfolding idx'
        using o(1,2) out ok(2,3) k p(7-10) slots by (intro ring_holds_write_apart [OF o(3), where c = ?c]) auto
    qed
    then show ?thesis using v(4) [of j] MPCopy by simp
  qed (use v(4) [of j] in simp_all)
  have sep: "apart (\<lambda>j. mp_span (((producers s)(i := ?pc)) j))"
    using pc by (intro apart_upd [where sp = mp_span, OF v(6)]) simp
  show ?thesis
  proof (rule mpmc_invI)
    show "mp_ok (producers ?s' j) (mring ?s') (claimed ?s') (npublished ?s') (length (delivered ?s'))" for j
      using mine others [of j] by (cases "j = i") (simp_all del: mp_ok.simps)
  qed (use pos' ring sep v(2,5,7) in simp_all)
qed

lemma mp_publish_inv:
  assumes inv: "mpmc_inv s" and pc: "producers s i = MPCopy objs head pos (length objs)"
    and tail: "prod_tail (mring s) = head"
  shows "mpmc_inv (s\<lparr>mring := (mring s)\<lparr>prod_tail := head + of_nat (length objs)\<rparr>,
       npublished := npublished s + length objs, producers := (producers s)(i := MPIdle)\<rparr>)" (is "mpmc_inv ?s'")
proof (cases "objs = []")
  case True
  have same: "?s' = s\<lparr>producers := (producers s)(i := MPIdle)\<rparr>"
    using True tail by (intro mpmc.equality llring.equality) simp_all
  show ?thesis unfolding same by (rule mpmc_inv_producer [OF inv]) simp_all
next
  case False
  note v = mpmc_invD [OF inv] and p = positions_okD [OF mpmc_invD(1) [OF inv]]
  let ?r = "mring s" and ?c = "length (delivered s)" and ?pt = "npublished s + length objs"
  let ?r' = "?r\<lparr>prod_tail := head + of_nat (length objs)\<rparr>"
  have ok: "head = of_nat pos" "npublished s \<le> pos" "pos + length objs \<le> length (claimed s)"
      "take (length objs) (drop pos (claimed s)) = objs" "ring_holds ?r pos objs"
    using v(4) [of i] pc False by auto
  have lt: "pos < npublished s + 2 ^ 32" using ok(3) p(7,8,10) mask_lt [of ?r] by linarith
  have "(of_nat (npublished s) :: u32) = of_nat pos" using ok(1) p(5) tail by metis
  then have pos: "npublished s = pos" using ok(2) lt by (rule residue_eq)
  have pos': "positions_ok (s\<lparr>mring := ?r', npublished := ?pt, producers := (producers s)(i := MPIdle)\<rparr>)"
    using p ok(1,3) pos unfolding positions_ok_def tails_ok_def by simp
  have ring: "ring_holds ?r' ?c (take (?pt - ?c) (drop ?c (claimed s)))"
  proof -
    obtain f where f: "npublished s = ?c + f" using p(7,8) by (metis le_add_diff_inverse le_trans)
    have "take (?pt - ?c) (drop ?c (claimed s)) = take (f + length objs) (drop ?c (claimed s))" unfolding f by simp
    also have "\<dots> = take f (drop ?c (claimed s)) @ take (length objs) (drop pos (claimed s))"
      unfolding take_add pos [symmetric] f by (simp add: add.commute)
    finally have "take (?pt - ?c) (drop ?c (claimed s)) =
        take (npublished s - ?c) (drop ?c (claimed s)) @ take (length objs) (drop pos (claimed s))" unfolding f by simp
    moreover have "?c + length (take (npublished s - ?c) (drop ?c (claimed s))) = pos" using pos p(7-9) by simp
    ultimately show ?thesis using v(3) ok(4,5) by (simp add: ring_holds_append)
  qed
  have others: "mp_ok (producers s j) ?r' (claimed s @ []) ?pt ?c" if "j \<noteq> i" for j
  proof (rule mp_ok_frame [OF v(4)])
    have "mp_span (producers s j) \<inter> {pos..<pos + length objs} = {}" 
      using v(6) [unfolded apart_def, rule_format, OF that] pc by simp
    moreover have "pos \<le> x" if "x \<in> mp_span (producers s j)" for x
      using mp_ok_span [OF v(4) [of j] that] pos by simp
    ultimately show "\<forall>x \<in> mp_span (producers s j). ?pt \<le> x"
      unfolding pos by (meson atLeastLessThan_iff disjoint_iff not_le)
  qed simp_all
  have cons: "mc_ok (consumers s j) (claimed s @ []) ?pt (ntaken s) ?c" for j
    using mc_ok_span [OF v(5) [of j]] p(8,9) by (intro mc_ok_frame [OF v(5)]) simp_all
  have sep: "apart (\<lambda>j. mp_span (((producers s)(i := MPIdle)) j))" by (intro apart_upd [where sp = mp_span, OF v(6)]) simp
  show ?thesis
  proof (rule mpmc_invI)
    show "mp_ok (producers ?s' j) (mring ?s') (claimed ?s') (npublished ?s') (length (delivered ?s'))" for j
      using others [of j] by (cases "j = i") (simp_all del: mp_ok.simps(2-5))
  qed (use pos' ring cons sep v(2,7) in simp_all)
qed

lemma mp_step_inv: "mp_step i s s' \<Longrightarrow> mpmc_inv s \<Longrightarrow> fresh s \<Longrightarrow> mpmc_inv s'"
proof (induction rule: mp_step.induct)
  case (mp_load s objs behavior)
  note v = mpmc_invD [OF mp_load.prems(1)] and p = positions_okD [OF mpmc_invD(1) [OF mp_load.prems(1)]]
  show ?case using v(4) [of i] p(3) mp_load.hyps by (intro mpmc_inv_producer [OF mp_load.prems(1)]) simp_all
next
  case (mp_room s objs behavior head pos free_entries n)
  note v = mpmc_invD [OF mp_room.prems(1)] and p = positions_okD [OF mpmc_invD(1) [OF mp_room.prems(1)]]
  have ok: "length objs < 2 ^ 32" "head = of_nat pos" "pos \<le> length (claimed s)" using v(4) [of i] mp_room.hyps(1) by simp_all
  have "unat (of_nat (length objs) :: u32) = length objs" using ok(1) by (rule unat_of_nat_u32)
  then have "unat n \<le> unat free_entries" "unat n \<le> length objs"
    unfolding mp_room.hyps(4) by (auto simp: word_less_nat_alt)
  moreover have "pos + unat free_entries \<le> length (delivered s) + unat (common_mask (mring s))"
    unfolding mp_room.hyps(2) ok(2) p(6) using ok(3) p(10) by (intro room_bound) linarith
  ultimately show ?case using ok by (intro mpmc_inv_producer [OF mp_room.prems(1)]) simp_all
next
  case (mp_retry s objs behavior n head pos)
  note v = mpmc_invD [OF mp_retry.prems(1)]
  show ?case using v(4) [of i] mp_retry.hyps by (intro mpmc_inv_producer [OF mp_retry.prems(1)]) simp_all
next
  case (mp_cas s objs behavior n head pos)
  then show ?case by (intro mp_cas_inv)
next
  case (mp_copy s objs head pos k idx)
  then show ?case by (intro mp_copy_inv)
next
  case (mp_publish s objs head pos k)
  then show ?case using mp_publish_inv [of s i objs head pos] by simp
qed (auto intro!: mpmc_inv_producer)

text \<open>The consumers.\<close>

lemma mc_cas_inv:
  assumes inv: "mpmc_inv s" and "fresh s" and pc: "consumers s i = MCClaim max' behavior n head pos"
    and head: "cons_head (mring s) = head"
  shows "mpmc_inv (s\<lparr>mring := (mring s)\<lparr>cons_head := head + n\<rparr>, ntaken := ntaken s + unat n,
       consumers := (consumers s)(i := MCCopy n head (ntaken s) [])\<rparr>)" (is "mpmc_inv ?s'")
proof -
  note v = mpmc_invD [OF inv] and p = positions_okD [OF mpmc_invD(1) [OF inv]]
  let ?r = "(mring s)\<lparr>cons_head := head + n\<rparr>" and ?pc = "MCCopy n head (ntaken s) []" and ?c = "length (delivered s)"
  have ok: "head = of_nat pos" "pos \<le> ntaken s" "pos + unat n \<le> npublished s" using v(5) [of i] pc by simp_all
  have lt: "ntaken s < pos + 2 ^ 32" using assms(2) pc unfolding fresh_def by (metis mc_pos.simps(2))
  have "(of_nat pos :: u32) = of_nat (ntaken s)" using ok(1) p(4) head by metis
  then have pos: "pos = ntaken s" using ok(2) lt by (rule residue_eq)
  have "of_nat (ntaken s + unat n) = head + n" using ok(1) pos by simp
  then have pos': "positions_ok (s\<lparr>mring := ?r, ntaken := ntaken s + unat n, consumers := (consumers s)(i := ?pc)\<rparr>)"
    using p ok(3) pos unfolding positions_ok_def tails_ok_def by simp
  have prods: "mp_ok (producers s j) ?r (claimed s @ []) (npublished s) ?c" for j
    using mp_ok_span [OF v(4) [of j]] by (intro mp_ok_frame [OF v(4)]) simp_all
  have mine: "mc_ok ?pc (claimed s) (npublished s) (ntaken s + unat n) ?c"
    using ok(1) pos p(7) by simp
  have others: "mc_ok (consumers s j) (claimed s @ []) (npublished s) (ntaken s + unat n) ?c" for j
    using mc_ok_span [OF v(5) [of j]] p(8,9) by (intro mc_ok_frame [OF v(5)]) simp_all
  have span: "mc_span (consumers s j) \<subseteq> {..<ntaken s}" for j
    using mc_ok_span [OF v(5) [of j]] by auto
  have sep: "apart (\<lambda>j. mc_span (((consumers s)(i := ?pc)) j))"
    using span by (intro apart_new [where sp = mc_span, OF v(7)]) fastforce
  show ?thesis
  proof (rule mpmc_invI)
    show "mc_ok (consumers ?s' j) (claimed ?s') (npublished ?s') (ntaken ?s') (length (delivered ?s'))" for j
      using mine others [of j] by (cases "j = i") (simp_all del: mc_ok.simps)
  qed (use pos' v(2,3,6) prods sep in simp_all)
qed

lemma mc_copy_inv:
  assumes inv: "mpmc_inv s" and pc: "consumers s i = MCCopy n head pos table" and l: "length table < unat n"
    and idx: "idx = (unat (head AND common_mask (mring s)) + length table) mod unat (common_slots (mring s))"
  shows "mpmc_inv (s\<lparr>consumers := (consumers s)(i := MCCopy n head pos (table @ [ring_mem (mring s) ! idx]))\<rparr>)"
proof -
  note v = mpmc_invD [OF inv] and p = positions_okD [OF mpmc_invD(1) [OF inv]]
  let ?j = "length table"
  have "n \<noteq> 0" using l by auto
  then have ok: "head = of_nat pos" "length (delivered s) \<le> pos" "pos + unat n \<le> ntaken s"
      "table = take ?j (drop pos (claimed s))" using v(5) [of i] pc by simp_all
  have q: "pos + ?j < npublished s" using ok(3) l p(8) by linarith
  have "idx = (pos + ?j) mod unat (common_slots (mring s))" unfolding idx ok(1) by (rule masked_index [OF p(2)])
  then have "ring_mem (mring s) ! idx = claimed s ! (pos + ?j)"
    using ring_at [OF v(3) _ q p(9)] ok(2) by simp
  moreover have "?j < length (drop pos (claimed s))" using q p(9) by simp
  ultimately have eq: "table @ [ring_mem (mring s) ! idx] = take (Suc ?j) (drop pos (claimed s))"
    using ok(4) q p(9) by (simp add: take_Suc_conv_app_nth)
  have t: "length (table @ [ring_mem (mring s) ! idx]) = Suc ?j" by simp
  have "mc_ok (MCCopy n head pos (table @ [ring_mem (mring s) ! idx])) (claimed s) (npublished s) (ntaken s)
      (length (delivered s))" unfolding mc_ok.simps t using ok(1-3) l by (intro conjI impI eq) simp_all
  then show ?thesis using pc by (intro mpmc_inv_consumer [OF inv]) (simp_all del: mc_ok.simps)
qed

lemma mc_publish_inv:
  assumes inv: "mpmc_inv s" and pc: "consumers s i = MCCopy n head pos table" and l: "length table = unat n"
    and tail: "cons_tail (mring s) = head"
  shows "mpmc_inv (s\<lparr>mring := (mring s)\<lparr>cons_tail := head + n\<rparr>, delivered := delivered s @ table,
       consumers := (consumers s)(i := MCIdle)\<rparr>)" (is "mpmc_inv ?s'")
proof (cases "n = 0")
  case True
  have same: "?s' = s\<lparr>consumers := (consumers s)(i := MCIdle)\<rparr>"
    using True tail l by (intro mpmc.equality llring.equality) simp_all
  show ?thesis unfolding same by (rule mpmc_inv_consumer [OF inv]) simp_all
next
  case False
  note v = mpmc_invD [OF inv] and p = positions_okD [OF mpmc_invD(1) [OF inv]]
  let ?r = "(mring s)\<lparr>cons_tail := head + n\<rparr>" and ?c = "length (delivered s)" and ?c' = "length (delivered s) + unat n"
  have ok: "head = of_nat pos" "?c \<le> pos" "pos + unat n \<le> ntaken s" "table = take (unat n) (drop pos (claimed s))"
    using v(5) [of i] pc False l by simp_all
  have lt: "pos < ?c + 2 ^ 32" using ok(3) p(8-10) mask_lt [of "mring s"] by linarith
  have "(of_nat ?c :: u32) = of_nat pos" using ok(1) p(6) tail by metis
  then have pos: "?c = pos" using ok(2) lt by (rule residue_eq)
  have len: "length (delivered s @ table) = ?c'" using l by simp
  have "of_nat ?c' = head + n" using ok(1) pos by simp
  then have pos': "positions_ok (s\<lparr>mring := ?r, delivered := delivered s @ table, consumers := (consumers s)(i := MCIdle)\<rparr>)"
    using p ok(3) pos len unfolding positions_ok_def tails_ok_def by simp
  have dlv: "delivered s @ table = take ?c' (claimed s)" unfolding take_add ok(4) pos using v(2) pos by simp
  have ring: "ring_holds ?r ?c' (take (npublished s - ?c') (drop ?c' (claimed s)))"
  proof -
    obtain f where f: "npublished s = ?c' + f" using pos ok(3) p(8) by (metis le_add_diff_inverse le_trans)
    have "take (npublished s - ?c) (drop ?c (claimed s)) = take (unat n + f) (drop ?c (claimed s))" unfolding f by simp
    also have "\<dots> = table @ take f (drop ?c' (claimed s))" unfolding take_add ok(4) pos by (simp add: add.commute)
    finally have "ring_holds (mring s) ?c (table @ take f (drop ?c' (claimed s)))" using v(3) by simp
    then show ?thesis unfolding f using l by (simp add: ring_holds_append)
  qed
  have prods: "mp_ok (producers s j) ?r (claimed s @ []) (npublished s) ?c'" for j
    using mp_ok_span [OF v(4) [of j]] by (intro mp_ok_frame [OF v(4)]) simp_all
  have others: "mc_ok (consumers s j) (claimed s @ []) (npublished s) (ntaken s) ?c'" if "j \<noteq> i" for j
  proof (rule mc_ok_frame [OF v(5)])
    have "mc_span (consumers s j) \<inter> {pos..<pos + unat n} = {}"
      using v(7) [unfolded apart_def, rule_format, OF that] pc by simp
    moreover have "pos \<le> x" if "x \<in> mc_span (consumers s j)" for x
      using mc_ok_span [OF v(5) [of j] that] pos by simp
    ultimately show "\<forall>x \<in> mc_span (consumers s j). ?c' \<le> x"
      unfolding pos by (meson atLeastLessThan_iff disjoint_iff not_le)
  qed (use p(8,9) in simp_all)
  have sep: "apart (\<lambda>j. mc_span (((consumers s)(i := MCIdle)) j))"
    by (intro apart_upd [where sp = mc_span, OF v(7)]) simp
  show ?thesis
  proof (rule mpmc_invI)
    show "mc_ok (consumers ?s' j) (claimed ?s') (npublished ?s') (ntaken ?s') (length (delivered ?s'))" for j
      using others [of j] len by (cases "j = i") (simp_all del: mc_ok.simps(3-5))
    show "ring_holds (mring ?s') (length (delivered ?s'))
        (take (npublished ?s' - length (delivered ?s')) (drop (length (delivered ?s')) (claimed ?s')))"
      using ring len by simp
    show "delivered ?s' = take (length (delivered ?s')) (claimed ?s')" using dlv len by simp
  qed (use pos' len prods v(6) sep in simp_all)
qed

lemma mc_step_inv: "mc_step i s s' \<Longrightarrow> mpmc_inv s \<Longrightarrow> fresh s \<Longrightarrow> mpmc_inv s'"
proof (induction rule: mc_step.induct)
  case (mc_load s n behavior)
  note p = positions_okD [OF mpmc_invD(1) [OF mc_load.prems(1)]]
  show ?case using p(4) by (intro mpmc_inv_consumer [OF mc_load.prems(1)]) simp_all
next
  case (mc_some s max' behavior head pos entries n)
  note v = mpmc_invD [OF mc_some.prems(1)] and p = positions_okD [OF mpmc_invD(1) [OF mc_some.prems(1)]]
  have ok: "head = of_nat pos" "pos \<le> ntaken s" using v(5) [of i] mc_some.hyps(1) by simp_all
  have "unat n \<le> unat entries" unfolding mc_some.hyps(4) by (auto simp: word_less_nat_alt)
  moreover have "pos + unat entries \<le> npublished s"
    unfolding mc_some.hyps(2) ok(1) p(5) using ok(2) p(8) by (intro entries_bound) linarith
  ultimately show ?case using ok by (intro mpmc_inv_consumer [OF mc_some.prems(1)]) simp_all
next
  case (mc_cas s max' behavior n head pos)
  then show ?case by (intro mc_cas_inv)
next
  case (mc_copy s n head pos table idx)
  then show ?case by (intro mc_copy_inv)
next
  case (mc_publish s n head pos table)
  then show ?case by (intro mc_publish_inv)
qed (auto intro!: mpmc_inv_consumer)

interpretation mpmc_run: step_invariant mpmc_step mpmc_inv
  by unfold_locales (auto simp: mpmc_step_def intro: mp_step_inv mc_step_inv)

lemma mpmc_start_inv: "llring_inv r \<Longrightarrow> prod_tail r = 0 \<Longrightarrow> cons_tail r = 0 \<Longrightarrow> mpmc_inv (mpmc_start r)"
  by (intro mpmc_invI) (auto simp: positions_ok_def mpmc_start_def tails_ok_def llring_inv_def ring_holds_def apart_def)

section \<open>Properties\<close>

text \<open>C4: any number of producers and of consumers, in any interleaving of their accesses: no object is
  lost, invented, duplicated or reordered. The objects that the consumers have handed out are the
  first ones in the order of the claims, the ring holds exactly the published objects behind them, at
  most \<open>slots - 1\<close> claimed objects are outstanding, and the claims of two threads never overlap. The
  run is fresh, that is nobody sleeps while \<open>2 ^ 32\<close> objects pass between the read of a head and the
  compare-and-set on it; the counters themselves may wrap any number of times.\<close>

theorem mpmc_fifo:
  assumes "llring_inv r" and "prod_tail r = 0" and "cons_tail r = 0" and "mpmc_step\<^sup>*\<^sup>* (mpmc_start r) s"
  shows "delivered s = take (length (delivered s)) (claimed s) \<and>
    length (claimed s) - length (delivered s) \<le> unat (common_mask (mring s)) \<and>
    llring_contents (mring s) = drop (length (delivered s)) (take (npublished s) (claimed s)) \<and>
    (\<forall>i j. i \<noteq> j \<longrightarrow> mp_span (producers s i) \<inter> mp_span (producers s j) = {} \<and>
       mc_span (consumers s i) \<inter> mc_span (consumers s j) = {})"
proof -
  have inv: "mpmc_inv s" using assms mpmc_run.reached mpmc_start_inv by blast
  note v = mpmc_invD [OF inv] and p = positions_okD [OF mpmc_invD(1) [OF inv]]
  let ?r = "mring s" and ?c = "length (delivered s)"
  have u: "unat (prod_tail ?r - cons_tail ?r) = npublished s - ?c" using p(1) by (rule tails_okD)
  have "ring_mem ?r ! ((unat (cons_tail ?r) + j) mod length (ring_mem ?r)) = drop ?c (take (npublished s) (claimed s)) ! j"
    if "j < npublished s - ?c" for j
  proof -
    have "(unat (cons_tail ?r) + j) mod length (ring_mem ?r) =
        (unat (cons_tail ?r AND common_mask ?r) + j) mod unat (common_slots ?r)"
    proof -
      obtain k where k: "unat (common_slots ?r) = 2 ^ k" "length (ring_mem ?r) = 2 ^ k"
          "common_mask ?r = common_slots ?r - 1" using p(1) by (rule tails_okD)
      show ?thesis unfolding k(3) unat_and_ring_mask [OF k(1)] by (simp add: k(1,2) mod_simps)
    qed
    also have "\<dots> = (?c + j) mod unat (common_slots ?r)" by (rule tails_ok_index(2) [OF p(1)])
    finally show ?thesis using ring_at [OF v(3), of "?c + j"] that p(9) by simp
  qed
  then have "llring_contents ?r = drop ?c (take (npublished s) (claimed s))"
    using p(9) by (intro nth_equalityI) (simp_all add: llring_contents_def circ_read_def u)
  then show ?thesis using v(2,6,7) p(10) by (simp add: apart_def)
qed

text \<open>The witness: thread 0 has read the head when thread 1 enqueues; its compare-and-set fails.\<close>

definition mpmc_at :: "u32 \<Rightarrow> u32 \<Rightarrow> int \<Rightarrow> int mp_pc \<Rightarrow> int mp_pc \<Rightarrow> int list \<Rightarrow> nat \<Rightarrow> int mpmc" where
  "mpmc_at ph pt x p0 p1 cl np = \<lparr>mring = spsc_ring\<lparr>prod_head := ph, prod_tail := pt, ring_mem := [x, 0, 7, 0]\<rparr>,
     producers = (\<lambda>_. MPIdle)(0 := p0, 1 := p1), consumers = (\<lambda>_. MCIdle), claimed = cl, npublished = np,
     ntaken = 0, delivered = []\<rparr>"

lemma mpmc_at_simps [simp]:
  "producers (mpmc_at ph pt x p0 p1 cl np) 0 = p0" "producers (mpmc_at ph pt x p0 p1 cl np) 1 = p1"
  "(mpmc_at ph pt x p0 p1 cl np)\<lparr>producers := (producers (mpmc_at ph pt x p0 p1 cl np))(0 := q)\<rparr> = mpmc_at ph pt x q p1 cl np"
  "(mpmc_at ph pt x p0 p1 cl np)\<lparr>producers := (producers (mpmc_at ph pt x p0 p1 cl np))(1 := q)\<rparr> = mpmc_at ph pt x p0 q cl np"
  by (simp_all add: mpmc_at_def fun_upd_twist)

lemma mpmc_at_fresh: "length cl < 2 ^ 32 \<Longrightarrow> fresh (mpmc_at ph pt x p0 p1 cl np)"
  by (auto simp: fresh_def mpmc_at_def intro: less_le_trans [OF _ trans_le_add2])

lemma mpmc_demo_run:
  "mpmc_step\<^sup>*\<^sup>* (mpmc_start spsc_ring) (mpmc_at 1 1 5 (MPTry [9] LLRING_QUEUE_FIXED) MPIdle [5] 1)"
proof -
  let ?F = LLRING_QUEUE_FIXED
  let ?s = "\<lambda>p0 p1. mpmc_at 0 0 0 p0 p1 [] 0" and ?h = "\<lambda>x. MPHead [x] ?F 0 0" and ?c = "\<lambda>x. MPClaim [x] ?F 1 0 0"
  have 0: "mpmc_start spsc_ring = ?s MPIdle MPIdle"
    by (simp add: mpmc_start_def mpmc_at_def spsc_ring_def wrap_ring_def fun_eq_iff)
  have ring: "prod_head (mring (mpmc_at a b x p q cl n)) = a" "cons_tail (mring (mpmc_at a b x p q cl n)) = 0"
    "prod_tail (mring (mpmc_at a b x p q cl n)) = b" "common_mask (mring (mpmc_at a b x p q cl n)) = 3"
    "common_slots (mring (mpmc_at a b x p q cl n)) = 4" "claimed (mpmc_at a b x p q cl n) = cl" for a b x p q cl n
    by (simp_all add: mpmc_at_def spsc_ring_def wrap_ring_def)
  have room: "mp_step i (?s p q) ((?s p q)\<lparr>producers := (producers (?s p q))(i := ?c x)\<rparr>)"
    if "producers (?s p q) i = ?h x" for i p q x
    using mp_room [OF that, where n = 1, OF refl] by (simp add: ring)
  have "mp_step 0 (?s MPIdle MPIdle) (?s (MPTry [9] ?F) MPIdle)"
    using mp_call [of "?s MPIdle MPIdle" 0 "[9]" ?F] by simp
  moreover have "mp_step 0 (?s (MPTry [9] ?F) MPIdle) (?s (?h 9) MPIdle)"
    using mp_load [of "?s (MPTry [9] ?F) MPIdle" 0 "[9]" ?F] by (simp add: ring)
  moreover have "mp_step 0 (?s (?h 9) MPIdle) (?s (?c 9) MPIdle)"
    using room [of "?h 9" MPIdle 0 9] by simp
  moreover have "mp_step 1 (?s (?c 9) MPIdle) (?s (?c 9) (MPTry [5] ?F))"
    using mp_call [of "?s (?c 9) MPIdle" 1 "[5]" ?F] by (simp del: One_nat_def)
  moreover have "mp_step 1 (?s (?c 9) (MPTry [5] ?F)) (?s (?c 9) (?h 5))"
    using mp_load [of "?s (?c 9) (MPTry [5] ?F)" 1 "[5]" ?F] by (simp del: One_nat_def add: ring)
  moreover have "mp_step 1 (?s (?c 9) (?h 5)) (?s (?c 9) (?c 5))"
    using room [of "?c 9" "?h 5" 1 5] by (simp del: One_nat_def)
  moreover have "mp_step 1 (?s (?c 9) (?c 5)) (mpmc_at 1 0 0 (?c 9) (MPCopy [5] 0 0 0) [5] 0)"
  proof -
    let ?t = "?s (?c 9) (?c 5)"
    have "mp_step 1 ?t (?t\<lparr>mring := (mring ?t)\<lparr>prod_head := 0 + 1\<rparr>, claimed := claimed ?t @ take (unat (1 :: u32)) [5],
        producers := (producers ?t)(1 := MPCopy (take (unat (1 :: u32)) [5]) 0 (length (claimed ?t)) 0)\<rparr>)"
      by (rule mp_cas [where objs = "[5]" and behavior = ?F and pos = 0]) (simp_all del: One_nat_def add: ring)
    then show ?thesis by (simp del: One_nat_def add: mpmc_at_def spsc_ring_def wrap_ring_def fun_upd_twist)
  qed
  moreover have "mp_step 1 (mpmc_at 1 0 0 (?c 9) (MPCopy [5] 0 0 0) [5] 0) (mpmc_at 1 0 5 (?c 9) (MPCopy [5] 0 0 (Suc 0)) [5] 0)"
    using mp_copy [of "mpmc_at 1 0 0 (?c 9) (MPCopy [5] 0 0 0) [5] 0" 1 "[5]" 0 0 0 0]
    by (simp del: One_nat_def add: mpmc_at_def spsc_ring_def wrap_ring_def fun_upd_twist)
  moreover have "mp_step 1 (mpmc_at 1 0 5 (?c 9) (MPCopy [5] 0 0 (Suc 0)) [5] 0) (mpmc_at 1 1 5 (?c 9) MPIdle [5] 1)"
  proof -
    let ?t = "mpmc_at 1 0 5 (?c 9) (MPCopy [5] 0 0 (Suc 0)) [5] 0"
    have "mp_step 1 ?t (?t\<lparr>mring := (mring ?t)\<lparr>prod_tail := 0 + of_nat (length [5 :: int])\<rparr>,
        npublished := npublished ?t + length [5 :: int], producers := (producers ?t)(1 := MPIdle)\<rparr>)"
      by (rule mp_publish [where objs = "[5]" and pos = 0 and k = "Suc 0"]) (simp_all del: One_nat_def add: ring)
    moreover have "?t\<lparr>mring := (mring ?t)\<lparr>prod_tail := 0 + of_nat (length [5 :: int])\<rparr>,
        npublished := npublished ?t + length [5 :: int], producers := (producers ?t)(1 := MPIdle)\<rparr> =
        mpmc_at 1 1 5 (?c 9) MPIdle [5] 1"
      by (simp add: mpmc_at_def spsc_ring_def wrap_ring_def fun_eq_iff)
    ultimately show ?thesis by simp
  qed
  moreover have "mp_step 0 (mpmc_at 1 1 5 (?c 9) MPIdle [5] 1) (mpmc_at 1 1 5 (MPTry [9] ?F) MPIdle [5] 1)"
    using mp_retry [of "mpmc_at 1 1 5 (?c 9) MPIdle [5] 1" 0 "[9]" ?F 1 0 0] by (simp add: ring)
  moreover have "mp_step i (mpmc_at a b x p q cl n) t \<Longrightarrow> length cl < 2 ^ 32 \<Longrightarrow> mpmc_step (mpmc_at a b x p q cl n) t"
    for i a b x p q cl n t unfolding mpmc_step_def using mpmc_at_fresh by blast
  moreover have "length ([] :: int list) < 2 ^ 32" "length [5 :: int] < 2 ^ 32" by simp_all
  ultimately show ?thesis unfolding 0
    by (meson converse_rtranclp_into_rtranclp rtranclp.rtrancl_refl)
qed

theorem mpmc_fifo_witness:
  "mpmc_step\<^sup>*\<^sup>* (mpmc_start spsc_ring) (mpmc_at 1 1 5 (MPTry [9] LLRING_QUEUE_FIXED) MPIdle [5] 1) \<and>
   llring_contents (mring (mpmc_at 1 1 5 (MPTry [9] LLRING_QUEUE_FIXED) MPIdle [5] 1)) = [5]"
  using mpmc_fifo [OF _ _ _ mpmc_demo_run] mpmc_demo_run wrap_ring_start
  by (simp add: spsc_ring_def mpmc_at_def)

lemma mp_step_effect:
  "mp_step j s t \<Longrightarrow> npublished s \<le> npublished t \<and> (i \<noteq> j \<longrightarrow> producers t i = producers s i)"
  by (induction rule: mp_step.induct) auto

lemma mc_step_effect: "mc_step j s t \<Longrightarrow> npublished t = npublished s \<and> producers t = producers s"
  by (induction rule: mc_step.induct) auto

lemma empty_claim_stuck:
  assumes "mpmc_inv s" and "producers s i = MPCopy [] (of_nat pos) pos 0"
    and "pos < npublished s" and "npublished s < pos + 2 ^ 32"
  shows "\<not> mp_step i s s'"
proof
  assume "mp_step i s s'"
  moreover have "prod_tail (mring s) \<noteq> of_nat pos"
    using residue_eq [of pos "npublished s"] positions_okD(5) [OF mpmc_invD(1) [OF assms(1)]] assms(3,4) by auto
  ultimately show False using assms(2) by cases auto
qed

text \<open>C39: an enqueue of no objects can hang: it claims nothing at the head it has read; when another
  thread claims the entries at the same head and publishes them first, the tail has passed that head,
  and the thread can take no step, whatever the other threads do, as long as fewer than \<open>2 ^ 32\<close> objects
  have been published since that head: it waits until the tail's counter has come round.\<close>

theorem mp_empty_enqueue_hangs:
  assumes "mpmc_inv s" and "producers s i = MPCopy [] (of_nat pos) pos 0" and "pos < npublished s"
    and "mpmc_step\<^sup>*\<^sup>* s t" and "npublished t < pos + 2 ^ 32"
  shows "producers t i = MPCopy [] (of_nat pos) pos 0 \<and> \<not> mp_step i t t'"
proof -
  have "mpmc_inv t \<and> npublished s \<le> npublished t \<and> (npublished t < pos + 2 ^ 32 \<longrightarrow> producers t i = MPCopy [] (of_nat pos) pos 0)"
    using assms(4)
  proof induction
    case (step t u)
    then obtain j where j: "mp_step j t u \<or> mc_step j t u" by (auto simp: mpmc_step_def)
    then have le: "npublished t \<le> npublished u" using mp_step_effect mc_step_effect by fastforce
    have inv: "mpmc_inv u" using mpmc_run.preserved step.hyps(2) step.IH by blast
    have "producers u i = MPCopy [] (of_nat pos) pos 0" if "npublished u < pos + 2 ^ 32"
    proof -
      have t: "producers t i = MPCopy [] (of_nat pos) pos 0" "npublished t < pos + 2 ^ 32" using step.IH le that by simp_all
      then have "\<not> mp_step i t u" using empty_claim_stuck [of t i pos] step.IH assms(3) by auto
      then show ?thesis using j t(1) mp_step_effect [of j t u i] mc_step_effect [of j t u] by metis
    qed
    then show ?case using inv le step.IH by auto
  qed (use assms(1,2) in simp)
  then show ?thesis using empty_claim_stuck [of t i pos] assms(3,5) by auto
qed

theorem mp_empty_enqueue_hangs_witness:
  "\<forall>t'. \<not> mp_step 0 (mpmc_at 1 1 5 (MPCopy [] 0 0 0) MPIdle [5] 1) t'"
proof -
  let ?s = "mpmc_at 1 1 5 (MPCopy [] 0 0 0) MPIdle [5] 1"
  have "mpmc_inv ?s"
    using wrap_ring_start
    by (intro mpmc_invI) (auto simp: positions_ok_def tails_ok_def mpmc_at_def spsc_ring_def wrap_ring_def llring_inv_def
        llring_geometry_def ring_holds_def apart_def)
  then show ?thesis using mp_empty_enqueue_hangs [of ?s 0 0 ?s] by (simp add: mpmc_at_def)
qed

end
