(* ===== verification/VChannel.thy ===== *)
theory VChannel
  imports LLRing
begin

text \<open>
  The message channel of \<open>src/vchannel.c\<close>: a shared memory region with two rings of message
  pointers and a pool of message objects that is reused round robin. A pointer into the pool
  is the object's index, \<open>ObjPtr\<close>; the pointer value that \<open>llring_init\<close> leaves in the ring
  memory is \<open>NullPtr\<close>. The pointers in the region, those to the rings and those to the objects, are
  addresses of the process that made the region; following one in a process that has the region at
  another address is the error \<open>WildPointer\<close>. The operating system's calls of connecting and disconnecting are
  parameters: their results are the fields of a record, their effects a list of events.
\<close>

section \<open>The shared region\<close>

datatype msg_ptr = NullPtr | ObjPtr nat

instantiation msg_ptr :: zero
begin
definition zero_msg_ptr :: msg_ptr where "zero_msg_ptr = NullPtr"
instance ..
end

definition COUNT_RINGS :: nat where "COUNT_RINGS = 2"
definition MAX_SHARED_OBJ_SIZE :: nat where "MAX_SHARED_OBJ_SIZE = 1500"

text \<open>\<open>struct _interpose_msg\<close>, \<open>struct _shared_channel\<close> and \<open>struct vchannel\<close>.\<close>

record interpose_msg =
  data :: "u8 list"
  msg_size :: u32
  index :: u32
  valid :: u32

record shared_channel =
  master_virt_addr :: u64
  region_size :: u64
  connected :: int
  ring_size :: u32
  rings :: "msg_ptr llring list"
  count_elements :: u64
  ring_top :: u32
  shared_objs :: "interpose_msg list"

record vchannel =
  vc_name :: string
  proc_id :: int
  vc_ch :: u64

text \<open>The region is mapped where the process that made it has it, so that its pointers can be followed.\<close>

definition at_home :: "vchannel \<Rightarrow> shared_channel \<Rightarrow> bool" where
  "at_home vc ch \<longleftrightarrow> vc_ch vc = master_virt_addr ch"

text \<open>Following \<open>ch->rings[i]\<close> for an \<open>int\<close> index.\<close>

definition get_ring :: "vchannel \<Rightarrow> shared_channel \<Rightarrow> int \<Rightarrow> msg_ptr llring c_result" where
  "get_ring vc ch i =
     c_check (0 \<le> i \<and> nat i < length (rings ch)) OutOfBounds (
     c_check (at_home vc ch) WildPointer (Inr (rings ch ! nat i)))"

definition set_ring :: "shared_channel \<Rightarrow> int \<Rightarrow> msg_ptr llring \<Rightarrow> shared_channel" where
  "set_ring ch i r = ch\<lparr>rings := (rings ch)[nat i := r]\<rparr>"

text \<open>Dereferencing a message pointer.\<close>

definition get_msg :: "vchannel \<Rightarrow> shared_channel \<Rightarrow> msg_ptr \<Rightarrow> (nat \<times> interpose_msg) c_result" where
  "get_msg vc ch p =
     (case p of NullPtr \<Rightarrow> Inl NullDeref
      | ObjPtr i \<Rightarrow> c_check (i < length (shared_objs ch)) OutOfBounds (
          c_check (at_home vc ch) WildPointer (Inr (i, shared_objs ch ! i))))"

definition set_msg :: "shared_channel \<Rightarrow> nat \<Rightarrow> interpose_msg \<Rightarrow> shared_channel" where
  "set_msg ch i m = ch\<lparr>shared_objs := (shared_objs ch)[i := m]\<rparr>"

section \<open>Sending, receiving, counting\<close>

text \<open>
  \<open>vc_tx_msg\<close>: the object at \<open>ring_top\<close> is filled and \<open>ring_top\<close> advanced before the pointer is
  enqueued. An object that is still valid is only reported on standard output and overwritten.
\<close>

definition vc_tx_msg ::
  "vchannel \<Rightarrow> shared_channel \<Rightarrow> u8 list \<Rightarrow> u32 \<Rightarrow> (int \<times> shared_channel) c_result" where
  "vc_tx_msg vc ch buf size' =
     c_check (unat size' < MAX_SHARED_OBJ_SIZE) AssertFail (
     let other = 1 - proc_id vc;
         idx = sint (ring_top ch) in
     c_check (count_elements ch \<noteq> 0) DivByZero (
     let ch = ch\<lparr>ring_top := ucast ((word_of_int (idx + 1) :: u64) mod count_elements ch)\<rparr> in
     c_check (0 \<le> idx) OutOfBounds (
     c_bind (get_msg vc ch (ObjPtr (nat idx))) (\<lambda>(i, msg).
     c_bind (memcpy (unat size') (data msg) buf) (\<lambda>d.
     let ch = set_msg ch i (msg\<lparr>data := d, msg_size := size', valid := 1, index := word_of_int idx\<rparr>) in
     c_bind (get_ring vc ch other) (\<lambda>r.
     c_bind (c_opt OutOfBounds (ring_put r (ObjPtr i))) (\<lambda>(ok, r).
     Inr (if ok then 0 else -1, set_ring ch other r))))))))"

text \<open>The condition of the warning \<open>Overriding message\<close>.\<close>

definition vc_tx_overrides :: "shared_channel \<Rightarrow> bool" where
  "vc_tx_overrides ch = (valid (shared_objs ch ! unat (ring_top ch)) \<noteq> 0)"

definition vc_rx_msg ::
  "vchannel \<Rightarrow> shared_channel \<Rightarrow> u8 list \<Rightarrow> u32 \<Rightarrow> (int \<times> u8 list \<times> shared_channel) c_result" where
  "vc_rx_msg vc ch buf size' =
     (let id' = proc_id vc in
     c_bind (get_ring vc ch id') (\<lambda>r.
     c_bind (c_opt OutOfBounds (ring_get NullPtr r)) (\<lambda>(p, r).
     let ch = set_ring ch id' r in
     case p of None \<Rightarrow> Inr (0, buf, ch)
     | Some p \<Rightarrow>
         c_bind (get_msg vc ch p) (\<lambda>(i, msg).
         if valid msg = 0 then Inr (0, buf, ch)
         else let len = (if msg_size msg < size' then msg_size msg else size') in
           c_bind (memcpy (unat len) buf (data msg)) (\<lambda>buf.
           Inr (sint len, buf, set_msg ch i (msg\<lparr>valid := 0, msg_size := 0\<rparr>)))))))"

definition vc_count_msg :: "vchannel \<Rightarrow> shared_channel \<Rightarrow> u32 c_result" where
  "vc_count_msg vc ch = c_bind (get_ring vc ch (proc_id vc)) (\<lambda>r. Inr (llring_count r))"

section \<open>Invariant and abstract view of the channel\<close>

text \<open>
  A channel as \<open>connect_shared_channel\<close> sets it up and as the operations keep it: two
  quiescent rings of \<open>ring_size\<close> slots whose entries point into the pool, and a pool of
  \<open>2 * ring_size\<close> objects that fits an \<open>int\<close> index.
\<close>

definition obj_wf :: "interpose_msg \<Rightarrow> bool" where
  "obj_wf m \<longleftrightarrow> length (data m) = MAX_SHARED_OBJ_SIZE \<and> unat (msg_size m) < MAX_SHARED_OBJ_SIZE"

definition ring_wf :: "nat \<Rightarrow> u32 \<Rightarrow> msg_ptr llring \<Rightarrow> bool" where
  "ring_wf pool slots r \<longleftrightarrow> llring_inv r \<and> common_slots r = slots \<and> common_watermark r = slots \<and>
     set (llring_contents r) \<subseteq> ObjPtr ` {..<pool}"

definition vc_wf :: "shared_channel \<Rightarrow> bool" where
  "vc_wf ch \<longleftrightarrow> length (rings ch) = COUNT_RINGS \<and>
     length (shared_objs ch) = COUNT_RINGS * unat (ring_size ch) \<and>
     unat (count_elements ch) = length (shared_objs ch) \<and> length (shared_objs ch) < 2 ^ 31 \<and>
     unat (ring_top ch) < length (shared_objs ch) \<and>
     (\<forall>r \<in> set (rings ch). ring_wf (length (shared_objs ch)) (ring_size ch) r) \<and>
     (\<forall>m \<in> set (shared_objs ch). obj_wf m)"

text \<open>One of the two sides of a channel, in a process that can follow the channel's pointers.\<close>

definition vc_side :: "vchannel \<Rightarrow> shared_channel \<Rightarrow> bool" where
  "vc_side vc ch \<longleftrightarrow> (proc_id vc = 0 \<or> proc_id vc = 1) \<and> at_home vc ch"

text \<open>The bytes of a message, and the messages that wait for a side, oldest first.\<close>

definition payload :: "interpose_msg \<Rightarrow> u8 list" where
  "payload m = take (unat (msg_size m)) (data m)"

definition obj_payload :: "interpose_msg list \<Rightarrow> msg_ptr \<Rightarrow> u8 list" where
  "obj_payload objs p = (case p of NullPtr \<Rightarrow> [] | ObjPtr i \<Rightarrow> payload (objs ! i))"

definition vc_ring :: "shared_channel \<Rightarrow> int \<Rightarrow> msg_ptr llring" where
  "vc_ring ch i = rings ch ! nat i"

definition vc_pending :: "shared_channel \<Rightarrow> int \<Rightarrow> u8 list list" where
  "vc_pending ch i = map (obj_payload (shared_objs ch)) (llring_contents (vc_ring ch i))"

definition vc_top :: "shared_channel \<Rightarrow> nat" where
  "vc_top ch = unat (ring_top ch)"

text \<open>The object that \<open>vc_tx_msg\<close> fills, and the channel after it advanced \<open>ring_top\<close>.\<close>

definition filled_msg :: "u8 list \<Rightarrow> u32 \<Rightarrow> interpose_msg \<Rightarrow> interpose_msg" where
  "filled_msg bytes i m = m\<lparr>data := bytes @ drop (length bytes) (data m),
     msg_size := of_nat (length bytes), valid := 1, index := i\<rparr>"

definition vc_fill :: "shared_channel \<Rightarrow> u8 list \<Rightarrow> shared_channel" where
  "vc_fill ch bytes =
     ch\<lparr>ring_top := of_nat ((vc_top ch + 1) mod length (shared_objs ch)),
        shared_objs := (shared_objs ch)[vc_top ch := filled_msg bytes (ring_top ch) (shared_objs ch ! vc_top ch)]\<rparr>"

lemma vc_wf_top:
  assumes "vc_wf ch"
  shows "vc_top ch < length (shared_objs ch)" and "nat (sint (ring_top ch)) = vc_top ch"
    and "0 \<le> sint (ring_top ch)" and "count_elements ch \<noteq> 0"
    and "ucast ((scast (ring_top ch) + 1 :: u64) mod count_elements ch) =
      (of_nat ((vc_top ch + 1) mod length (shared_objs ch)) :: u32)"
proof -
  let ?n = "length (shared_objs ch)"
  from assms have n: "?n < 2 ^ 31" and top: "unat (ring_top ch) < ?n" and cnt: "unat (count_elements ch) = ?n"
    by (auto simp: vc_wf_def)
  show "vc_top ch < ?n" using top by (simp add: vc_top_def)
  have si: "sint (ring_top ch) = int (unat (ring_top ch))"
    by (rule sint_u32_small) (rule less_trans [OF top n])
  then show "nat (sint (ring_top ch)) = vc_top ch" and pos: "0 \<le> sint (ring_top ch)"
    and "count_elements ch \<noteq> 0"
    using top cnt by (auto simp: vc_top_def)
  have e: "(scast (ring_top ch) + 1 :: u64) = of_nat (vc_top ch + 1)"
  proof -
    have "(scast (ring_top ch) :: u64) = word_of_int (sint (ring_top ch))" by simp
    then show ?thesis unfolding si by (simp add: vc_top_def)
  qed
  have "vc_top ch + 1 < 2 ^ 64" using top n by (simp add: vc_top_def)
  then have "unat (of_nat (vc_top ch + 1) :: u64) = vc_top ch + 1"
    by (simp only: unat_of_nat) simp
  then have u: "unat ((of_nat (vc_top ch + 1) :: u64) mod count_elements ch) = (vc_top ch + 1) mod ?n"
    by (simp only: unat_mod_distrib cnt)
  show "ucast ((scast (ring_top ch) + 1 :: u64) mod count_elements ch) =
      (of_nat ((vc_top ch + 1) mod ?n) :: u32)"
    unfolding e by (metis u of_nat_unat)
qed

lemma vc_ring_frame [simp]:
  "vc_ring (ch\<lparr>ring_top := t\<rparr>) i = vc_ring ch i"
  "vc_ring (ch\<lparr>shared_objs := objs\<rparr>) i = vc_ring ch i"
  by (simp_all add: vc_ring_def)

lemma vc_side_home: "vc_side vc ch \<Longrightarrow> vc_ch vc = master_virt_addr ch"
  by (simp add: vc_side_def at_home_def)

lemma vc_tx_msg_exact:
  assumes wf: "vc_wf ch" and side: "vc_side vc ch" and sz: "unat n < MAX_SHARED_OBJ_SIZE"
    and len: "length bytes = unat n"
  shows "vc_tx_msg vc ch (bytes @ rest) n =
    (let r = vc_ring ch (1 - proc_id vc); ok = 0 < llring_room r in
     Inr (if ok then 0 else -1,
          set_ring (vc_fill ch bytes) (1 - proc_id vc)
            (if ok then llring_push r [ObjPtr (vc_top ch)] else r)))"
proof -
  note top = vc_wf_top [OF wf]
  let ?m = "shared_objs ch ! vc_top ch" and ?r = "vc_ring ch (1 - proc_id vc)"
  have dlen: "length (data ?m) = MAX_SHARED_OBJ_SIZE"
    using wf top(1) by (auto simp: vc_wf_def obj_wf_def)
  have cp: "memcpy (unat n) (data ?m) (bytes @ rest) = Inr (bytes @ drop (unat n) (data ?m))"
    using sz len dlen by (simp add: memcpy_def)
  have two: "length (rings ch) = 2" using wf by (simp add: vc_wf_def COUNT_RINGS_def)
  have idx: "0 \<le> 1 - proc_id vc" "nat (1 - proc_id vc) < length (rings ch)"
    using side two by (auto simp: vc_side_def)
  then have "?r \<in> set (rings ch)" by (simp add: vc_ring_def)
  then have inv: "llring_inv ?r" using wf by (auto simp: vc_wf_def ring_wf_def)
  show ?thesis
    using idx top(1,3) sz
    by (simp add: vc_tx_msg_def Let_def top(2,4,5) len get_msg_def cp get_ring_def set_msg_def at_home_def vc_side_home [OF side]
        ring_put_exact [OF inv] vc_fill_def filled_msg_def flip: vc_ring_def)
qed

text \<open>A process that has the region elsewhere fails at the first pointer it follows.\<close>

lemma vc_away:
  assumes wf: "vc_wf ch" and id: "proc_id vc = 0 \<or> proc_id vc = 1" and away: "\<not> at_home vc ch"
  shows "vc_tx_msg vc ch buf n = Inl (if unat n < MAX_SHARED_OBJ_SIZE then WildPointer else AssertFail)"
    and "vc_rx_msg vc ch out k = Inl WildPointer" and "vc_count_msg vc ch = Inl WildPointer"
proof -
  note top = vc_wf_top [OF wf]
  have "length (rings ch) = 2" using wf by (simp add: vc_wf_def COUNT_RINGS_def)
  then have idx: "0 \<le> proc_id vc" "nat (proc_id vc) < length (rings ch)" using id by auto
  have "at_home vc (ch\<lparr>ring_top := t\<rparr>) = at_home vc ch" for t by (simp add: at_home_def)
  then show "vc_tx_msg vc ch buf n = Inl (if unat n < MAX_SHARED_OBJ_SIZE then WildPointer else AssertFail)"
    using top(1,3) away by (simp add: vc_tx_msg_def Let_def top(2,4,5) get_msg_def)
  show "vc_rx_msg vc ch out k = Inl WildPointer" "vc_count_msg vc ch = Inl WildPointer"
    using idx away by (simp_all add: vc_rx_msg_def vc_count_msg_def get_ring_def)
qed

definition obj_index :: "msg_ptr \<Rightarrow> nat" where
  "obj_index p = (case p of NullPtr \<Rightarrow> 0 | ObjPtr i \<Rightarrow> i)"

lemma obj_index_simps [simp]: "obj_index (ObjPtr i) = i"
  by (simp add: obj_index_def)

text \<open>What the invariant gives for the ring of one side.\<close>

lemma vc_wf_ring:
  assumes "vc_wf ch" and "vc_side vc ch"
  shows "0 \<le> proc_id vc" and "nat (proc_id vc) < length (rings ch)"
    and "ring_wf (length (shared_objs ch)) (ring_size ch) (vc_ring ch (proc_id vc))"
    and "llring_inv (vc_ring ch (proc_id vc))"
proof -
  show idx: "0 \<le> proc_id vc" "nat (proc_id vc) < length (rings ch)"
    using assms by (auto simp: vc_side_def vc_wf_def COUNT_RINGS_def)
  then have "vc_ring ch (proc_id vc) \<in> set (rings ch)" by (simp add: vc_ring_def)
  then show "ring_wf (length (shared_objs ch)) (ring_size ch) (vc_ring ch (proc_id vc))"
    using assms by (auto simp: vc_wf_def)
  then show "llring_inv (vc_ring ch (proc_id vc))" by (simp add: ring_wf_def)
qed

lemma vc_wf_pointer:
  assumes "ring_wf n slots r" and "p \<in> set (llring_contents r)"
  shows "p = ObjPtr (obj_index p)" and "obj_index p < n"
  using assms by (auto simp: ring_wf_def)

lemma set_ring_frame [simp]:
  "master_virt_addr (set_ring ch i r) = master_virt_addr ch"
  "shared_objs (set_ring ch i r) = shared_objs ch" "ring_size (set_ring ch i r) = ring_size ch"
  "ring_top (set_ring ch i r) = ring_top ch" "vc_top (set_ring ch i r) = vc_top ch"
  by (simp_all add: set_ring_def vc_top_def)

lemma vc_ring_set_ring:
  "nat i < length (rings ch) \<Longrightarrow> 0 \<le> i \<Longrightarrow> 0 \<le> j \<Longrightarrow>
     vc_ring (set_ring ch i r) j = (if i = j then r else vc_ring ch j)"
  by (auto simp: vc_ring_def set_ring_def nth_list_update)

lemma set_ring_same: "0 \<le> i \<Longrightarrow> set_ring ch i (vc_ring ch i) = ch"
  by (simp add: set_ring_def vc_ring_def)

lemma vc_rx_msg_exact:
  assumes wf: "vc_wf ch" and side: "vc_side vc ch" and len: "unat n \<le> length buf"
  shows "vc_rx_msg vc ch buf n =
    (let r = vc_ring ch (proc_id vc); ch' = set_ring ch (proc_id vc) (llring_pop r 1) in
     case llring_contents r of [] \<Rightarrow> Inr (0, buf, ch)
     | p # _ \<Rightarrow>
         (let m = shared_objs ch ! obj_index p; k = min (unat (msg_size m)) (unat n) in
          if valid m = 0 then Inr (0, buf, ch')
          else Inr (int k, take k (data m) @ drop k buf,
                    set_msg ch' (obj_index p) (m\<lparr>valid := 0, msg_size := 0\<rparr>))))"
proof (cases "llring_contents (vc_ring ch (proc_id vc))")
  case Nil
  note ring = vc_wf_ring [OF wf side]
  show ?thesis using ring(1,2) by (simp add: vc_rx_msg_def get_ring_def at_home_def vc_side_home [OF side] Nil ring_get_exact [OF ring(4)]
      set_ring_same Let_def flip: vc_ring_def)
next
  case (Cons p ps)
  note ring = vc_wf_ring [OF wf side]
  have p: "p = ObjPtr (obj_index p)" "obj_index p < length (shared_objs ch)"
    using vc_wf_pointer [OF ring(3), of p] Cons by simp_all
  let ?m = "shared_objs ch ! obj_index p"
  have ow: "length (data ?m) = MAX_SHARED_OBJ_SIZE" "unat (msg_size ?m) < MAX_SHARED_OBJ_SIZE"
    using wf p(2) by (auto simp: vc_wf_def obj_wf_def)
  let ?len = "if msg_size ?m < n then msg_size ?m else n"
  let ?k = "min (unat (msg_size ?m)) (unat n)"
  have u: "unat ?len = ?k" by (auto simp: word_less_nat_alt)
  have "unat ?len < 2 ^ 31" unfolding u using ow(2) by (simp add: MAX_SHARED_OBJ_SIZE_def min_def)
  then have s: "sint ?len = int ?k" using sint_u32_small [of ?len] u by simp
  have cp: "memcpy (unat ?len) buf (data ?m) = Inr (take ?k (data ?m) @ drop ?k buf)"
    unfolding u by (rule memcpy_ok) (use ow len in \<open>simp_all add: min.coboundedI1 min.coboundedI2\<close>)
  have gm: "get_msg vc (set_ring ch i r) p = Inr (obj_index p, ?m)" for i r
    by (subst p(1)) (use p(2) in \<open>simp add: get_msg_def at_home_def vc_side_home [OF side]\<close>)
  show ?thesis using ring(1,2) cp s
    by (simp add: vc_rx_msg_def get_ring_def at_home_def vc_side_home [OF side] Cons ring_get_exact [OF ring(4)] Let_def gm
        del: unat_of_nat flip: vc_ring_def)
qed

section \<open>The operations keep the invariant\<close>

lemma set_ring_wf:
  assumes "vc_wf ch" and "ring_wf (length (shared_objs ch)) (ring_size ch) r"
  shows "vc_wf (set_ring ch i r)"
proof -
  have "set ((rings ch)[nat i := r]) \<subseteq> insert r (set (rings ch))" by (rule set_update_subset_insert)
  with assms show ?thesis by (auto simp: vc_wf_def set_ring_def)
qed

lemma set_msg_wf:
  assumes "vc_wf ch" and "obj_wf m"
  shows "vc_wf (set_msg ch i m)"
proof -
  have "set ((shared_objs ch)[i := m]) \<subseteq> insert m (set (shared_objs ch))" by (rule set_update_subset_insert)
  with assms show ?thesis by (auto simp: vc_wf_def set_msg_def)
qed

lemma vc_fill_set_msg:
  "vc_fill ch bytes = set_msg (ch\<lparr>ring_top := of_nat ((vc_top ch + 1) mod length (shared_objs ch))\<rparr>)
     (vc_top ch) (filled_msg bytes (ring_top ch) (shared_objs ch ! vc_top ch))"
  by (simp add: vc_fill_def set_msg_def)

lemma vc_fill_wf:
  assumes wf: "vc_wf ch" and len: "length bytes < MAX_SHARED_OBJ_SIZE"
  shows "vc_wf (vc_fill ch bytes)"
    and "vc_top (vc_fill ch bytes) = (vc_top ch + 1) mod length (shared_objs ch)"
proof -
  let ?n = "length (shared_objs ch)"
  note top = vc_wf_top [OF wf]
  have "(vc_top ch + 1) mod ?n < ?n" using top(1) by (intro mod_less_divisor) linarith
  moreover have "?n < 2 ^ 31" using wf by (simp add: vc_wf_def)
  ultimately have u: "unat (of_nat ((vc_top ch + 1) mod ?n) :: u32) = (vc_top ch + 1) mod ?n"
    by (intro unat_of_nat_u32) simp
  show "vc_top (vc_fill ch bytes) = (vc_top ch + 1) mod ?n" using u by (simp add: vc_fill_def vc_top_def)
  have "vc_wf (ch\<lparr>ring_top := of_nat ((vc_top ch + 1) mod ?n)\<rparr>)"
    using wf u \<open>(vc_top ch + 1) mod ?n < ?n\<close> by (auto simp: vc_wf_def)
  moreover have "shared_objs ch ! vc_top ch \<in> set (shared_objs ch)" using top(1) by simp
  then have "obj_wf (filled_msg bytes (ring_top ch) (shared_objs ch ! vc_top ch))"
    using wf len unat_of_nat_u32 [of "length bytes"]
    by (auto simp: vc_wf_def obj_wf_def filled_msg_def MAX_SHARED_OBJ_SIZE_def)
  ultimately show "vc_wf (vc_fill ch bytes)" unfolding vc_fill_set_msg by (rule set_msg_wf)
qed

lemma ring_wf_push:
  assumes "ring_wf n slots r" and "i < n" and "0 < llring_room r"
  shows "ring_wf n slots (llring_push r [ObjPtr i])"
    and "llring_contents (llring_push r [ObjPtr i]) = llring_contents r @ [ObjPtr i]"
  using assms llring_push_inv [of r "[ObjPtr i]"] by (auto simp: ring_wf_def)

lemma ring_wf_pop:
  assumes "ring_wf n slots r" and "llring_contents r = p # ps"
  shows "ring_wf n slots (llring_pop r (Suc 0))" and "llring_contents (llring_pop r (Suc 0)) = ps"
  using assms llring_pop_inv [of r "Suc 0"] by (auto simp: ring_wf_def)

section \<open>Effect on the waiting messages\<close>

text \<open>
  A channel is fresh when no object is queued twice and every queued object is valid. This is
  what the receiver relies on, and what the round-robin reuse of the pool has to preserve.
\<close>

definition vc_in_flight :: "shared_channel \<Rightarrow> msg_ptr list" where
  "vc_in_flight ch = llring_contents (vc_ring ch 0) @ llring_contents (vc_ring ch 1)"

definition vc_fresh :: "shared_channel \<Rightarrow> bool" where
  "vc_fresh ch \<longleftrightarrow> distinct (vc_in_flight ch) \<and>
     (\<forall>p \<in> set (vc_in_flight ch). valid (shared_objs ch ! obj_index p) \<noteq> 0)"

lemma vc_side_cases:
  assumes "vc_side vc ch" and "i = 0 \<or> i = (1::int)"
  obtains "i = proc_id vc" | "i = 1 - proc_id vc"
  using assms by (auto simp: vc_side_def)

lemma obj_payload_other: "p \<noteq> ObjPtr i \<Longrightarrow> obj_payload (objs[i := m]) p = obj_payload objs p"
  by (cases p) (auto simp: obj_payload_def)

lemma obj_payload_filled:
  "length bytes < MAX_SHARED_OBJ_SIZE \<Longrightarrow> i < length objs \<Longrightarrow>
     obj_payload (objs[i := filled_msg bytes t m]) (ObjPtr i) = bytes"
  using unat_of_nat_u32 [of "length bytes"]
  by (simp add: obj_payload_def payload_def filled_msg_def MAX_SHARED_OBJ_SIZE_def)

text \<open>The state after a send: the object is filled, and queued when there is room.\<close>

definition vc_sent :: "vchannel \<Rightarrow> shared_channel \<Rightarrow> u8 list \<Rightarrow> shared_channel" where
  "vc_sent vc ch bytes =
     (let r = vc_ring ch (1 - proc_id vc) in
      set_ring (vc_fill ch bytes) (1 - proc_id vc)
        (if 0 < llring_room r then llring_push r [ObjPtr (vc_top ch)] else r))"

lemma vc_other_side: "vc_side vc ch \<Longrightarrow> vc_side (vc\<lparr>proc_id := 1 - proc_id vc\<rparr>) ch"
  by (auto simp: vc_side_def at_home_def)

lemma vc_wf_other_ring:
  assumes "vc_wf ch" and "vc_side vc ch"
  shows "0 \<le> 1 - proc_id vc" and "nat (1 - proc_id vc) < length (rings ch)"
    and "ring_wf (length (shared_objs ch)) (ring_size ch) (vc_ring ch (1 - proc_id vc))"
  using vc_wf_ring [OF assms(1) vc_other_side [OF assms(2)]] by simp_all

lemma vc_fill_frame [simp]:
  "master_virt_addr (vc_fill ch bytes) = master_virt_addr ch"
  "rings (vc_fill ch bytes) = rings ch" "vc_ring (vc_fill ch bytes) i = vc_ring ch i"
  "ring_size (vc_fill ch bytes) = ring_size ch"
  "length (shared_objs (vc_fill ch bytes)) = length (shared_objs ch)"
  by (simp_all add: vc_fill_def vc_ring_def)

lemma vc_sent_wf:
  assumes wf: "vc_wf ch" and side: "vc_side vc ch" and len: "length bytes < MAX_SHARED_OBJ_SIZE"
  shows "vc_wf (vc_sent vc ch bytes)"
    and "vc_top (vc_sent vc ch bytes) = (vc_top ch + 1) mod length (shared_objs ch)"
    and "length (shared_objs (vc_sent vc ch bytes)) = length (shared_objs ch)"
    and "ring_size (vc_sent vc ch bytes) = ring_size ch"
    and "vc_ring (vc_sent vc ch bytes) (proc_id vc) = vc_ring ch (proc_id vc)"
    and "llring_contents (vc_ring (vc_sent vc ch bytes) (1 - proc_id vc)) =
      llring_contents (vc_ring ch (1 - proc_id vc)) @
      (if 0 < llring_room (vc_ring ch (1 - proc_id vc)) then [ObjPtr (vc_top ch)] else [])"
proof -
  note ring = vc_wf_other_ring [OF wf side]
  note fill = vc_fill_wf [OF wf len]
  note push = ring_wf_push [OF ring(3) vc_wf_top(1) [OF wf]]
  have ne: "1 - proc_id vc \<noteq> proc_id vc" "0 \<le> proc_id vc" using side by (auto simp: vc_side_def)
  show "vc_wf (vc_sent vc ch bytes)"
    unfolding vc_sent_def Let_def by (rule set_ring_wf [OF fill(1)]) (use ring(3) push(1) in simp)
  show "vc_top (vc_sent vc ch bytes) = (vc_top ch + 1) mod length (shared_objs ch)"
    using fill(2) by (simp add: vc_sent_def Let_def)
  show "length (shared_objs (vc_sent vc ch bytes)) = length (shared_objs ch)"
    "ring_size (vc_sent vc ch bytes) = ring_size ch"
    by (simp_all add: vc_sent_def Let_def)
  show "vc_ring (vc_sent vc ch bytes) (proc_id vc) = vc_ring ch (proc_id vc)"
    using ring(1,2) ne by (simp add: vc_sent_def Let_def vc_ring_set_ring)
  show "llring_contents (vc_ring (vc_sent vc ch bytes) (1 - proc_id vc)) =
      llring_contents (vc_ring ch (1 - proc_id vc)) @
      (if 0 < llring_room (vc_ring ch (1 - proc_id vc)) then [ObjPtr (vc_top ch)] else [])"
    using ring(1,2) push(2) by (simp add: vc_sent_def Let_def vc_ring_set_ring)
qed

lemma vc_sent_payload:
  assumes "vc_wf ch" and "length bytes < MAX_SHARED_OBJ_SIZE"
  shows "obj_payload (shared_objs (vc_sent vc ch bytes)) p =
    (if p = ObjPtr (vc_top ch) then bytes else obj_payload (shared_objs ch) p)"
  using vc_wf_top(1) [OF assms(1)] assms(2)
  by (auto simp: vc_sent_def Let_def vc_fill_def obj_payload_other obj_payload_filled)

text \<open>The messages that wait for the two sides after a send, whatever was in flight.\<close>

lemma vc_sent_pending:
  assumes "vc_wf ch" and "vc_side vc ch" and "length bytes < MAX_SHARED_OBJ_SIZE"
  defines "pay \<equiv> \<lambda>p. if p = ObjPtr (vc_top ch) then bytes else obj_payload (shared_objs ch) p"
  shows "vc_pending (vc_sent vc ch bytes) (proc_id vc) =
      map pay (llring_contents (vc_ring ch (proc_id vc)))"
    and "vc_pending (vc_sent vc ch bytes) (1 - proc_id vc) =
      map pay (llring_contents (vc_ring ch (1 - proc_id vc))) @
      (if 0 < llring_room (vc_ring ch (1 - proc_id vc)) then [bytes] else [])"
  using vc_sent_wf [OF assms(1-3)] vc_sent_payload [OF assms(1,3)]
  by (simp_all add: vc_pending_def pay_def)

lemma vc_in_flight_side:
  assumes "vc_side vc c"
  shows "set (vc_in_flight ch) =
      set (llring_contents (vc_ring ch (proc_id vc))) \<union> set (llring_contents (vc_ring ch (1 - proc_id vc)))"
    and "distinct (vc_in_flight ch) \<longleftrightarrow>
      distinct (llring_contents (vc_ring ch (proc_id vc)) @ llring_contents (vc_ring ch (1 - proc_id vc)))"
  using assms by (auto simp: vc_in_flight_def vc_side_def)

lemma vc_sent_fresh:
  assumes wf: "vc_wf ch" and side: "vc_side vc ch" and len: "length bytes < MAX_SHARED_OBJ_SIZE"
    and fresh: "vc_fresh ch" and free: "ObjPtr (vc_top ch) \<notin> set (vc_in_flight ch)"
  shows "vc_fresh (vc_sent vc ch bytes)"
proof -
  note sent = vc_sent_wf [OF wf side len]
  have objs: "shared_objs (vc_sent vc ch bytes) = (shared_objs ch)[vc_top ch :=
      filled_msg bytes (ring_top ch) (shared_objs ch ! vc_top ch)]"
    by (simp add: vc_sent_def Let_def vc_fill_def)
  have old: "valid (shared_objs (vc_sent vc ch bytes) ! obj_index p) \<noteq> 0" if "p \<in> set (vc_in_flight ch)" for p
  proof -
    have "valid (shared_objs ch ! obj_index p) \<noteq> 0" using fresh that by (simp add: vc_fresh_def)
    then show ?thesis
      by (cases "obj_index p = vc_top ch")
        (use vc_wf_top(1) [OF wf] in \<open>simp_all add: objs filled_msg_def\<close>)
  qed
  have new: "valid (shared_objs (vc_sent vc ch bytes) ! vc_top ch) \<noteq> 0"
    using vc_wf_top(1) [OF wf] by (simp add: objs filled_msg_def)
  show ?thesis
    unfolding vc_fresh_def vc_in_flight_side(2) [OF side] vc_in_flight_side(1) [OF side] sent(5,6)
    using fresh free old new unfolding vc_fresh_def vc_in_flight_side(2) [OF side] vc_in_flight_side(1) [OF side]
    by auto
qed

lemma vc_sent_home [simp]: "master_virt_addr (vc_sent vc ch bytes) = master_virt_addr ch"
  by (simp add: vc_sent_def Let_def)

text \<open>The state after a receive of the valid object \<open>p\<close> from the head of the ring.\<close>

definition vc_received :: "vchannel \<Rightarrow> shared_channel \<Rightarrow> msg_ptr \<Rightarrow> shared_channel" where
  "vc_received vc ch p =
     set_msg (set_ring ch (proc_id vc) (llring_pop (vc_ring ch (proc_id vc)) 1)) (obj_index p)
       ((shared_objs ch ! obj_index p)\<lparr>valid := 0, msg_size := 0\<rparr>)"

lemma set_msg_frame [simp]:
  "master_virt_addr (set_msg ch i m) = master_virt_addr ch"
  "vc_ring (set_msg ch i m) j = vc_ring ch j" "ring_size (set_msg ch i m) = ring_size ch"
  "vc_top (set_msg ch i m) = vc_top ch" "length (shared_objs (set_msg ch i m)) = length (shared_objs ch)"
  by (simp_all add: set_msg_def vc_ring_def vc_top_def)

lemma vc_received_home [simp]: "master_virt_addr (vc_received vc ch p) = master_virt_addr ch"
  by (simp add: vc_received_def)

lemma vc_side_cong: "master_virt_addr ch' = master_virt_addr ch \<Longrightarrow> vc_side vc ch' = vc_side vc ch"
  by (simp add: vc_side_def at_home_def)

lemma vc_received_wf:
  assumes wf: "vc_wf ch" and side: "vc_side vc ch"
    and first: "llring_contents (vc_ring ch (proc_id vc)) = p # ps"
  shows "vc_wf (vc_received vc ch p)" and "vc_top (vc_received vc ch p) = vc_top ch"
    and "ring_size (vc_received vc ch p) = ring_size ch"
    and "length (shared_objs (vc_received vc ch p)) = length (shared_objs ch)"
    and "llring_contents (vc_ring (vc_received vc ch p) (proc_id vc)) = ps"
    and "vc_ring (vc_received vc ch p) (1 - proc_id vc) = vc_ring ch (1 - proc_id vc)"
proof -
  note ring = vc_wf_ring [OF wf side]
  note pop = ring_wf_pop [OF ring(3) first]
  have ne: "proc_id vc \<noteq> 1 - proc_id vc" "0 \<le> 1 - proc_id vc" using side by (auto simp: vc_side_def)
  have "obj_index p < length (shared_objs ch)" using vc_wf_pointer [OF ring(3), of p] first by simp
  then have "shared_objs ch ! obj_index p \<in> set (shared_objs ch)" by simp
  then have "obj_wf (shared_objs ch ! obj_index p)" using wf by (auto simp: vc_wf_def)
  then have "obj_wf ((shared_objs ch ! obj_index p)\<lparr>valid := 0, msg_size := 0\<rparr>)"
    by (simp add: obj_wf_def MAX_SHARED_OBJ_SIZE_def)
  then show "vc_wf (vc_received vc ch p)"
    unfolding vc_received_def using set_ring_wf [OF wf, of "llring_pop (vc_ring ch (proc_id vc)) 1"] pop(1)
    by (intro set_msg_wf) simp_all
  show "vc_top (vc_received vc ch p) = vc_top ch"
    "length (shared_objs (vc_received vc ch p)) = length (shared_objs ch)"
    "ring_size (vc_received vc ch p) = ring_size ch"
    by (simp_all add: vc_received_def)
  show "llring_contents (vc_ring (vc_received vc ch p) (proc_id vc)) = ps"
    "vc_ring (vc_received vc ch p) (1 - proc_id vc) = vc_ring ch (1 - proc_id vc)"
    using ring(1,2) ne pop(2) by (simp_all add: vc_received_def vc_ring_set_ring)
qed

lemma vc_in_flight_pointer:
  assumes "vc_wf ch" and "vc_side vc ch" and "p \<in> set (vc_in_flight ch)"
  shows "p = ObjPtr (obj_index p)"
  using vc_wf_pointer(1) [OF vc_wf_ring(3) [OF assms(1,2)], of p]
    vc_wf_pointer(1) [OF vc_wf_other_ring(3) [OF assms(1,2)], of p] assms(3)
  by (auto simp: vc_in_flight_side [OF assms(2)])

lemma vc_received_fresh:
  assumes wf: "vc_wf ch" and side: "vc_side vc ch" and fresh: "vc_fresh ch"
    and first: "llring_contents (vc_ring ch (proc_id vc)) = p # ps"
  shows "vc_fresh (vc_received vc ch p)"
    and "vc_pending (vc_received vc ch p) (proc_id vc) = map (obj_payload (shared_objs ch)) ps"
    and "vc_pending (vc_received vc ch p) (1 - proc_id vc) = vc_pending ch (1 - proc_id vc)"
proof -
  note rec = vc_received_wf [OF wf side first]
  let ?rest = "ps @ llring_contents (vc_ring ch (1 - proc_id vc))"
  have p: "p = ObjPtr (obj_index p)" "p \<in> set (vc_in_flight ch)"
    using vc_wf_pointer(1) [OF vc_wf_ring(3) [OF wf side], of p] first vc_in_flight_side(1) [OF side] by simp_all
  have d: "p \<notin> set ?rest" "distinct ?rest"
    using fresh first unfolding vc_fresh_def vc_in_flight_side(2) [OF side] by auto
  have q: "q = ObjPtr (obj_index q) \<and> valid (shared_objs ch ! obj_index q) \<noteq> 0" if "q \<in> set ?rest" for q
  proof -
    have "q \<in> set (vc_in_flight ch)" using that first by (auto simp: vc_in_flight_side(1) [OF side])
    then show ?thesis using fresh vc_in_flight_pointer [OF wf side] by (auto simp: vc_fresh_def)
  qed
  have other: "obj_index q \<noteq> obj_index p" if "q \<in> set ?rest" for q
    using q [OF that] p(1) d(1) that by metis
  have objs: "shared_objs (vc_received vc ch p) =
      (shared_objs ch)[obj_index p := (shared_objs ch ! obj_index p)\<lparr>valid := 0, msg_size := 0\<rparr>]"
    by (simp add: vc_received_def set_msg_def)
  have "valid (shared_objs (vc_received vc ch p) ! obj_index r) \<noteq> 0" if "r \<in> set ?rest" for r
    using q [OF that] other [OF that] by (simp add: objs)
  then show "vc_fresh (vc_received vc ch p)"
    unfolding vc_fresh_def vc_in_flight_side(2) [OF side] vc_in_flight_side(1) [OF side] rec(5,6)
    using d(2) by auto
  have pay: "obj_payload (shared_objs (vc_received vc ch p)) r = obj_payload (shared_objs ch) r"
    if "r \<in> set ?rest" for r
    unfolding objs using d(1) that p(1) by (intro obj_payload_other) auto
  then show "vc_pending (vc_received vc ch p) (proc_id vc) = map (obj_payload (shared_objs ch)) ps"
    "vc_pending (vc_received vc ch p) (1 - proc_id vc) = vc_pending ch (1 - proc_id vc)"
    by (auto simp: vc_pending_def rec(5,6))
qed

text \<open>The two operations over the abstract states.\<close>

lemma vc_tx_msg_sent:
  assumes "vc_wf ch" and "vc_side vc ch" and "unat n < MAX_SHARED_OBJ_SIZE" and "unat n \<le> length buf"
  shows "vc_tx_msg vc ch buf n =
    Inr (if 0 < llring_room (vc_ring ch (1 - proc_id vc)) then 0 else -1, vc_sent vc ch (take (unat n) buf))"
  using vc_tx_msg_exact [OF assms(1-3), of "take (unat n) buf" "drop (unat n) buf"] assms(4)
  by (simp add: vc_sent_def Let_def)

lemma vc_rx_msg_received:
  assumes wf: "vc_wf ch" and side: "vc_side vc ch" and len: "unat n \<le> length buf" and fresh: "vc_fresh ch"
  shows "vc_rx_msg vc ch buf n =
    (case llring_contents (vc_ring ch (proc_id vc)) of [] \<Rightarrow> Inr (0, buf, ch)
     | p # _ \<Rightarrow>
         (let msg = obj_payload (shared_objs ch) p; k = min (length msg) (unat n) in
          Inr (int k, take k msg @ drop k buf, vc_received vc ch p)))"
proof (cases "llring_contents (vc_ring ch (proc_id vc))")
  case (Cons p ps)
  then have p: "p \<in> set (vc_in_flight ch)" using vc_in_flight_side(1) [OF side] by simp
  let ?m = "shared_objs ch ! obj_index p"
  have "obj_index p < length (shared_objs ch)"
    using vc_wf_pointer(2) [OF vc_wf_ring(3) [OF wf side], of p] Cons by simp
  then have "obj_wf ?m" using wf by (auto simp: vc_wf_def)
  then have l: "unat (msg_size ?m) \<le> length (data ?m)" by (simp add: obj_wf_def)
  have pay: "obj_payload (shared_objs ch) p = payload ?m"
    by (subst vc_in_flight_pointer [OF wf side p]) (simp add: obj_payload_def)
  have "valid ?m \<noteq> 0" using fresh p by (simp add: vc_fresh_def)
  then show ?thesis
    using vc_rx_msg_exact [OF wf side len] l
    by (simp add: Cons Let_def pay payload_def vc_received_def min_def)
qed (use vc_rx_msg_exact [OF wf side len] in \<open>simp add: Let_def\<close>)

section \<open>Traffic in one direction\<close>

text \<open>
  The side that sends and the side that receives when all messages go one way, both with the region
  at the address \<open>a\<close>: \<open>endpoint a b\<close> receives what \<open>endpoint a (\<not> b)\<close> sends.
\<close>

definition endpoint :: "u64 \<Rightarrow> bool \<Rightarrow> vchannel" where
  "endpoint a b = \<lparr>vc_name = [], proc_id = (if b then 1 else 0), vc_ch = a\<rparr>"

lemma endpoint_side [simp]: "vc_side (endpoint a b) ch \<longleftrightarrow> master_virt_addr ch = a"
  "1 - proc_id (endpoint a (\<not> b)) = proc_id (endpoint a b)" "1 - proc_id (endpoint a b) = proc_id (endpoint a (\<not> b))"
  by (auto simp: endpoint_def vc_side_def at_home_def)

text \<open>One message of a client: 1 to 1499 bytes, received into a buffer of the maximal size.\<close>

definition msg_ok :: "u8 list \<Rightarrow> bool" where
  "msg_ok bytes \<longleftrightarrow> 0 < length bytes \<and> length bytes < MAX_SHARED_OBJ_SIZE"

definition vc_put :: "vchannel \<Rightarrow> shared_channel \<Rightarrow> u8 list \<Rightarrow> (bool \<times> shared_channel) option" where
  "vc_put vc ch bytes =
     (case vc_tx_msg vc ch bytes (of_nat (length bytes)) of Inl _ \<Rightarrow> None | Inr (ret, ch) \<Rightarrow> Some (ret = 0, ch))"

definition vc_get :: "vchannel \<Rightarrow> shared_channel \<Rightarrow> (u8 list option \<times> shared_channel) option" where
  "vc_get vc ch =
     (case vc_rx_msg vc ch (replicate MAX_SHARED_OBJ_SIZE 0) (of_nat MAX_SHARED_OBJ_SIZE) of Inl _ \<Rightarrow> None
      | Inr (ret, buf, ch) \<Rightarrow> Some (if ret = 0 then None else Some (take (nat ret) buf), ch))"

text \<open>The queued objects are a run of consecutive pool objects that ends at \<open>ring_top\<close>.\<close>

definition pool_run :: "nat \<Rightarrow> nat \<Rightarrow> nat \<Rightarrow> msg_ptr list" where
  "pool_run pool start k = map (\<lambda>j. ObjPtr ((start + j) mod pool)) [0..<k]"

definition one_way :: "u64 \<Rightarrow> bool \<Rightarrow> shared_channel \<Rightarrow> bool" where
  "one_way a b ch \<longleftrightarrow> vc_wf ch \<and> vc_fresh ch \<and> master_virt_addr ch = a \<and>
     llring_contents (vc_ring ch (proc_id (endpoint a (\<not> b)))) = [] \<and>
     (\<forall>m \<in> set (vc_pending ch (proc_id (endpoint a b))). msg_ok m) \<and>
     (\<exists>start. let q = llring_contents (vc_ring ch (proc_id (endpoint a b))) in
        q = pool_run (length (shared_objs ch)) start (length q) \<and>
        vc_top ch = (start + length q) mod length (shared_objs ch))"

lemma length_pool_run [simp]: "length (pool_run pool start k) = k"
  by (simp add: pool_run_def)

lemma pool_run_Suc: "pool_run pool start (Suc k) = pool_run pool start k @ [ObjPtr ((start + k) mod pool)]"
  by (simp add: pool_run_def)

lemma pool_run_Cons: "pool_run pool start (Suc k) = ObjPtr (start mod pool) # pool_run pool (Suc start) k"
  by (rule nth_equalityI) (auto simp: pool_run_def nth_Cons simp del: upt_Suc split: nat.splits)

lemma pool_run_fresh: "k < pool \<Longrightarrow> ObjPtr ((start + k) mod pool) \<notin> set (pool_run pool start k)"
proof
  assume k: "k < pool" and "ObjPtr ((start + k) mod pool) \<in> set (pool_run pool start k)"
  then obtain j where j: "j < k" "(start + k) mod pool = (start + j) mod pool" by (auto simp: pool_run_def)
  then have "k = j" using k by (intro mod_add_right_inj [of k pool j start]) simp_all
  with j(1) show False by simp
qed

lemma one_way_ring:
  assumes "one_way a b ch"
  shows "vc_wf ch" and "vc_fresh ch"
    and "ring_wf (length (shared_objs ch)) (ring_size ch) (vc_ring ch (proc_id (endpoint a b)))"
    and "length (llring_contents (vc_ring ch (proc_id (endpoint a b)))) \<le> unat (ring_size ch) - 1"
    and "0 < llring_room (vc_ring ch (proc_id (endpoint a b))) \<longleftrightarrow>
      length (vc_pending ch (proc_id (endpoint a b))) < unat (ring_size ch) - 1"
    and "ObjPtr (vc_top ch) \<notin> set (vc_in_flight ch)"
    and "vc_side (endpoint a c) ch"
proof -
  show wf: "vc_wf ch" and "vc_fresh ch" and "vc_side (endpoint a c) ch" for c
    using assms by (simp_all add: one_way_def)
  have side: "vc_side (endpoint a b) ch" using assms by (simp add: one_way_def)
  show ring: "ring_wf (length (shared_objs ch)) (ring_size ch) (vc_ring ch (proc_id (endpoint a b)))"
    by (rule vc_wf_ring(3) [OF wf side])
  then show le: "length (llring_contents (vc_ring ch (proc_id (endpoint a b)))) \<le> unat (ring_size ch) - 1"
    using llring_inv_bound [of "vc_ring ch (proc_id (endpoint a b))"] by (auto simp: ring_wf_def)
  show "0 < llring_room (vc_ring ch (proc_id (endpoint a b))) \<longleftrightarrow>
      length (vc_pending ch (proc_id (endpoint a b))) < unat (ring_size ch) - 1"
    using ring llring_room_positive [of "vc_ring ch (proc_id (endpoint a b))"]
    by (auto simp: ring_wf_def vc_pending_def)
  obtain start where q: "llring_contents (vc_ring ch (proc_id (endpoint a b))) =
      pool_run (length (shared_objs ch)) start (length (llring_contents (vc_ring ch (proc_id (endpoint a b)))))"
    and t: "vc_top ch = (start + length (llring_contents (vc_ring ch (proc_id (endpoint a b))))) mod length (shared_objs ch)"
    and none: "llring_contents (vc_ring ch (proc_id (endpoint a (\<not> b)))) = []"
    using assms by (auto simp: one_way_def Let_def)
  have "length (shared_objs ch) = 2 * unat (ring_size ch)" "0 < length (shared_objs ch)"
    using wf by (auto simp: vc_wf_def COUNT_RINGS_def)
  with le have "length (llring_contents (vc_ring ch (proc_id (endpoint a b)))) < length (shared_objs ch)" by linarith
  note pool_run_fresh [OF this, of start, folded t, folded q]
  then show "ObjPtr (vc_top ch) \<notin> set (vc_in_flight ch)"
    by (simp add: vc_in_flight_side(1) [OF side] none)
qed

lemma one_way_put:
  assumes one: "one_way a b ch" and ok: "msg_ok bytes"
  shows "vc_put (endpoint a (\<not> b)) ch bytes =
      Some (length (vc_pending ch (proc_id (endpoint a b))) < unat (ring_size ch) - 1, vc_sent (endpoint a (\<not> b)) ch bytes)"
proof -
  note o = one_way_ring [OF one]
  have len: "unat (of_nat (length bytes) :: u32) = length bytes"
    using ok by (intro unat_of_nat_u32) (simp add: msg_ok_def MAX_SHARED_OBJ_SIZE_def)
  then show ?thesis
    using vc_tx_msg_sent [OF o(1) o(7) [of "\<not> b"], of "of_nat (length bytes)" bytes] ok o(5)
    by (simp add: vc_put_def msg_ok_def)
qed

lemma one_way_sent:
  assumes one: "one_way a b ch" and ok: "msg_ok bytes"
    and room: "length (vc_pending ch (proc_id (endpoint a b))) < unat (ring_size ch) - 1"
  shows "one_way a b (vc_sent (endpoint a (\<not> b)) ch bytes)"
    and "vc_pending (vc_sent (endpoint a (\<not> b)) ch bytes) (proc_id (endpoint a b)) =
      vc_pending ch (proc_id (endpoint a b)) @ [bytes]"
    and "ring_size (vc_sent (endpoint a (\<not> b)) ch bytes) = ring_size ch"
proof -
  note o = one_way_ring [OF one]
  have len: "length bytes < MAX_SHARED_OBJ_SIZE" using ok by (simp add: msg_ok_def)
  note sent = vc_sent_wf [OF o(1) o(7) [of "\<not> b"] len, simplified]
  have notin: "ObjPtr (vc_top ch) \<notin> set (llring_contents (vc_ring ch (proc_id (endpoint a b))))"
    using o(6) by (simp add: vc_in_flight_side(1) [OF o(7) [of b]])
  show pend: "vc_pending (vc_sent (endpoint a (\<not> b)) ch bytes) (proc_id (endpoint a b)) =
      vc_pending ch (proc_id (endpoint a b)) @ [bytes]"
    using vc_sent_pending(2) [OF o(1) o(7) [of "\<not> b"] len] o(5) room notin
    by (auto simp: vc_pending_def)
  show "ring_size (vc_sent (endpoint a (\<not> b)) ch bytes) = ring_size ch" by (rule sent(4))
  have fresh: "vc_fresh (vc_sent (endpoint a (\<not> b)) ch bytes)"
    by (rule vc_sent_fresh [OF o(1) o(7) len o(2) o(6)])
  from one obtain start where st: "llring_contents (vc_ring ch (proc_id (endpoint a b))) =
      pool_run (length (shared_objs ch)) start (length (llring_contents (vc_ring ch (proc_id (endpoint a b)))))"
    "vc_top ch = (start + length (llring_contents (vc_ring ch (proc_id (endpoint a b))))) mod length (shared_objs ch)"
    "llring_contents (vc_ring ch (proc_id (endpoint a (\<not> b)))) = []"
    by (auto simp: one_way_def Let_def)
  let ?k = "length (llring_contents (vc_ring ch (proc_id (endpoint a b))))"
  have room': "0 < llring_room (vc_ring ch (proc_id (endpoint a b)))" using o(5) room by simp
  have "llring_contents (vc_ring (vc_sent (endpoint a (\<not> b)) ch bytes) (proc_id (endpoint a b))) =
      pool_run (length (shared_objs ch)) start (Suc ?k)"
    using sent(6) st(1,2) room' by (simp add: pool_run_Suc)
  moreover have "(vc_top ch + 1) mod length (shared_objs ch) = (start + Suc ?k) mod length (shared_objs ch)"
    by (simp add: st(2) mod_simps)
  ultimately show "one_way a b (vc_sent (endpoint a (\<not> b)) ch bytes)"
    using sent(1-3,5) fresh pend st(3) ok one
    by (auto simp: one_way_def Let_def intro!: exI [of _ start])
qed

lemma one_way_get_empty:
  assumes one: "one_way a b ch" and none: "vc_pending ch (proc_id (endpoint a b)) = []"
  shows "vc_get (endpoint a b) ch = Some (None, ch)"
proof -
  note o = one_way_ring [OF one]
  show ?thesis
    using vc_rx_msg_received [OF o(1) o(7) [of b] _ o(2), of "of_nat MAX_SHARED_OBJ_SIZE"
        "replicate MAX_SHARED_OBJ_SIZE 0"] none
    by (simp add: vc_get_def MAX_SHARED_OBJ_SIZE_def vc_pending_def)
qed

lemma one_way_received:
  assumes one: "one_way a b ch" and q: "llring_contents (vc_ring ch (proc_id (endpoint a b))) = p # ps"
  shows "one_way a b (vc_received (endpoint a b) ch p)"
    and "vc_pending (vc_received (endpoint a b) ch p) (proc_id (endpoint a b)) = map (obj_payload (shared_objs ch)) ps"
    and "ring_size (vc_received (endpoint a b) ch p) = ring_size ch"
proof -
  note o = one_way_ring [OF one]
  note rec = vc_received_wf [OF o(1) o(7) q]
  note fresh = vc_received_fresh [OF o(1) o(7) o(2) q]
  have ok: "\<forall>m \<in> set (map (obj_payload (shared_objs ch)) ps). msg_ok m" "master_virt_addr ch = a"
    using one by (auto simp: one_way_def vc_pending_def q)
  from one obtain start where st: "llring_contents (vc_ring ch (proc_id (endpoint a b))) =
      pool_run (length (shared_objs ch)) start (Suc (length ps))"
    "vc_top ch = (start + Suc (length ps)) mod length (shared_objs ch)"
    "llring_contents (vc_ring ch (proc_id (endpoint a (\<not> b)))) = []"
    by (auto simp: one_way_def Let_def q)
  then have "ps = pool_run (length (shared_objs ch)) (Suc start) (length ps)"
    using q by (simp add: pool_run_Cons)
  then show "one_way a b (vc_received (endpoint a b) ch p)"
    using rec fresh(1,2) st(2,3) ok
    by (auto simp: one_way_def Let_def intro!: exI [of _ "Suc start"])
  show "vc_pending (vc_received (endpoint a b) ch p) (proc_id (endpoint a b)) = map (obj_payload (shared_objs ch)) ps"
    using fresh(2) by simp
  show "ring_size (vc_received (endpoint a b) ch p) = ring_size ch" by (rule rec(3))
qed

lemma one_way_get:
  assumes one: "one_way a b ch" and first: "vc_pending ch (proc_id (endpoint a b)) = bytes # rest"
  shows "\<exists>ch'. vc_get (endpoint a b) ch = Some (Some bytes, ch') \<and> one_way a b ch' \<and>
    vc_pending ch' (proc_id (endpoint a b)) = rest \<and> ring_size ch' = ring_size ch"
proof -
  note o = one_way_ring [OF one]
  let ?id = "proc_id (endpoint a b)"
  obtain p ps where q: "llring_contents (vc_ring ch ?id) = p # ps"
    and pay: "obj_payload (shared_objs ch) p = bytes" and rest: "map (obj_payload (shared_objs ch)) ps = rest"
    using first by (auto simp: vc_pending_def)
  have ok: "msg_ok bytes" using one first by (auto simp: one_way_def)
  have "vc_rx_msg (endpoint a b) ch (replicate MAX_SHARED_OBJ_SIZE 0) (of_nat MAX_SHARED_OBJ_SIZE) =
      Inr (int (length bytes), bytes @ drop (length bytes) (replicate MAX_SHARED_OBJ_SIZE 0),
           vc_received (endpoint a b) ch p)"
    using vc_rx_msg_received [OF o(1) o(7) [of b] _ o(2), of "of_nat MAX_SHARED_OBJ_SIZE"
        "replicate MAX_SHARED_OBJ_SIZE 0"] ok
    by (simp add: MAX_SHARED_OBJ_SIZE_def q pay Let_def msg_ok_def min_def)
  then have "vc_get (endpoint a b) ch = Some (Some bytes, vc_received (endpoint a b) ch p)"
    using ok by (simp add: vc_get_def msg_ok_def)
  with one_way_received [OF one q] rest show ?thesis by auto
qed

interpretation vq: credit_channel "one_way a b" "\<lambda>ch. vc_pending ch (proc_id (endpoint a b))"
    "\<lambda>ch. unat (ring_size ch) - 1" "vc_put (endpoint a (\<not> b))" "vc_get (endpoint a b)" msg_ok
  for a b
proof unfold_locales
  fix ch bytes rest assume one: "one_way a b ch"
  show "\<exists>ch'. vc_put (endpoint a (\<not> b)) ch bytes = Some (True, ch') \<and> one_way a b ch' \<and>
      vc_pending ch' (proc_id (endpoint a b)) = vc_pending ch (proc_id (endpoint a b)) @ [bytes] \<and>
      unat (ring_size ch') - 1 = unat (ring_size ch) - 1"
    if "msg_ok bytes" "length (vc_pending ch (proc_id (endpoint a b))) < unat (ring_size ch) - 1"
    using that one_way_put [OF one that(1)] one_way_sent [OF one that] by auto
  show "\<exists>ch'. vc_put (endpoint a (\<not> b)) ch bytes = Some (False, ch')"
    if "msg_ok bytes" "unat (ring_size ch) - 1 \<le> length (vc_pending ch (proc_id (endpoint a b)))"
    using that one_way_put [OF one that(1)] by auto
  show "vc_get (endpoint a b) ch = Some (None, ch)" if "vc_pending ch (proc_id (endpoint a b)) = []"
    using one that by (rule one_way_get_empty)
  show "\<exists>ch'. vc_get (endpoint a b) ch = Some (Some bytes, ch') \<and> one_way a b ch' \<and>
      vc_pending ch' (proc_id (endpoint a b)) = rest \<and> unat (ring_size ch') - 1 = unat (ring_size ch) - 1"
    if "vc_pending ch (proc_id (endpoint a b)) = bytes # rest"
    using one_way_get [OF one that] by auto
qed

section \<open>Properties\<close>

lemma vc_room:
  assumes "vc_wf ch" and "vc_side vc ch"
  shows "llring_room (vc_ring ch (1 - proc_id vc)) =
    unat (ring_size ch) - 1 - length (vc_pending ch (1 - proc_id vc))"
  using vc_wf_other_ring(3) [OF assms] by (simp add: llring_room_def ring_wf_def vc_pending_def)

text \<open>A concrete channel for the witnesses: two slots per ring and four pool objects, all idle.\<close>

definition demo_ring :: "msg_ptr llring" where
  "demo_ring = \<lparr>common_slots = 2, common_mask = 1, common_sp_enqueue = 0, common_sc_dequeue = 0,
     common_watermark = 2, prod_head = 0, prod_tail = 0, cons_head = 0, cons_tail = 0,
     ring_mem = [NullPtr, NullPtr]\<rparr>"

definition demo_channel :: shared_channel where
  "demo_channel = \<lparr>master_virt_addr = 4096, region_size = 8192, connected = 2, ring_size = 2,
     rings = [demo_ring, demo_ring], count_elements = 4, ring_top = 0,
     shared_objs = replicate 4 \<lparr>data = replicate MAX_SHARED_OBJ_SIZE 0, msg_size = 0, index = 0, valid = 0\<rparr>\<rparr>"

lemma demo_ring_idle: "llring_inv demo_ring" "llring_contents demo_ring = []"
  by (simp_all add: demo_ring_def llring_inv_def llring_geometry_def llring_contents_def)

lemma demo_channel_wf: "vc_wf demo_channel"
  using demo_ring_idle
  by (simp add: vc_wf_def demo_channel_def COUNT_RINGS_def ring_wf_def obj_wf_def MAX_SHARED_OBJ_SIZE_def)
    (simp add: demo_ring_def)

lemma demo_channel_facts [simp]:
  "master_virt_addr demo_channel = 4096"
  "ring_size demo_channel = 2" "vc_top demo_channel = 0" "vc_in_flight demo_channel = []"
  "length (shared_objs demo_channel) = 4" "vc_pending demo_channel (proc_id (endpoint a b)) = []"
  "vc_fresh demo_channel"
  by (simp_all add: demo_channel_def vc_top_def vc_in_flight_def vc_ring_def demo_ring_idle
      vc_pending_def vc_fresh_def endpoint_def)

lemma demo_side: "vc_side (endpoint 4096 b) demo_channel"
  by simp

lemma demo_one_way: "one_way 4096 b demo_channel"
  using demo_channel_wf by (auto simp: one_way_def Let_def demo_channel_def vc_ring_def demo_ring_idle
      endpoint_def pool_run_def vc_pending_def vc_top_def vc_fresh_def vc_in_flight_def intro!: exI [of _ 0])

text \<open>C25: on a well-formed channel, with a message below the object size and buffers that hold the
  given sizes, sending, receiving and counting never fault: no access outside a ring, the pool,
  an object or a buffer. Each keeps the channel well-formed; the count is the number of messages
  that wait for the caller.\<close>

theorem vc_ops_safe:
  assumes "vc_wf ch" and "vc_side vc ch"
    and "unat n < MAX_SHARED_OBJ_SIZE" and "unat n \<le> length buf" and "unat k \<le> length out"
  shows "(\<exists>ret ch'. vc_tx_msg vc ch buf n = Inr (ret, ch') \<and> vc_wf ch' \<and> ret \<in> {0, -1}) \<and>
    (\<exists>ret out' ch'. vc_rx_msg vc ch out k = Inr (ret, out', ch') \<and> vc_wf ch' \<and>
       length out' = length out \<and> 0 \<le> ret \<and> nat ret \<le> unat k) \<and>
    (\<exists>c. vc_count_msg vc ch = Inr c \<and> unat c = length (vc_pending ch (proc_id vc)))"
proof (intro conjI)
  note ring = vc_wf_ring [OF assms(1,2)]
  show "\<exists>ret ch'. vc_tx_msg vc ch buf n = Inr (ret, ch') \<and> vc_wf ch' \<and> ret \<in> {0, -1}"
    using vc_tx_msg_sent [OF assms(1-4)] vc_sent_wf(1) [OF assms(1,2), of "take (unat n) buf"] assms(3,4)
    by simp
  show "\<exists>c. vc_count_msg vc ch = Inr c \<and> unat c = length (vc_pending ch (proc_id vc))"
    using ring(1,2) lq.count_contents [OF ring(4)]
    by (simp add: vc_count_msg_def get_ring_def at_home_def vc_side_home [OF assms(2)] vc_pending_def flip: vc_ring_def)
  show "\<exists>ret out' ch'. vc_rx_msg vc ch out k = Inr (ret, out', ch') \<and> vc_wf ch' \<and>
      length out' = length out \<and> 0 \<le> ret \<and> nat ret \<le> unat k"
  proof (cases "llring_contents (vc_ring ch (proc_id vc))")
    case Nil
    then show ?thesis using vc_rx_msg_exact [OF assms(1,2,5)] assms(1) by (simp add: Let_def)
  next
    case (Cons p ps)
    let ?m = "shared_objs ch ! obj_index p"
    have "obj_index p < length (shared_objs ch)" using vc_wf_pointer(2) [OF ring(3), of p] Cons by simp
    then have "obj_wf ?m" using assms(1) by (auto simp: vc_wf_def)
    moreover have "vc_wf (set_ring ch (proc_id vc) (llring_pop (vc_ring ch (proc_id vc)) 1))"
      using set_ring_wf [OF assms(1)] ring_wf_pop(1) [OF ring(3) Cons] by simp
    ultimately show ?thesis
      using vc_rx_msg_exact [OF assms(1,2,5)] vc_received_wf(1) [OF assms(1,2) Cons] assms(5)
      by (auto simp: Cons Let_def vc_received_def obj_wf_def)
  qed
qed

theorem vc_ops_safe_witness:
  "(\<exists>ret ch'. vc_tx_msg (endpoint 4096 False) demo_channel [1, 2, 3] 3 = Inr (ret, ch') \<and> vc_wf ch') \<and>
   (\<exists>ret out' ch'. vc_rx_msg (endpoint 4096 False) demo_channel [0, 0] 2 = Inr (ret, out', ch') \<and> vc_wf ch')"
  using vc_ops_safe [OF demo_channel_wf demo_side, of 3 "[1, 2, 3]" 2 "[0, 0]" False]
  by (auto simp: MAX_SHARED_OBJ_SIZE_def)

text \<open>C10: when the object at \<open>ring_top\<close> is not in flight, a send appends the message to those that
  wait for the other side exactly when its ring has room, returns -1 and leaves them alone
  otherwise, never disturbs the messages of the own side, and keeps the channel fresh.\<close>

theorem vc_tx_refines:
  assumes "vc_wf ch" and "vc_side vc ch" and "vc_fresh ch" and "ObjPtr (vc_top ch) \<notin> set (vc_in_flight ch)"
    and "unat n < MAX_SHARED_OBJ_SIZE" and "unat n \<le> length buf"
  shows "\<exists>ret ch'. vc_tx_msg vc ch buf n = Inr (ret, ch') \<and>
    (ret = 0 \<longleftrightarrow> length (vc_pending ch (1 - proc_id vc)) < unat (ring_size ch) - 1) \<and>
    vc_pending ch' (1 - proc_id vc) =
      vc_pending ch (1 - proc_id vc) @ (if ret = 0 then [take (unat n) buf] else []) \<and>
    vc_pending ch' (proc_id vc) = vc_pending ch (proc_id vc) \<and> vc_fresh ch'"
proof -
  have len: "length (take (unat n) buf) < MAX_SHARED_OBJ_SIZE" using assms(5,6) by simp
  note pend = vc_sent_pending [OF assms(1,2) len]
  have "ObjPtr (vc_top ch) \<notin> set (llring_contents (vc_ring ch (proc_id vc)))"
    "ObjPtr (vc_top ch) \<notin> set (llring_contents (vc_ring ch (1 - proc_id vc)))"
    using assms(4) by (auto simp: vc_in_flight_side(1) [OF assms(2)])
  then show ?thesis
    using pend vc_tx_msg_sent [OF assms(1,2,5,6)] vc_room [OF assms(1,2)]
      vc_sent_fresh [OF assms(1,2) len assms(3,4)]
    by (auto simp: vc_pending_def)
qed

theorem vc_tx_refines_witness:
  "\<exists>ch'. vc_tx_msg (endpoint 4096 False) demo_channel [1, 2, 3] 3 = Inr (0, ch') \<and>
     vc_pending ch' (proc_id (endpoint 4096 True)) = [[1, 2, 3]] \<and> vc_fresh ch'"
  using vc_tx_refines [OF demo_channel_wf demo_side, of 3 "[1, 2, 3]" False]
  by (auto simp: MAX_SHARED_OBJ_SIZE_def endpoint_side(3) [of 4096 False, simplified])

text \<open>C11: on a fresh channel a receive returns nothing when no message waits; otherwise it copies
  the oldest message, truncated to the caller's buffer, returns its length, removes exactly this
  message, leaves the other side's messages alone and keeps the channel fresh.\<close>

theorem vc_rx_refines:
  assumes "vc_wf ch" and "vc_side vc ch" and "vc_fresh ch" and "unat k \<le> length out"
  shows "case vc_pending ch (proc_id vc) of
      [] \<Rightarrow> vc_rx_msg vc ch out k = Inr (0, out, ch)
    | msg # msgs \<Rightarrow> \<exists>ch'. vc_rx_msg vc ch out k =
          Inr (int (min (length msg) (unat k)),
               take (unat k) msg @ drop (min (length msg) (unat k)) out, ch') \<and>
        vc_pending ch' (proc_id vc) = msgs \<and>
        vc_pending ch' (1 - proc_id vc) = vc_pending ch (1 - proc_id vc) \<and>
        vc_wf ch' \<and> vc_fresh ch'"
proof (cases "llring_contents (vc_ring ch (proc_id vc))")
  case Nil
  then show ?thesis using vc_rx_msg_received [OF assms(1,2,4,3)] by (simp add: vc_pending_def)
next
  case (Cons p ps)
  have t: "take (min (length xs) m) xs = take m xs" for xs :: "u8 list" and m by (simp add: min_def)
  show ?thesis
    using vc_rx_msg_received [OF assms(1,2,4,3)] vc_received_wf(1) [OF assms(1,2) Cons]
      vc_received_fresh [OF assms(1-3) Cons]
    by (auto simp: vc_pending_def Cons Let_def t)
qed

theorem vc_rx_refines_witness:
  "\<exists>ch ch'. vc_tx_msg (endpoint 4096 False) demo_channel [1, 2, 3] 3 = Inr (0, ch) \<and>
     vc_rx_msg (endpoint 4096 True) ch [9, 9] 2 = Inr (2, [1, 2], ch') \<and> vc_pending ch' 1 = []"
proof -
  let ?vc = "endpoint 4096 False" and ?ch = "vc_sent (endpoint 4096 False) demo_channel [1, 2, 3]"
  have len: "length [1, 2, 3 :: u8] < MAX_SHARED_OBJ_SIZE" by (simp add: MAX_SHARED_OBJ_SIZE_def)
  have room: "0 < llring_room (vc_ring demo_channel (proc_id (endpoint 4096 True)))"
    using one_way_ring(5) [OF demo_one_way [of True]] by simp
  have wf: "vc_wf ?ch" by (rule vc_sent_wf(1) [OF demo_channel_wf demo_side len])
  have fresh: "vc_fresh ?ch" by (rule vc_sent_fresh [OF demo_channel_wf demo_side len]) simp_all
  have id: "proc_id (endpoint 4096 True) = 1" "1 - proc_id ?vc = 1" by (simp_all add: endpoint_def)
  have none: "llring_contents (vc_ring demo_channel 1) = []"
    by (simp add: demo_channel_def vc_ring_def demo_ring_idle)
  have pend: "vc_pending ?ch 1 = [[1, 2, 3]]"
    using vc_sent_pending(2) [OF demo_channel_wf demo_side len, of False] room none id by simp
  have tx: "vc_tx_msg ?vc demo_channel [1, 2, 3] 3 = Inr (0, ?ch)"
    using vc_tx_msg_sent [OF demo_channel_wf demo_side, of 3 "[1, 2, 3]" False] room id
    by (simp add: MAX_SHARED_OBJ_SIZE_def)
  have "vc_side (endpoint 4096 True) ?ch" by simp
  from vc_rx_refines [OF wf this fresh, of 2 "[9, 9]"] pend tx id show ?thesis by auto
qed

text \<open>C8: traffic in one direction that never sends into a full ring is first-in first-out over any
  number of messages, wrapping the pool arbitrarily often: every send succeeds, nothing faults,
  and what was waiting followed by what was sent is what was received followed by what waits.\<close>

theorem vc_one_way_fifo:
  assumes "one_way a b ch" and "list_all msg_ok (puts_of ops)"
    and "ops_fit (unat (ring_size ch) - 1) (length (vc_pending ch (proc_id (endpoint a b)))) ops"
  shows "\<exists>outs ch'. queue_run (vc_put (endpoint a (\<not> b))) (vc_get (endpoint a b)) ch ops =
      Some (puts_of ops, outs, ch') \<and> one_way a b ch' \<and>
    vc_pending ch (proc_id (endpoint a b)) @ puts_of ops = outs @ vc_pending ch' (proc_id (endpoint a b))"
  using vq.run_within_credit [OF assms] by blast

theorem vc_one_way_fifo_witness:
  "\<exists>outs ch'. queue_run (vc_put (endpoint 4096 False)) (vc_get (endpoint 4096 True)) demo_channel
      [Put [1], Get, Put [2, 3], Get, Put [4], Get, Put [5], Get, Put [6]] =
      Some ([[1], [2, 3], [4], [5], [6]], outs, ch')"
  using vc_one_way_fifo [OF demo_one_way, where b = True and
      ops = "[Put [1], Get, Put [2, 3], Get, Put [4], Get, Put [5], Get, Put [6]]"]
  by (auto simp: msg_ok_def MAX_SHARED_OBJ_SIZE_def)

text \<open>C28: a send overwrites the object at \<open>ring_top\<close> even while a message in it still waits, in
  either direction: that waiting message becomes the new one. This happens also when the send
  itself is refused with -1, because the object is filled and \<open>ring_top\<close> advanced before the
  ring is asked.\<close>

theorem vc_tx_overwrites:
  assumes "vc_wf ch" and "vc_side vc ch" and "unat n < MAX_SHARED_OBJ_SIZE" and "unat n \<le> length buf"
    and "i = 0 \<or> i = 1" and "j < length (vc_pending ch i)"
    and "llring_contents (vc_ring ch i) ! j = ObjPtr (vc_top ch)"
  shows "\<exists>ch'. vc_tx_msg vc ch buf n =
      Inr (if length (vc_pending ch (1 - proc_id vc)) < unat (ring_size ch) - 1 then 0 else -1, ch') \<and>
    vc_pending ch' i ! j = take (unat n) buf"
proof -
  have len: "length (take (unat n) buf) < MAX_SHARED_OBJ_SIZE" using assms(3,4) by simp
  have j: "j < length (llring_contents (vc_ring ch i))" using assms(6) by (simp add: vc_pending_def)
  have "vc_pending (vc_sent vc ch (take (unat n) buf)) i ! j = take (unat n) buf"
    using vc_sent_pending [OF assms(1,2) len] assms(7) j
    by (rule_tac vc_side_cases [OF assms(2,5)]) (auto simp: nth_append)
  then show ?thesis using vc_tx_msg_sent [OF assms(1-4)] vc_room [OF assms(1,2)] by auto
qed

text \<open>
  The witness starts from the idle channel of two slots: one message is sent and accepted, three
  sends are refused because the receiver is slow, and the fifth send, refused too, replaces the
  accepted message.
\<close>

lemma sends_from_demo:
  defines "v \<equiv> endpoint 4096 False"
  shows "\<exists>c. foldl (vc_sent v) demo_channel [[1], [2], [3], [4]] = c \<and> vc_wf c \<and> vc_top c = 0 \<and>
    ring_size c = 2 \<and> llring_contents (vc_ring c 1) = [ObjPtr 0] \<and> vc_pending c 1 = [[1]] \<and>
    master_virt_addr c = 4096"
proof -
  have side: "1 - proc_id v = 1" "proc_id v = 0" by (simp_all add: v_def endpoint_def)
  have step: "vc_wf (vc_sent v c [x]) \<and> vc_top (vc_sent v c [x]) = (vc_top c + 1) mod 4 \<and>
      length (shared_objs (vc_sent v c [x])) = 4 \<and> ring_size (vc_sent v c [x]) = 2 \<and>
      llring_contents (vc_ring (vc_sent v c [x]) 1) =
        llring_contents (vc_ring c 1) @ (if vc_pending c 1 = [] then [ObjPtr (vc_top c)] else []) \<and>
      (ObjPtr (vc_top c) \<notin> set (llring_contents (vc_ring c 1)) \<longrightarrow>
        vc_pending (vc_sent v c [x]) 1 = vc_pending c 1 @ (if vc_pending c 1 = [] then [[x]] else []))"
    if c: "vc_wf c" "length (shared_objs c) = 4" "ring_size c = 2" "master_virt_addr c = 4096" for c x
  proof -
    have s: "vc_side v c" using c(4) by (simp add: v_def)
    have l: "length [x] < MAX_SHARED_OBJ_SIZE" by (simp add: MAX_SHARED_OBJ_SIZE_def)
    have room: "0 < llring_room (vc_ring c 1) \<longleftrightarrow> vc_pending c 1 = []"
      using vc_room [OF c(1) s] c(3) side(1) by simp
    show ?thesis
      using vc_sent_wf [OF c(1) s l] vc_sent_pending(2) [OF c(1) s l] c room
      unfolding side(1) by (auto simp: vc_pending_def)
  qed
  let ?c1 = "vc_sent v demo_channel [1]" and ?c2 = "vc_sent v (vc_sent v demo_channel [1]) [2]"
  have d: "vc_pending demo_channel 1 = []" "llring_contents (vc_ring demo_channel 1) = []"
    by (simp_all add: demo_channel_def vc_pending_def vc_ring_def demo_ring_idle)
  have s1: "vc_wf ?c1" "vc_top ?c1 = 1" "length (shared_objs ?c1) = 4" "ring_size ?c1 = 2"
      "llring_contents (vc_ring ?c1 1) = [ObjPtr 0]" "vc_pending ?c1 1 = [[1]]"
    using step [OF demo_channel_wf, of 1] d by simp_all
  have s2: "vc_wf ?c2" "vc_top ?c2 = 2" "length (shared_objs ?c2) = 4" "ring_size ?c2 = 2"
      "llring_contents (vc_ring ?c2 1) = [ObjPtr 0]" "vc_pending ?c2 1 = [[1]]"
    using step [OF s1(1,3,4), of 2] s1 by simp_all
  have s3: "vc_wf (vc_sent v ?c2 [3])" "vc_top (vc_sent v ?c2 [3]) = 3"
      "length (shared_objs (vc_sent v ?c2 [3])) = 4" "ring_size (vc_sent v ?c2 [3]) = 2"
      "llring_contents (vc_ring (vc_sent v ?c2 [3]) 1) = [ObjPtr 0]" "vc_pending (vc_sent v ?c2 [3]) 1 = [[1]]"
    using step [OF s2(1,3,4), of 3] s2 by simp_all
  show ?thesis using step [OF s3(1,3,4), of 4] s3 by simp
qed

theorem vc_tx_overwrites_witness:
  "\<exists>c. foldl (vc_sent (endpoint 4096 False)) demo_channel [[1], [2], [3], [4]] = c \<and> vc_pending c 1 = [[1]] \<and>
     (\<exists>c'. vc_tx_msg (endpoint 4096 False) c [5] 1 = Inr (-1, c') \<and> vc_pending c' 1 ! 0 = [5])"
proof -
  obtain c where c: "foldl (vc_sent (endpoint 4096 False)) demo_channel [[1], [2], [3], [4]] = c" "vc_wf c"
      "vc_top c = 0" "ring_size c = 2" "llring_contents (vc_ring c 1) = [ObjPtr 0]" "vc_pending c 1 = [[1]]"
      "master_virt_addr c = 4096"
    using sends_from_demo by blast
  have "1 - proc_id (endpoint 4096 False) = 1" by (simp add: endpoint_def)
  then show ?thesis
    using vc_tx_overwrites [OF c(2), of "endpoint 4096 False" 1 "[5]" 1 0] c
    by (auto simp: MAX_SHARED_OBJ_SIZE_def)
qed

end
