(* ===== verification/ChannelConnect.thy ===== *)
theory ChannelConnect
  imports VChannel
begin
text \<open>
  Setting up and leaving a channel (\<open>connect_shared_channel\<close> and \<open>disconnect\<close> of
  \<open>src/vchannel.c\<close>). What the operating system answers is an input, the record
  \<open>connect_env\<close>; what the code asks it to change is an output, a list of events. A region that
  the code creates is zero-filled by the system.
\<close>

section \<open>Layout of the region\<close>

definition SHM_PATH_MAX_SIZE :: nat where "SHM_PATH_MAX_SIZE = 256"
definition MULTI_PRODUCER :: u32 where "MULTI_PRODUCER = 0"
definition MULTI_CONSUMER :: u32 where "MULTI_CONSUMER = 0"

definition sizeof_shared_channel :: u64 where "sizeof_shared_channel = 64"
definition sizeof_interpose_msg :: u64 where "sizeof_interpose_msg = 1536"

definition ROUND_TO_64 :: "'w::len word \<Rightarrow> 'w word" where
  "ROUND_TO_64 x = (x + 64) AND (NOT 0x3f)"

text \<open>The byte count of a ring is an \<open>int\<close> that is converted to \<open>size_t\<close> after the rounding.\<close>

definition ring_region_size :: "u32 \<Rightarrow> u64" where
  "ring_region_size slots = scast (ROUND_TO_64 (llring_bytes_with_slots slots))"

definition shared_obj_memory_size :: "u32 \<Rightarrow> u64" where
  "shared_obj_memory_size slots = ROUND_TO_64 (scast (2 * slots) * sizeof_interpose_msg)"

definition shared_region_size :: "u32 \<Rightarrow> u64" where
  "shared_region_size slots =
     sizeof_shared_channel + 2 * ring_region_size slots + shared_obj_memory_size slots"

text \<open>Where ring \<open>i\<close> and the object pool start in the region.\<close>

definition ring_offset :: "u32 \<Rightarrow> u64 \<Rightarrow> u64" where
  "ring_offset slots i = sizeof_shared_channel + i * ring_region_size slots"

definition objs_offset :: "u32 \<Rightarrow> u64" where
  "objs_offset slots = sizeof_shared_channel + 2 * ring_region_size slots"

section \<open>Connecting\<close>

record channel_attr =
  attr_name :: string
  attr_ring_size :: u32

record connect_env =
  shm_create :: int
  ftruncate_ret :: int
  mmap_create :: "u64 option"
  shm_attach :: int
  fstat_ret :: int
  st_size :: u64
  mmap_attach :: "u64 option"
  munmap_ret :: int
  mmap_remap :: "u64 option"
  region :: shared_channel

datatype shm_event = ShmUnlink string | Ftruncate u64 | Munmap u64 u64

definition shm_path :: "string \<Rightarrow> string" where
  "shm_path name = take (SHM_PATH_MAX_SIZE - 2) (''/servant_'' @ name)"

text \<open>A zero-filled ring and the loop that initialises both rings; \<open>None\<close> when a size is refused.\<close>

definition blank_llring :: "u32 \<Rightarrow> msg_ptr llring" where
  "blank_llring slots = \<lparr>common_slots = 0, common_mask = 0, common_sp_enqueue = 0,
     common_sc_dequeue = 0, common_watermark = 0, prod_head = 0, prod_tail = 0, cons_head = 0,
     cons_tail = 0, ring_mem = replicate (unat slots) NullPtr\<rparr>"

fun init_rings :: "nat \<Rightarrow> u32 \<Rightarrow> msg_ptr llring list \<Rightarrow> msg_ptr llring list option c_result" where
  "init_rings 0 slots acc = Inr (Some acc)"
| "init_rings (Suc k) slots acc =
     c_bind (c_opt OutOfBounds (llring_init (blank_llring slots) slots MULTI_PRODUCER MULTI_CONSUMER))
       (\<lambda>(ret, r). if ret \<noteq> 0 then Inr None else init_rings k slots (acc @ [r]))"

definition init_objs :: "u64 \<Rightarrow> interpose_msg list" where
  "init_objs count = map (\<lambda>i. \<lparr>data = replicate MAX_SHARED_OBJ_SIZE 0, msg_size = 0,
     index = of_nat i, valid = 0\<rparr>) [0..<unat count]"

text \<open>The end of the function, common to the creator and to the one that attaches.\<close>

definition connect_finish ::
  "channel_attr \<Rightarrow> u64 \<Rightarrow> shared_channel \<Rightarrow> vchannel \<times> shared_channel" where
  "connect_finish attr buf ch =
     (\<lparr>vc_name = attr_name attr, proc_id = connected ch, vc_ch = buf\<rparr>,
      ch\<lparr>connected := connected ch + 1\<rparr>)"

definition connect_create ::
  "connect_env \<Rightarrow> channel_attr \<Rightarrow> (int \<times> (vchannel \<times> shared_channel) option \<times> shm_event list) c_result" where
  "connect_create env attr =
     (let slots = attr_ring_size attr; size = shared_region_size slots;
          path = shm_path (attr_name attr) in
      if ftruncate_ret env \<noteq> 0 then Inr (-1, None, [Ftruncate size, ShmUnlink path])
      else case mmap_create env of None \<Rightarrow> Inr (-1, None, [Ftruncate size, ShmUnlink path])
      | Some buf \<Rightarrow>
          c_bind (init_rings 2 slots []) (\<lambda>rs. case rs of
            None \<Rightarrow> Inr (-1, None, [Ftruncate size, Munmap buf size, ShmUnlink path])
          | Some rs \<Rightarrow>
              let ch = \<lparr>master_virt_addr = buf, region_size = size, connected = 0,
                        ring_size = slots, rings = rs, count_elements = scast (2 * slots),
                        ring_top = 0, shared_objs = init_objs (scast (2 * slots))\<rparr> in
              Inr (0, Some (connect_finish attr buf ch), [Ftruncate size])))"

definition connect_attach ::
  "connect_env \<Rightarrow> channel_attr \<Rightarrow> int \<times> (vchannel \<times> shared_channel) option \<times> shm_event list" where
  "connect_attach env attr =
     (let size = shared_region_size (attr_ring_size attr); path = shm_path (attr_name attr) in
      if shm_attach env < 0 then (-1, None, [])
      else if fstat_ret env \<noteq> 0 then (-1, None, [ShmUnlink path])
      else if st_size env < size then (-1, None, [ShmUnlink path])
      else case mmap_attach env of None \<Rightarrow> (-1, None, [ShmUnlink path])
      | Some buf \<Rightarrow>
          let ch = region env in
          if connected ch \<ge> int COUNT_RINGS then (-1, None, [Munmap buf size, ShmUnlink path])
          else if buf = master_virt_addr ch then (0, Some (connect_finish attr buf ch), [])
          else if munmap_ret env \<noteq> 0 then (-1, None, [Munmap buf size, ShmUnlink path])
          else case mmap_remap env of None \<Rightarrow> (-1, None, [Munmap buf size, ShmUnlink path])
          | Some buf' \<Rightarrow> (0, Some (connect_finish attr buf' ch), [Munmap buf size]))"

definition connect_shared_channel ::
  "connect_env \<Rightarrow> channel_attr \<Rightarrow> (int \<times> (vchannel \<times> shared_channel) option \<times> shm_event list) c_result" where
  "connect_shared_channel env attr =
     (if shm_create env > 0 then connect_create env attr else Inr (connect_attach env attr))"

text \<open>
  \<open>disconnect\<close> passes the address of its own \<open>ch\<close> field to \<open>munmap\<close>, here \<open>field_addr\<close>.
\<close>

definition disconnect ::
  "u64 \<Rightarrow> int \<Rightarrow> vchannel \<Rightarrow> shared_channel \<Rightarrow> int \<times> shared_channel \<times> shm_event list" where
  "disconnect field_addr munmap_result vc ch =
     (munmap_result, ch\<lparr>connected := connected ch - 1\<rparr>,
      [ShmUnlink (shm_path (vc_name vc)), Munmap field_addr (region_size ch)])"

section \<open>The layout fits the region\<close>

lemma and_not_mask_6: "x AND NOT 0x3f = x - take_bit 6 x" for x :: "'w::len word"
proof -
  have m: "(0x3f :: 'w word) = mask 6" by (simp add: mask_eq_exp_minus_1)
  have "(x AND NOT (mask 6)) + take_bit 6 x = x"
  proof -
    have "(x AND NOT (mask 6)) + (x AND mask 6) = (x AND NOT (mask 6)) OR (x AND mask 6)"
      by (rule disjunctive_add) (simp add: bit_simps)
    also have "\<dots> = x" by (rule bit_eqI) (auto simp: bit_simps)
    finally show ?thesis by (simp add: take_bit_eq_mask)
  qed
  then show ?thesis unfolding m by (simp add: eq_diff_eq)
qed

lemma unat_ROUND_TO_64:
  fixes x :: "'w::len word"
  assumes "unat x + 64 < 2 ^ LENGTH('w)"
  shows "unat (ROUND_TO_64 x) = 64 * ((unat x + 64) div 64)"
proof -
  have s: "unat (x + 64) = unat x + 64"
  proof -
    have "(64 :: nat) < 2 ^ LENGTH('w)" using assms by linarith
    then have "unat (64 :: 'w word) = 64" using unat_of_nat [of 64, where ?'a = 'w] by simp
    then show ?thesis using assms unat_add_lem [of x 64] by simp
  qed
  have t: "unat (take_bit 6 (x + 64)) = (unat x + 64) mod 64"
    by (simp only: unsigned_take_bit_eq s) (simp add: take_bit_eq_mod)
  have le: "take_bit 6 (x + 64) \<le> x + 64"
    unfolding word_le_nat_alt t s by simp
  have "unat (ROUND_TO_64 x) = (unat x + 64) - (unat x + 64) mod 64"
    unfolding ROUND_TO_64_def and_not_mask_6 unat_sub [OF le] t s ..
  then show ?thesis by (simp only: minus_mod_eq_mult_div)
qed

lemma unat_scast_u32: "unat w < 2 ^ 31 \<Longrightarrow> unat (scast w :: u64) = unat w" for w :: u32
proof -
  assume w: "unat w < 2 ^ 31"
  have "(scast w :: u64) = word_of_int (sint w)" by simp
  also have "\<dots> = of_nat (unat w)" by (simp add: sint_u32_small [OF w])
  also have "unat (of_nat (unat w) :: u64) = unat w"
    using w by (simp only: unat_of_nat) simp
  finally show ?thesis .
qed

text \<open>Up to \<open>2 ^ 20\<close> slots no size overflows; the sizes as naturals.\<close>

lemma region_sizes:
  assumes "unat slots \<le> 2 ^ 20"
  shows "unat (llring_bytes_with_slots slots) = 256 + 8 * unat slots"
    and "unat (ring_region_size slots) = 64 * ((8 * unat slots + 320) div 64)"
    and "unat (scast (2 * slots) :: u64) = 2 * unat slots"
    and "unat (shared_obj_memory_size slots) = 64 * (48 * unat slots + 1)"
proof -
  have two: "unat (2 * slots) = 2 * unat slots"
    using assms by (simp only: unat_word_ariths) simp
  show b: "unat (llring_bytes_with_slots slots) = 256 + 8 * unat slots"
    unfolding llring_bytes_with_slots_def sizeof_llring_def
    by (rule unat_of_nat_u32) (use assms in simp)
  have r: "unat (ROUND_TO_64 (llring_bytes_with_slots slots)) = 64 * ((8 * unat slots + 320) div 64)"
  proof -
    have "unat (llring_bytes_with_slots slots) + 64 = 8 * unat slots + 320" by (simp only: b)
    moreover have "8 * unat slots + 320 < 2 ^ LENGTH(32)" using assms by simp
    ultimately show ?thesis using unat_ROUND_TO_64 [of "llring_bytes_with_slots slots"] by (simp only:)
  qed
  have "64 * ((8 * unat slots + 320) div 64) \<le> 8 * unat slots + 320" by simp
  moreover have "8 * unat slots + 320 < 2 ^ 31" using assms by simp
  ultimately have "unat (ROUND_TO_64 (llring_bytes_with_slots slots)) < 2 ^ 31"
    unfolding r by (rule order.strict_trans1)
  from unat_scast_u32 [OF this] r
  show "unat (ring_region_size slots) = 64 * ((8 * unat slots + 320) div 64)"
    by (simp add: ring_region_size_def)
  have "unat (2 * slots) < 2 ^ 31" unfolding two using assms by simp
  from unat_scast_u32 [OF this] two show c: "unat (scast (2 * slots) :: u64) = 2 * unat slots" by simp
  have m: "unat ((scast (2 * slots) :: u64) * sizeof_interpose_msg) = 3072 * unat slots"
    using assms by (simp only: unat_word_ariths c sizeof_interpose_msg_def) simp
  have "unat (shared_obj_memory_size slots) = 64 * ((3072 * unat slots + 64) div 64)"
  proof -
    have "3072 * unat slots + 64 < 2 ^ LENGTH(64)" using assms by simp
    then show ?thesis
      using unat_ROUND_TO_64 [of "(scast (2 * slots) :: u64) * sizeof_interpose_msg"]
      by (simp only: m shared_obj_memory_size_def)
  qed
  moreover have "(3072 * unat slots + 64) div 64 = 48 * unat slots + 1" by simp
  ultimately show "unat (shared_obj_memory_size slots) = 64 * (48 * unat slots + 1)" by (simp only:)
qed

section \<open>Connecting and disconnecting\<close>

text \<open>The sizes a channel can have: one bit set, and small enough for the byte counts.\<close>

definition slots_ok :: "u32 \<Rightarrow> bool" where
  "slots_ok slots \<longleftrightarrow> slots AND (slots - 1) = 0 \<and> slots \<noteq> 0 \<and> unat slots \<le> 2 ^ 20"

lemma init_rings_two: "init_rings 2 = init_rings (Suc (Suc 0))"
  by (simp only: numeral_2_eq_2)

lemma init_rings_ok:
  assumes "slots_ok slots"
  obtains r where "init_rings 2 slots [] = Inr (Some [r, r])" and "llring_inv r"
    and "llring_contents r = []" and "common_slots r = slots" and "common_watermark r = slots"
proof -
  obtain r where "llring_init (blank_llring slots) slots MULTI_PRODUCER MULTI_CONSUMER = Some (0, r)"
      "llring_inv r" "llring_contents r = []" "common_slots r = slots" "common_watermark r = slots"
    using assms llring_init_accepts [of "blank_llring slots" slots MULTI_PRODUCER MULTI_CONSUMER]
    by (auto simp: slots_ok_def blank_llring_def)
  then show thesis by (intro that [of r]) (simp_all add: init_rings_two)
qed

lemma init_rings_refused:
  "slots AND (slots - 1) \<noteq> 0 \<Longrightarrow> init_rings 2 slots [] = Inr None"
  by (simp add: init_rings_two llring_init_def LLRING_ERR_NOPOW2_def)

text \<open>A channel nobody has used yet.\<close>

definition idle_channel :: "u32 \<Rightarrow> shared_channel \<Rightarrow> bool" where
  "idle_channel slots ch \<longleftrightarrow> vc_wf ch \<and> vc_fresh ch \<and> ring_size ch = slots \<and> vc_in_flight ch = []"

lemma idle_channel_one_way: "idle_channel slots ch \<Longrightarrow> one_way (master_virt_addr ch) b ch"
  using vc_wf_top(1) [of ch]
  by (auto simp: idle_channel_def one_way_def vc_in_flight_def endpoint_def vc_pending_def Let_def
      pool_run_def intro!: exI [of _ "vc_top ch"])

lemma created_channel:
  assumes ok: "slots_ok slots" and r: "llring_inv r" "llring_contents r = []" "common_slots r = slots"
      "common_watermark r = slots"
    and ch: "rings ch = [r, r]" "ring_size ch = slots" "count_elements ch = scast (2 * slots)"
      "ring_top ch = 0" "shared_objs ch = init_objs (scast (2 * slots))"
  shows "idle_channel slots ch"
proof -
  have cnt: "unat (scast (2 * slots) :: u64) = 2 * unat slots" and pos: "0 < unat slots"
    using ok region_sizes(3) [of slots] by (auto simp: slots_ok_def unat_gt_0)
  have "length (shared_objs ch) = 2 * unat slots" by (simp only: ch init_objs_def length_map length_upt cnt)
  moreover have "obj_wf m" if "m \<in> set (shared_objs ch)" for m
    using that by (auto simp only: ch init_objs_def set_map obj_wf_def) (simp_all add: MAX_SHARED_OBJ_SIZE_def)
  moreover have "unat slots \<le> 2 ^ 20" using ok by (simp add: slots_ok_def)
  ultimately have "vc_wf ch" using ch r pos cnt by (auto simp: vc_wf_def ring_wf_def COUNT_RINGS_def)
  moreover have "vc_in_flight ch = []" by (simp add: vc_in_flight_def vc_ring_def ch r)
  ultimately show ?thesis by (simp add: idle_channel_def vc_fresh_def ch)
qed

lemma connect_create_ok:
  assumes "slots_ok (attr_ring_size attr)" and "shm_create env > 0" and "ftruncate_ret env = 0"
    and "mmap_create env = Some buf"
  obtains ch where "connect_shared_channel env attr = Inr (0,
      Some (\<lparr>vc_name = attr_name attr, proc_id = 0, vc_ch = buf\<rparr>, ch),
      [Ftruncate (shared_region_size (attr_ring_size attr))])"
    and "idle_channel (attr_ring_size attr) ch" and "connected ch = 1" and "master_virt_addr ch = buf"
    and "region_size ch = shared_region_size (attr_ring_size attr)"
proof -
  obtain r where r: "init_rings 2 (attr_ring_size attr) [] = Inr (Some [r, r])" "llring_inv r"
      "llring_contents r = []" "common_slots r = attr_ring_size attr"
      "common_watermark r = attr_ring_size attr"
    using assms(1) by (rule init_rings_ok)
  show thesis
    by (rule that [OF _ created_channel [OF assms(1) r(2-5)]],
        simp add: connect_shared_channel_def connect_create_def assms Let_def r(1) connect_finish_def)
      simp_all
qed

lemma idle_channel_connected [simp]: "idle_channel slots (ch\<lparr>connected := n\<rparr>) \<longleftrightarrow> idle_channel slots ch"
  by (simp add: idle_channel_def vc_wf_def vc_fresh_def vc_in_flight_def vc_ring_def)

lemma vc_wf_connected [simp]: "vc_wf (ch\<lparr>connected := n\<rparr>) \<longleftrightarrow> vc_wf ch"
  by (simp add: vc_wf_def)

text \<open>
  On a region that is well-formed when it is attached, connecting yields one of the two sides of a
  well-formed channel, at home unless the region was mapped once more.
\<close>

lemma connect_safe:
  assumes "slots_ok (attr_ring_size attr)" and "vc_wf (region env)" and "0 \<le> connected (region env)"
  obtains ev where "connect_shared_channel env attr = Inr (-1, None, ev)"
  | vc ch ev where "connect_shared_channel env attr = Inr (0, Some (vc, ch), ev)" and "proc_id vc = 0 \<or> proc_id vc = 1" and "vc_wf ch"
    and "at_home vc ch \<or> shm_create env \<le> 0 \<and> mmap_remap env = Some (vc_ch vc)"
proof (cases "shm_create env > 0")
  case False
  then have c: "connect_shared_channel env attr = Inr (connect_attach env attr)"
    by (simp add: connect_shared_channel_def)
  have "(\<exists>ev. connect_attach env attr = (-1, None, ev)) \<or>
    (\<exists>vc ch ev. connect_attach env attr = (0, Some (vc, ch), ev) \<and> (proc_id vc = 0 \<or> proc_id vc = 1) \<and> vc_wf ch \<and>
      (at_home vc ch \<or> mmap_remap env = Some (vc_ch vc)))"
    using assms(2,3)
    by (auto simp: connect_attach_def Let_def connect_finish_def COUNT_RINGS_def at_home_def not_le
        split: option.splits)
  then show thesis using that c False by (elim disjE exE conjE) simp_all
next
  case True
  show thesis
  proof (cases "ftruncate_ret env = 0 \<and> mmap_create env \<noteq> None")
    case ok: True
    then obtain buf where "ftruncate_ret env = 0" "mmap_create env = Some buf" by blast
    from connect_create_ok [OF assms(1) True this] obtain ch where
      "connect_shared_channel env attr = Inr (0, Some (\<lparr>vc_name = attr_name attr, proc_id = 0, vc_ch = buf\<rparr>, ch),
        [Ftruncate (shared_region_size (attr_ring_size attr))])" "idle_channel (attr_ring_size attr) ch" "master_virt_addr ch = buf" by metis
    note made = this
    show thesis by (rule that(2) [OF made(1)]) (use made(2,3) in \<open>simp_all add: at_home_def idle_channel_def\<close>)
  next
    case False
    then have "\<exists>ev. connect_shared_channel env attr = Inr (-1, None, ev)"
      using True by (auto simp: connect_shared_channel_def connect_create_def Let_def)
    then show thesis using that(1) by blast
  qed
qed

section \<open>Properties\<close>

text \<open>The environment of a first and of a second process that both map the region at one address.\<close>

definition first_env :: connect_env where
  "first_env = \<lparr>shm_create = 3, ftruncate_ret = 0, mmap_create = Some 0x10000, shm_attach = -1,
     fstat_ret = -1, st_size = 0, mmap_attach = None, munmap_ret = 0, mmap_remap = None,
     region = demo_channel\<rparr>"

definition second_env :: "u64 \<Rightarrow> u64 option \<Rightarrow> shared_channel \<Rightarrow> connect_env" where
  "second_env buf remap ch = \<lparr>shm_create = -1, ftruncate_ret = 0, mmap_create = None, shm_attach = 4,
     fstat_ret = 0, st_size = region_size ch, mmap_attach = Some buf, munmap_ret = 0,
     mmap_remap = remap, region = ch\<rparr>"

definition demo_attr :: channel_attr where
  "demo_attr = \<lparr>attr_name = ''demo'', attr_ring_size = 4\<rparr>"

lemma demo_attr_ok: "slots_ok (attr_ring_size demo_attr)"
  by (simp add: slots_ok_def demo_attr_def)

text \<open>C29: up to \<open>2 ^ 20\<close> slots the region that is allocated holds the header, the two rings and the
  object pool one after the other, without overlap and 64-byte aligned: the byte count of each
  part ends where the next part starts, and the pool ends inside the region.\<close>

theorem channel_layout:
  assumes "unat slots \<le> 2 ^ 20"
  shows "unat sizeof_shared_channel \<le> unat (ring_offset slots 0) \<and>
    unat (ring_offset slots 0) + unat (llring_bytes_with_slots slots) \<le> unat (ring_offset slots 1) \<and>
    unat (ring_offset slots 1) + unat (llring_bytes_with_slots slots) \<le> unat (objs_offset slots) \<and>
    unat (objs_offset slots) + 2 * unat slots * unat sizeof_interpose_msg \<le> unat (shared_region_size slots) \<and>
    64 dvd unat (ring_offset slots 0) \<and> 64 dvd unat (ring_offset slots 1) \<and> 64 dvd unat (objs_offset slots)"
proof -
  note sizes = region_sizes [OF assms]
  let ?q = "(8 * unat slots + 320) div 64"
  have q: "?q \<le> 2 ^ 18" and lo: "256 + 8 * unat slots \<le> 64 * ?q" using assms by (simp, linarith)
  have r0: "unat (ring_offset slots 0) = 64"
    by (simp add: ring_offset_def sizeof_shared_channel_def)
  have r1: "unat (ring_offset slots 1) = 64 + 64 * ?q"
    using q by (simp only: ring_offset_def sizeof_shared_channel_def unat_word_ariths sizes(2) mult_1) simp
  have o: "unat (objs_offset slots) = 64 + 128 * ?q"
    using q by (simp only: objs_offset_def sizeof_shared_channel_def unat_word_ariths sizes(2)) simp
  have e: "shared_region_size slots = objs_offset slots + shared_obj_memory_size slots"
    by (simp add: shared_region_size_def objs_offset_def)
  have s: "unat (shared_region_size slots) = 64 + 128 * ?q + 64 * (48 * unat slots + 1)"
    unfolding e using q assms by (simp only: unat_word_ariths sizes(4) o) simp
  have "unat sizeof_shared_channel = 64" "unat sizeof_interpose_msg = 1536"
    by (simp_all add: sizeof_shared_channel_def sizeof_interpose_msg_def)
  then show ?thesis unfolding r0 r1 o s sizes(1) using lo by auto
qed

theorem channel_layout_witness:
  "unat (objs_offset 1024) + 2 * 1024 * 1536 \<le> unat (shared_region_size 1024)"
  using channel_layout [of 1024] by (simp add: sizeof_interpose_msg_def)

text \<open>C30: two processes that connect with the same name and an acceptable size get the two
  different sides of one idle, well-formed channel; a third one is refused, although its attempt
  removes the region's name from the system.\<close>

theorem connect_two_sides:
  assumes "slots_ok (attr_ring_size attr)"
    and "shm_create env > 0" and "ftruncate_ret env = 0" and "mmap_create env = Some buf"
  shows "\<exists>vc1 ch1. connect_shared_channel env attr =
      Inr (0, Some (vc1, ch1), [Ftruncate (shared_region_size (attr_ring_size attr))]) \<and>
    proc_id vc1 = 0 \<and> idle_channel (attr_ring_size attr) ch1 \<and>
    (\<exists>vc2 ch2. connect_shared_channel (second_env buf None ch1) attr = Inr (0, Some (vc2, ch2), []) \<and>
      proc_id vc2 = 1 \<and> vc_ch vc2 = vc_ch vc1 \<and> idle_channel (attr_ring_size attr) ch2 \<and>
      (\<exists>ev. connect_shared_channel (second_env buf None ch2) attr = Inr (-1, None, ev) \<and>
        ShmUnlink (shm_path (attr_name attr)) \<in> set ev))"
proof -
  obtain ch1 where ch1: "connect_shared_channel env attr = Inr (0,
      Some (\<lparr>vc_name = attr_name attr, proc_id = 0, vc_ch = buf\<rparr>, ch1),
      [Ftruncate (shared_region_size (attr_ring_size attr))])"
    "idle_channel (attr_ring_size attr) ch1" "connected ch1 = 1" "master_virt_addr ch1 = buf"
    "region_size ch1 = shared_region_size (attr_ring_size attr)"
    using assms by (rule connect_create_ok)
  then show ?thesis
    by (simp add: connect_shared_channel_def connect_attach_def second_env_def Let_def
        connect_finish_def COUNT_RINGS_def)
qed

theorem connect_two_sides_witness:
  "\<exists>vc1 ch1. connect_shared_channel first_env demo_attr =
     Inr (0, Some (vc1, ch1), [Ftruncate (shared_region_size 4)]) \<and> proc_id vc1 = 0 \<and> idle_channel 4 ch1"
  using connect_two_sides [OF demo_attr_ok, of first_env "0x10000"]
  by (auto simp: first_env_def) (auto simp: demo_attr_def)

text \<open>Connecting never faults; it returns 0 exactly when it hands out a handle, and every failure
  after the region's name was opened removes that name. A size that is not a power of two is
  refused by the creator, with the region unmapped again.\<close>

theorem connect_outcomes:
  assumes "slots_ok (attr_ring_size attr) \<or> attr_ring_size attr AND (attr_ring_size attr - 1) \<noteq> 0"
  shows "\<exists>ret res ev. connect_shared_channel env attr = Inr (ret, res, ev) \<and>
    (ret = 0 \<longleftrightarrow> res \<noteq> None) \<and> (ret \<noteq> 0 \<longrightarrow> ret = -1) \<and>
    (ret = -1 \<and> (0 < shm_create env \<or> 0 \<le> shm_attach env) \<longrightarrow>
      ShmUnlink (shm_path (attr_name attr)) \<in> set ev) \<and>
    (0 < shm_create env \<and> ret = 0 \<longrightarrow> slots_ok (attr_ring_size attr))"
proof (cases "shm_create env > 0")
  case False
  then show ?thesis
    by (auto simp: connect_shared_channel_def connect_attach_def Let_def split: option.split)
next
  case True
  show ?thesis
  proof (cases "slots_ok (attr_ring_size attr)")
    case ok: True
    then obtain r where "init_rings 2 (attr_ring_size attr) [] = Inr (Some [r, r])"
      by (rule init_rings_ok)
    then show ?thesis using True ok
      by (auto simp: connect_shared_channel_def connect_create_def Let_def split: option.split)
  next
    case False
    then have "init_rings 2 (attr_ring_size attr) [] = Inr None"
      using assms by (intro init_rings_refused) blast
    then show ?thesis using True
      by (auto simp: connect_shared_channel_def connect_create_def Let_def split: option.split)
  qed
qed

theorem connect_outcomes_witness:
  "\<exists>res ev. connect_shared_channel first_env \<lparr>attr_name = ''x'', attr_ring_size = 3\<rparr> = Inr (-1, res, ev) \<and>
     ShmUnlink (shm_path ''x'') \<in> set ev"
  using connect_outcomes [of "\<lparr>attr_name = ''x'', attr_ring_size = 3\<rparr>" first_env]
  by (auto simp: first_env_def slots_ok_def)

text \<open>A second process whose mapping must move asks for the creator's address without insisting;
  when the system answers with another address the connection succeeds all the same, although
  the pointers stored in the region are then not valid in this process and its first receive, its
  first count of messages and its first send of an acceptable size follow one of them.\<close>

theorem connect_wrong_address:
  assumes "shm_create env \<le> 0" and "0 \<le> shm_attach env" and "fstat_ret env = 0"
    and "shared_region_size (attr_ring_size attr) \<le> st_size env" and "connected (region env) < 2"
    and "mmap_attach env = Some buf" and "buf \<noteq> master_virt_addr (region env)"
    and "munmap_ret env = 0" and "mmap_remap env = Some buf'" and "buf' \<noteq> master_virt_addr (region env)"
    and "0 \<le> connected (region env)" and "vc_wf (region env)" and "unat n < MAX_SHARED_OBJ_SIZE"
  shows "\<exists>vc ch ev. connect_shared_channel env attr = Inr (0, Some (vc, ch), ev) \<and>
    vc_tx_msg vc ch msg n = Inl WildPointer \<and> vc_rx_msg vc ch out k = Inl WildPointer \<and>
    vc_count_msg vc ch = Inl WildPointer"
proof -
  let ?vc = "\<lparr>vc_name = attr_name attr, proc_id = connected (region env), vc_ch = buf'\<rparr>"
  let ?ch = "(region env)\<lparr>connected := connected (region env) + 1\<rparr>"
  have "connect_shared_channel env attr = Inr (0, Some (?vc, ?ch), [Munmap buf (shared_region_size (attr_ring_size attr))])"
    using assms by (simp add: connect_shared_channel_def connect_attach_def Let_def connect_finish_def COUNT_RINGS_def)
  moreover have "vc_wf ?ch" "proc_id ?vc = 0 \<or> proc_id ?vc = 1" "\<not> at_home ?vc ?ch"
    using assms(5,10-12) by (auto simp: at_home_def)
  note vc_away [OF this]
  ultimately show ?thesis using assms(13) by simp
qed

theorem connect_wrong_address_witness:
  "\<exists>vc ch ev. connect_shared_channel ((second_env 0x2000 (Some 0x3000) demo_channel)
       \<lparr>region := demo_channel\<lparr>connected := 1\<rparr>, st_size := shared_region_size 4\<rparr>) demo_attr =
       Inr (0, Some (vc, ch), ev) \<and> vc_tx_msg vc ch [7] 1 = Inl WildPointer"
proof -
  let ?env = "(second_env 0x2000 (Some 0x3000) demo_channel)
       \<lparr>region := demo_channel\<lparr>connected := 1\<rparr>, st_size := shared_region_size 4\<rparr>"
  have "shm_create ?env \<le> 0" "0 \<le> shm_attach ?env" "fstat_ret ?env = 0"
    "shared_region_size (attr_ring_size demo_attr) \<le> st_size ?env" "connected (region ?env) < 2"
    "mmap_attach ?env = Some 0x2000" "0x2000 \<noteq> master_virt_addr (region ?env)" "munmap_ret ?env = 0"
    "mmap_remap ?env = Some 0x3000" "0x3000 \<noteq> master_virt_addr (region ?env)" "0 \<le> connected (region ?env)"
    "vc_wf (region ?env)" "unat (1 :: u32) < MAX_SHARED_OBJ_SIZE"
    by (simp_all add: second_env_def demo_attr_def demo_channel_wf MAX_SHARED_OBJ_SIZE_def)
  from connect_wrong_address [OF this, of "[7]"] show ?thesis by blast
qed

end
