(* ===== verification/InterposeLink.thy ===== *)
theory InterposeLink
  imports ChannelConnect
begin

text \<open>
  The link between the Servant process and the interposed application
  (\<open>src/interpose_link.c\<close>): a channel of a fixed name and size. The static channel handle of
  the file is passed explicitly.
\<close>

definition interpose_attr :: channel_attr where
  "interpose_attr = \<lparr>attr_name = ''rx_data_inject'', attr_ring_size = 512\<rparr>"

definition setup_interpose_vchannel ::
  "connect_env \<Rightarrow> (int \<times> (vchannel \<times> shared_channel) option \<times> shm_event list) c_result" where
  "setup_interpose_vchannel env =
     c_bind (connect_shared_channel env interpose_attr)
       (\<lambda>(ret, res, ev). Inr (if ret \<noteq> 0 then -1 else 0, res, ev))"

definition setup_interpose_link ::
  "connect_env \<Rightarrow> (int \<times> (vchannel \<times> shared_channel) option \<times> shm_event list) c_result" where
  "setup_interpose_link env = setup_interpose_vchannel env"

definition teardown_interpose_link ::
  "u64 \<Rightarrow> int \<Rightarrow> vchannel \<Rightarrow> shared_channel \<Rightarrow> int \<times> shared_channel \<times> shm_event list" where
  "teardown_interpose_link field_addr munmap_result vc ch =
     (case disconnect field_addr munmap_result vc ch of (_, ch, ev) \<Rightarrow> (0, ch, ev))"

definition send_interpose_msg ::
  "vchannel \<Rightarrow> shared_channel \<Rightarrow> u8 list \<Rightarrow> u32 \<Rightarrow> (int \<times> shared_channel) c_result" where
  "send_interpose_msg vc ch buf size' = vc_tx_msg vc ch buf size'"

lemma interpose_attr_ok: "slots_ok (attr_ring_size interpose_attr)"
  by (simp add: interpose_attr_def slots_ok_def)

end
