(* ===== verification/Interpose.thy ===== *)
theory Interpose
  imports InterposeLink Step_Interface
begin
text \<open>
  The hooks that replace socket calls of the application (\<open>src/interpose/interpose.c\<close>, the
  \<open>RECVFROM\<close> build): the table of watched descriptors, \<open>epoll_ctl\<close>, \<open>epoll_wait\<close>, \<open>recvfrom\<close>
  and the one-time initialisation. The calls into the C library (\<open>libc_epoll_ctl\<close> and so on) and
  \<open>getsockname\<close> are inputs: their results are arguments.
\<close>

section \<open>The table of watched descriptors\<close>

definition MAX_EPOLL_FDS :: nat where "MAX_EPOLL_FDS = 16"
definition MAX_EPOLL_DATA :: nat where "MAX_EPOLL_DATA = 8"

text \<open>\<open>struct _my_ep_data\<close> and \<open>struct my_epoll_data\<close>.\<close>

record my_ep_data =
  ep_fd :: int
  ep_data :: u64

record my_epoll_data =
  epfd :: int
  following :: "my_ep_data list"

type_synonym epoll_table = "my_epoll_data list"

definition empty_slot :: my_ep_data where
  "empty_slot = \<lparr>ep_fd = 0, ep_data = 0\<rparr>"

text \<open>The static table, zero-initialised.\<close>

definition epdata_init :: epoll_table where
  "epdata_init = replicate MAX_EPOLL_FDS \<lparr>epfd = 0, following = replicate MAX_EPOLL_DATA empty_slot\<rparr>"

text \<open>\<open>_get_epoll_index\<close>: the loop over the entries from \<open>i\<close> on.\<close>

fun epoll_index_loop :: "epoll_table \<Rightarrow> int \<Rightarrow> nat \<Rightarrow> int \<Rightarrow> int" where
  "epoll_index_loop [] fd i min_empty = min_empty"
| "epoll_index_loop (e # es) fd i min_empty =
     (if epfd e = fd then int i
      else epoll_index_loop es fd (Suc i)
        (if epfd e = 0 \<and> (int i < min_empty \<or> min_empty < 0) then int i else min_empty))"

definition get_epoll_index :: "epoll_table \<Rightarrow> int \<Rightarrow> int" where
  "get_epoll_index tbl fd = epoll_index_loop tbl fd 0 (-1)"

section \<open>\<open>epoll_ctl\<close>\<close>

datatype epoll_op = EPOLL_CTL_ADD | EPOLL_CTL_MOD | EPOLL_CTL_DEL | EPOLL_CTL_OTHER

text \<open>The first slot that is free or already has the descriptor is written.\<close>

fun follow_loop :: "my_ep_data list \<Rightarrow> int \<Rightarrow> u64 \<Rightarrow> my_ep_data list" where
  "follow_loop [] fd data' = []"
| "follow_loop (s # ss) fd data' =
     (if ep_fd s = 0 \<or> ep_fd s = fd then s\<lparr>ep_fd := fd, ep_data := data'\<rparr> # ss
      else s # follow_loop ss fd data')"

definition unfollow :: "my_ep_data list \<Rightarrow> int \<Rightarrow> my_ep_data list" where
  "unfollow ss fd = map (\<lambda>s. if ep_fd s = fd then s\<lparr>ep_fd := 0\<rparr> else s) ss"

definition watch :: "my_epoll_data \<Rightarrow> int \<Rightarrow> int \<Rightarrow> u64 \<Rightarrow> my_epoll_data" where
  "watch ed efd fd data' =
     (if epfd ed = 0
      then ed\<lparr>epfd := efd, following := (following ed)[0 := \<lparr>ep_fd = fd, ep_data = data'\<rparr>]\<rparr>
      else ed\<lparr>following := follow_loop (following ed) fd data'\<rparr>)"

text \<open>
  \<open>sock_ret\<close> and \<open>port\<close> are what \<open>getsockname\<close> says about \<open>fd\<close>, \<open>libc_ret\<close> the result of the
  library's call, which the hook always makes last and returns.
\<close>

definition epoll_ctl ::
  "epoll_table \<Rightarrow> int \<Rightarrow> u16 \<Rightarrow> int \<Rightarrow> int \<Rightarrow> epoll_op \<Rightarrow> int \<Rightarrow> u64 \<Rightarrow> int \<times> epoll_table" where
  "epoll_ctl tbl sock_ret port libc_ret efd op' fd data' =
     (if sock_ret \<noteq> 0 \<or> port \<noteq> 8080 then (libc_ret, tbl)
      else let ep_index = get_epoll_index tbl efd in
        (libc_ret,
         if op' = EPOLL_CTL_ADD \<or> op' = EPOLL_CTL_MOD
         then (if ep_index \<ge> 0
               then tbl[nat ep_index := watch (tbl ! nat ep_index) efd fd data'] else tbl)
         else if op' = EPOLL_CTL_DEL
         then (if ep_index > 0
               then tbl[nat ep_index := (tbl ! nat ep_index)
                  \<lparr>following := unfollow (following (tbl ! nat ep_index)) fd\<rparr>] else tbl)
         else tbl))"

section \<open>\<open>epoll_wait\<close>\<close>

text \<open>
  What the hook returns: an event made up for the runtime's messages (the return value 1), or
  what the library's call with timeout 0 returned.
\<close>

datatype wait_result = FromRuntime u64 | FromLibc int

text \<open>
  One turn of the loop sees the channel and, when it is empty, the library's answer; the value
  \<open>None\<close> says that the given turns did not end the loop.
\<close>

fun epoll_wait_loop ::
  "vchannel \<Rightarrow> (shared_channel \<times> int) list \<Rightarrow> u64 \<Rightarrow> wait_result c_result option" where
  "epoll_wait_loop vc [] data' = None"
| "epoll_wait_loop vc ((ch, libc_ret) # turns) data' =
     (case vc_count_msg vc ch of
        Inl e \<Rightarrow> Some (Inl e)
      | Inr c \<Rightarrow> if c \<noteq> 0 then Some (Inr (FromRuntime data'))
                else if libc_ret \<noteq> 0 then Some (Inr (FromLibc libc_ret))
                else epoll_wait_loop vc turns data')"

fun first_followed :: "my_ep_data list \<Rightarrow> my_ep_data" where
  "first_followed [] = empty_slot"
| "first_followed (s # ss) = (if ep_fd s \<noteq> 0 then s else first_followed ss)"

definition epoll_wait ::
  "vchannel \<Rightarrow> epoll_table \<Rightarrow> int \<Rightarrow> (shared_channel \<times> int) list \<Rightarrow> int \<Rightarrow> int \<Rightarrow> int \<Rightarrow> wait_result c_result option" where
  "epoll_wait vc tbl libc_now turns efd maxevents timeout =
     (if maxevents < 1 then Some (Inr (FromLibc libc_now))
      else let i = get_epoll_index tbl efd in
        if i < 0 \<or> epfd (tbl ! nat i) \<noteq> efd then Some (Inr (FromLibc libc_now))
        else let d = first_followed (following (tbl ! nat i)) in
          if ep_fd d = 0 then Some (Inr (FromLibc libc_now))
          else epoll_wait_loop vc turns (ep_data d))"

section \<open>\<open>recvfrom\<close>\<close>

text \<open>\<open>sizeof(struct iphdr) + sizeof(struct udphdr)\<close>\<close>

definition HDRLEN :: nat where "HDRLEN = 28"

record sockaddr_in =
  sin_family :: u16
  sin_port :: "u8 list"
  s_addr :: "u8 list"

definition AF_INET :: u16 where "AF_INET = 2"

text \<open>
  The result: the library's own answer when the channel gave nothing, or the length left, the
  buffer and the address that was filled in. The caller may pass no address (\<open>has_addr\<close> false).
\<close>

datatype recv_result = RecvLibc | RecvChannel int "u8 list" sockaddr_in

definition recvfrom ::
  "vchannel \<Rightarrow> shared_channel \<Rightarrow> u8 list \<Rightarrow> u64 \<Rightarrow> bool \<Rightarrow> (recv_result \<times> shared_channel) c_result" where
  "recvfrom vc ch buf len has_addr =
     c_bind (vc_rx_msg vc ch buf (ucast len)) (\<lambda>(ret, buf, ch).
     if ret = 0 then Inr (RecvLibc, ch)
     else c_check has_addr NullDeref (
       c_check (22 \<le> length buf) OutOfBounds (
       let addr = \<lparr>sin_family = AF_INET, sin_port = take 2 (drop 20 buf), s_addr = take 4 (drop 12 buf)\<rparr>;
           ret = ret - int HDRLEN;
           n = unat (word_of_int ret :: u64) in
       c_check (HDRLEN + n \<le> length buf) OutOfBounds (
       Inr (RecvChannel ret (take n (drop HDRLEN buf) @ drop n buf) addr, ch)))))"

section \<open>One-time initialisation\<close>

text \<open>
  \<open>ensure_init\<close> by any number of threads below \<open>2 ^ 32\<close>, one access of the two static variables
  per step. A thread is outside, has seen \<open>init_done == 0\<close>, runs \<open>init\<close>, spins, or is past the
  call. \<open>inits\<close> counts the calls of \<open>init\<close>. A call from inside \<open>init\<close> (\<open>in_init\<close>) returns at once.
\<close>

datatype init_pc = IOut | IChecked | IInit | IWait | IReady

record init_state =
  init_cnt :: u32
  init_done :: bool
  pcs :: "init_pc list"
  inits :: nat

inductive ensure_init_step :: "init_state \<Rightarrow> init_state \<Rightarrow> bool" where
  i_check: "i < length (pcs s) \<Longrightarrow> pcs s ! i = IOut \<or> pcs s ! i = IReady \<Longrightarrow> \<not> init_done s \<Longrightarrow>
     ensure_init_step s (s\<lparr>pcs := (pcs s)[i := IChecked]\<rparr>)"
| i_pass: "i < length (pcs s) \<Longrightarrow> pcs s ! i = IOut \<Longrightarrow> init_done s \<Longrightarrow> ensure_init_step s s"
| i_first: "i < length (pcs s) \<Longrightarrow> pcs s ! i = IChecked \<Longrightarrow> init_cnt s = 0 \<Longrightarrow>
     ensure_init_step s (s\<lparr>init_cnt := init_cnt s + 1, pcs := (pcs s)[i := IInit], inits := Suc (inits s)\<rparr>)"
| i_other: "i < length (pcs s) \<Longrightarrow> pcs s ! i = IChecked \<Longrightarrow> init_cnt s \<noteq> 0 \<Longrightarrow>
     ensure_init_step s (s\<lparr>init_cnt := init_cnt s + 1, pcs := (pcs s)[i := IWait]\<rparr>)"
| i_done: "i < length (pcs s) \<Longrightarrow> pcs s ! i = IInit \<Longrightarrow>
     ensure_init_step s (s\<lparr>init_done := True, pcs := (pcs s)[i := IReady]\<rparr>)"
| i_wake: "i < length (pcs s) \<Longrightarrow> pcs s ! i = IWait \<Longrightarrow> init_done s \<Longrightarrow>
     ensure_init_step s (s\<lparr>pcs := (pcs s)[i := IReady]\<rparr>)"

definition init_start :: "nat \<Rightarrow> init_state" where
  "init_start threads = \<lparr>init_cnt = 0, init_done = False, pcs = replicate threads IOut, inits = 0\<rparr>"

definition has_added :: "init_pc \<Rightarrow> bool" where
  "has_added p \<longleftrightarrow> p = IInit \<or> p = IWait \<or> p = IReady"

definition adders :: "init_pc list \<Rightarrow> nat set" where
  "adders ps = {i. i < length ps \<and> has_added (ps ! i)}"

lemma adders_update:
  assumes "i < length ps"
  shows "has_added q \<Longrightarrow> adders (ps[i := q]) = insert i (adders ps)"
    and "\<not> has_added q \<Longrightarrow> adders (ps[i := q]) = adders ps - {i}"
    and "has_added (ps ! i) \<Longrightarrow> i \<in> adders ps" and "\<not> has_added (ps ! i) \<Longrightarrow> i \<notin> adders ps"
  using assms by (auto simp: adders_def nth_list_update split: if_splits)

lemma finite_adders [simp]: "finite (adders ps)" "card (adders ps) \<le> length ps"
proof -
  have "adders ps \<subseteq> {..<length ps}" by (auto simp: adders_def)
  then show "finite (adders ps)" "card (adders ps) \<le> length ps"
    using finite_subset card_mono [of "{..<length ps}" "adders ps"] by auto
qed

text \<open>At most one thread runs \<open>init\<close>.\<close>

definition one_init :: "init_pc list \<Rightarrow> bool" where
  "one_init ps \<longleftrightarrow> (\<forall>i < length ps. \<forall>j < length ps. ps ! i = IInit \<longrightarrow> ps ! j = IInit \<longrightarrow> i = j)"

lemma one_init_update: "one_init ps \<Longrightarrow> q \<noteq> IInit \<Longrightarrow> one_init (ps[i := q])"
  by (cases "i < length ps") (auto simp: one_init_def nth_list_update split: if_splits)

lemma one_init_first: "IInit \<notin> set ps \<Longrightarrow> one_init (ps[i := IInit])"
  by (cases "i < length ps") (auto simp: one_init_def nth_list_update in_set_conv_nth split: if_splits)

lemma one_init_gone:
  assumes "one_init ps" and "i < length ps" and "ps ! i = IInit" and "q \<noteq> IInit"
  shows "IInit \<notin> set (ps[i := q])"
proof
  assume "IInit \<in> set (ps[i := q])"
  then obtain j where "j < length ps" "ps[i := q] ! j = IInit" by (auto simp: in_set_conv_nth)
  then show False using assms by (auto simp: one_init_def nth_list_update split: if_splits)
qed

definition init_inv :: "init_state \<Rightarrow> bool" where
  "init_inv s \<longleftrightarrow> length (pcs s) < 2 ^ 32 \<and> init_cnt s = of_nat (card (adders (pcs s))) \<and>
     inits s = (if adders (pcs s) = {} then 0 else 1) \<and>
     (adders (pcs s) \<noteq> {} \<longrightarrow> init_done s \<or> IInit \<in> set (pcs s)) \<and>
     (init_done s \<longrightarrow> IInit \<notin> set (pcs s) \<and> adders (pcs s) \<noteq> {}) \<and>
     one_init (pcs s) \<and>
     (IReady \<in> set (pcs s) \<longrightarrow> init_done s)"

lemma init_cnt_zero:
  assumes "init_inv s"
  shows "init_cnt s = 0 \<longleftrightarrow> adders (pcs s) = {}"
proof -
  have "card (adders (pcs s)) < 2 ^ 32" 
    using assms finite_adders(2) [of "pcs s"] unfolding init_inv_def by linarith
  then have "unat (init_cnt s) = card (adders (pcs s))" using assms by (simp add: init_inv_def unat_of_nat_u32)
  then show ?thesis by (metis card_0_eq finite_adders(1) unat_eq_zero)
qed

lemma set_update_other: "x \<in> set (ps[i := q]) \<Longrightarrow> x \<noteq> q \<Longrightarrow> x \<in> set ps"
  by (meson insertE set_update_subset_insert subset_eq)

lemma set_update_keep: "x \<in> set ps \<Longrightarrow> i < length ps \<Longrightarrow> ps ! i \<noteq> x \<Longrightarrow> x \<in> set (ps[i := q])"
  by (metis in_set_conv_nth length_list_update nth_list_update_neq)

lemma set_update_iff:
  "i < length ps \<Longrightarrow> ps ! i \<noteq> x \<Longrightarrow> x \<noteq> q \<Longrightarrow> x \<in> set (ps[i := q]) \<longleftrightarrow> x \<in> set ps"
  using set_update_keep [of x ps i q] set_update_other [of x ps i q] by blast

text \<open>How a change of one thread's place shows in the set of threads that have added.\<close>

lemma init_update_same:
  assumes "i < length (pcs s)" and "has_added (pcs s ! i) = has_added q"
  shows "adders ((pcs s)[i := q]) = adders (pcs s)"
  using assms adders_update [OF assms(1)] by (cases "has_added q") auto

lemma init_no_adder:
  assumes "adders (pcs s) = {}" and "p \<in> set (pcs s)"
  shows "\<not> has_added p"
  using assms by (auto simp: adders_def in_set_conv_nth)

lemma ensure_init_step_inv: "ensure_init_step s s' \<Longrightarrow> init_inv s \<Longrightarrow> init_inv s'"
proof (induction rule: ensure_init_step.induct)
  case (i_check i s)
  have no: "IReady \<notin> set (pcs s)" using i_check by (auto simp: init_inv_def)
  then have out: "pcs s ! i = IOut" using i_check by (metis nth_mem)
  then have "adders ((pcs s)[i := IChecked]) = adders (pcs s)"
    using i_check by (intro init_update_same) (simp_all add: has_added_def)
  moreover have "IInit \<in> set ((pcs s)[i := IChecked]) \<longleftrightarrow> IInit \<in> set (pcs s)"
    using out i_check by (intro set_update_iff) simp_all
  moreover have "IReady \<notin> set ((pcs s)[i := IChecked])"
    using no set_update_other [of IReady "pcs s" i IChecked] by auto
  ultimately show ?case using i_check.prems by (auto simp: init_inv_def one_init_update)
next
  case (i_first i s)
  then have none: "adders (pcs s) = {}" using init_cnt_zero by blast
  have "adders ((pcs s)[i := IInit]) = {i}" using i_first none by (simp add: adders_update has_added_def)
  moreover have "IInit \<in> set ((pcs s)[i := IInit])" using i_first by (simp add: set_update_memI)
  moreover have "IReady \<notin> set ((pcs s)[i := IInit])"
    using init_no_adder [OF none, of IReady] set_update_other [of IReady "pcs s" i IInit]
    by (auto simp: has_added_def)
  moreover have "one_init ((pcs s)[i := IInit])"
    using init_no_adder [OF none, of IInit] by (intro one_init_first) (auto simp: has_added_def)
  moreover have "\<not> init_done s" using i_first.prems none by (auto simp: init_inv_def)
  ultimately show ?case using i_first none by (auto simp: init_inv_def one_init_update)
next
  case (i_other i s)
  then have some: "adders (pcs s) \<noteq> {}" using init_cnt_zero by blast
  have "adders ((pcs s)[i := IWait]) = insert i (adders (pcs s))" "i \<notin> adders (pcs s)"
    using i_other by (simp_all add: adders_update has_added_def)
  moreover have "IInit \<in> set ((pcs s)[i := IWait]) \<longleftrightarrow> IInit \<in> set (pcs s)"
    using i_other by (intro set_update_iff) simp_all
  moreover have "IReady \<in> set (pcs s)" if "IReady \<in> set ((pcs s)[i := IWait])"
    using set_update_other [OF that] by simp
  ultimately show ?case using i_other.prems some
    by (auto simp: init_inv_def one_init_update add.commute)
next
  case (i_done i s)
  have same: "adders ((pcs s)[i := IReady]) = adders (pcs s)"
    using i_done by (intro init_update_same) (simp_all add: has_added_def)
  have "i \<in> adders (pcs s)" using i_done by (simp add: adders_def has_added_def)
  moreover have "IInit \<notin> set ((pcs s)[i := IReady])"
    using i_done by (intro one_init_gone) (simp_all add: init_inv_def)
  ultimately show ?case using i_done.prems
    by (auto simp: init_inv_def same one_init_update)
next
  case (i_wake i s)
  have same: "adders ((pcs s)[i := IReady]) = adders (pcs s)"
    using i_wake by (intro init_update_same) (simp_all add: has_added_def)
  have "IInit \<notin> set ((pcs s)[i := IReady])" 
    using i_wake set_update_other [of IInit "pcs s" i IReady] by (auto simp: init_inv_def)
  then show ?case using i_wake
    by (auto simp: init_inv_def same one_init_update)
qed simp

lemma init_start_inv: "threads < 2 ^ 32 \<Longrightarrow> init_inv (init_start threads)"
proof -
  have "adders (replicate threads IOut) = {}" by (auto simp: adders_def has_added_def)
  then show "threads < 2 ^ 32 \<Longrightarrow> init_inv (init_start threads)" by (auto simp: init_inv_def init_start_def one_init_def)
qed

interpretation once: step_invariant ensure_init_step init_inv
  by unfold_locales (auto intro: ensure_init_step_inv)

section \<open>Lemmas on the table\<close>

text \<open>The position of the first element with a property.\<close>

fun first_index :: "('a \<Rightarrow> bool) \<Rightarrow> 'a list \<Rightarrow> nat option" where
  "first_index P [] = None"
| "first_index P (x # xs) = (if P x then Some 0 else map_option Suc (first_index P xs))"

lemma first_index_Some:
  "first_index P xs = Some i \<Longrightarrow> i < length xs \<and> P (xs ! i) \<and> (\<forall>j < i. \<not> P (xs ! j))"
proof (induction xs arbitrary: i)
  case (Cons x xs)
  then show ?case by (auto simp: nth_Cons less_Suc_eq_0_disj split: if_splits nat.splits)
qed simp

lemma first_index_None: "first_index P xs = None \<longleftrightarrow> (\<forall>x \<in> set xs. \<not> P x)"
  by (induction xs) auto

lemma epoll_index_loop_eq:
  "m < 0 \<or> m < int i \<Longrightarrow> epoll_index_loop tbl fd i m =
     (case first_index (\<lambda>e. epfd e = fd) tbl of Some j \<Rightarrow> int (i + j)
      | None \<Rightarrow> if m < 0 then (case first_index (\<lambda>e. epfd e = 0) tbl of Some j \<Rightarrow> int (i + j) | None \<Rightarrow> m)
                else m)"
proof (induction tbl arbitrary: i m)
  case (Cons e tbl)
  from Cons.prems have "\<not> (0 \<le> m \<and> int i < m)" by auto
  with Cons.IH [of "int i" "Suc i"] Cons.IH [of m "Suc i"] Cons.prems
  show ?case by (auto split: option.splits)
qed simp

lemma get_epoll_index_eq:
  "get_epoll_index tbl fd =
     (case first_index (\<lambda>e. epfd e = fd) tbl of Some j \<Rightarrow> int j
      | None \<Rightarrow> (case first_index (\<lambda>e. epfd e = 0) tbl of Some j \<Rightarrow> int j | None \<Rightarrow> -1))"
  by (auto simp: get_epoll_index_def epoll_index_loop_eq split: option.splits)

lemma get_epoll_index_range:
  "0 \<le> get_epoll_index tbl fd \<Longrightarrow> nat (get_epoll_index tbl fd) < length tbl \<and>
     (epfd (tbl ! nat (get_epoll_index tbl fd)) = fd \<or> epfd (tbl ! nat (get_epoll_index tbl fd)) = 0)"
  by (auto simp: get_epoll_index_eq dest: first_index_Some split: option.splits)

definition table_wf :: "epoll_table \<Rightarrow> bool" where
  "table_wf tbl \<longleftrightarrow> length tbl = MAX_EPOLL_FDS \<and> (\<forall>ed \<in> set tbl. length (following ed) = MAX_EPOLL_DATA) \<and>
     (\<forall>i < length tbl. \<forall>j < length tbl. epfd (tbl ! i) = epfd (tbl ! j) \<longrightarrow> epfd (tbl ! i) \<noteq> 0 \<longrightarrow> i = j)"

lemma epdata_init_wf: "table_wf epdata_init"
  by (auto simp: table_wf_def epdata_init_def MAX_EPOLL_FDS_def)

lemma length_follow_loop [simp]: "length (follow_loop ss fd d) = length ss"
  by (induction ss) auto

lemma length_unfollow [simp]: "length (unfollow ss fd) = length ss"
  by (simp add: unfollow_def)

lemma length_watch [simp]: "length (following (watch ed efd fd d)) = length (following ed)"
  by (simp add: watch_def)

lemma epfd_watch: "epfd ed = efd \<or> epfd ed = 0 \<Longrightarrow> epfd (watch ed efd fd d) = efd"
  by (auto simp: watch_def)

lemma get_epoll_index_row:
  assumes "table_wf tbl" and "n < length tbl" and "epfd (tbl ! n) = efd" and "efd \<noteq> 0"
  shows "get_epoll_index tbl efd = int n"
proof -
  have "\<exists>e \<in> set tbl. epfd e = efd" using assms(2,3) by auto
  then obtain k where k: "first_index (\<lambda>e. epfd e = efd) tbl = Some k"
    using first_index_None [of "\<lambda>e. epfd e = efd" tbl] by (cases "first_index (\<lambda>e. epfd e = efd) tbl") auto
  from first_index_Some [OF this] have "k < length tbl" "epfd (tbl ! k) = efd" by simp_all
  then have "k = n" using assms unfolding table_wf_def by metis
  then show ?thesis using k by (simp add: get_epoll_index_eq)
qed

text \<open>Replacing the row that the lookup selected.\<close>

lemma table_wf_update:
  assumes wf: "table_wf tbl" and i: "0 \<le> get_epoll_index tbl efd"
    and ed: "length (following ed) = MAX_EPOLL_DATA" "epfd ed = efd \<or> epfd ed = epfd (tbl ! nat (get_epoll_index tbl efd))"
  shows "table_wf (tbl[nat (get_epoll_index tbl efd) := ed])"
proof -
  let ?i = "nat (get_epoll_index tbl efd)"
  note r = get_epoll_index_range [OF i]
  have other: "?i = j" if "j < length tbl" "epfd (tbl ! j) = efd" "efd \<noteq> 0" for j
    using get_epoll_index_row [OF wf that] by simp
  have "set (tbl[?i := ed]) \<subseteq> insert ed (set tbl)" by (rule set_update_subset_insert)
  then have "\<forall>e \<in> set (tbl[?i := ed]). length (following e) = MAX_EPOLL_DATA"
    using wf ed(1) by (auto simp: table_wf_def)
  moreover have "a = b" if "a < length tbl" "b < length tbl" "epfd (tbl[?i := ed] ! a) = epfd (tbl[?i := ed] ! b)"
      "epfd (tbl[?i := ed] ! a) \<noteq> 0" for a b
    using that wf ed(2) r other [of a] other [of b]
    by (auto simp: table_wf_def nth_list_update split: if_splits)
  ultimately show ?thesis using wf by (simp add: table_wf_def)
qed

text \<open>Which slot is written.\<close>

lemma follow_loop_slot:
  "\<exists>s \<in> set ss. ep_fd s = 0 \<or> ep_fd s = fd \<Longrightarrow>
     \<exists>k < length ss. follow_loop ss fd d = ss[k := \<lparr>ep_fd = fd, ep_data = d\<rparr>] \<and>
       ep_fd (ss ! k) \<in> {0, fd} \<and> (\<forall>j < k. ep_fd (ss ! j) \<notin> {0, fd})"
proof (induction ss)
  case (Cons s ss)
  show ?case
  proof (cases "ep_fd s = 0 \<or> ep_fd s = fd")
    case True
    then show ?thesis by (intro exI [of _ 0]) auto
  next
    case False
    with Cons obtain k where "k < length ss" "follow_loop ss fd d = ss[k := \<lparr>ep_fd = fd, ep_data = d\<rparr>]"
      "ep_fd (ss ! k) \<in> {0, fd}" "\<forall>j < k. ep_fd (ss ! j) \<notin> {0, fd}" by auto
    then show ?thesis using False by (intro exI [of _ "Suc k"]) (auto simp: nth_Cons split: nat.splits)
  qed
qed simp

lemma nth_unfollow:
  "j < length ss \<Longrightarrow> unfollow ss fd ! j = (if ep_fd (ss ! j) = fd then (ss ! j)\<lparr>ep_fd := 0\<rparr> else ss ! j)"
  by (simp add: unfollow_def)

lemma first_followed_spec:
  "if \<exists>s \<in> set ss. ep_fd s \<noteq> 0 then ep_fd (first_followed ss) \<noteq> 0 \<and> first_followed ss \<in> set ss
   else first_followed ss = empty_slot"
  by (induction ss) auto

lemma epoll_wait_loop_eq:
  assumes "\<forall>(ch, l) \<in> set turns. vc_wf ch \<and> vc_side vc ch"
  shows "epoll_wait_loop vc turns d =
    map_option (\<lambda>(ch, l). Inr (if vc_pending ch (proc_id vc) \<noteq> [] then FromRuntime d else FromLibc l))
      (find (\<lambda>(ch, l). vc_pending ch (proc_id vc) \<noteq> [] \<or> l \<noteq> 0) turns)"
  using assms
proof (induction turns)
  case (Cons t turns)
  obtain ch l where t: "t = (ch, l)" by (cases t)
  with Cons.prems have wf: "vc_wf ch" "vc_side vc ch" by auto
  note ring = vc_wf_ring [OF wf]
  have "vc_count_msg vc ch = Inr (llring_count (vc_ring ch (proc_id vc)))"
    using ring(1,2) by (simp add: vc_count_msg_def get_ring_def vc_ring_def at_home_def vc_side_home [OF wf(2)])
  moreover have "llring_count (vc_ring ch (proc_id vc)) = 0 \<longleftrightarrow> vc_pending ch (proc_id vc) = []"
    using lq.count_zero [OF ring(4)] by (simp add: vc_pending_def)
  ultimately show ?case using Cons t by simp
qed simp

section \<open>Properties\<close>

text \<open>\<open>_get_epoll_index\<close> returns the first row of the descriptor, otherwise the first free
  row, otherwise -1.\<close>

theorem epoll_index_spec:
  "get_epoll_index tbl fd =
     (if \<exists>e \<in> set tbl. epfd e = fd then int (the (first_index (\<lambda>e. epfd e = fd) tbl))
      else if \<exists>e \<in> set tbl. epfd e = 0 then int (the (first_index (\<lambda>e. epfd e = 0) tbl))
      else -1)"
  using first_index_None [of "\<lambda>e. epfd e = fd" tbl] first_index_None [of "\<lambda>e. epfd e = 0" tbl]
  by (auto simp: get_epoll_index_eq split: option.splits)

text \<open>C26: \<open>epoll_ctl\<close> always returns what the library returned; it keeps the table well-formed (16
  rows of 8 slots, no descriptor in two rows), leaves it alone for sockets that are not bound to
  port 8080, and changes no row of another epoll descriptor.\<close>

theorem epoll_ctl_invariant:
  assumes "table_wf tbl" and "efd \<noteq> 0"
    and "epoll_ctl tbl sock_ret port libc_ret efd op' fd d = (ret, tbl')"
  shows "ret = libc_ret \<and> table_wf tbl' \<and> (sock_ret \<noteq> 0 \<or> port \<noteq> 8080 \<longrightarrow> tbl' = tbl) \<and>
    (\<forall>i < length tbl. epfd (tbl ! i) \<noteq> 0 \<longrightarrow> epfd (tbl ! i) \<noteq> efd \<longrightarrow> tbl' ! i = tbl ! i)"
proof -
  let ?i = "get_epoll_index tbl efd"
  have rows: "length (following (tbl ! j)) = MAX_EPOLL_DATA" if "j < length tbl" for j
    using assms(1) that by (simp add: table_wf_def)
  show ?thesis
  proof (cases "0 \<le> ?i")
    case True
    note r = get_epoll_index_range [OF True]
    have "table_wf (tbl[nat ?i := watch (tbl ! nat ?i) efd fd d])"
      using r rows epfd_watch by (intro table_wf_update [OF assms(1) True]) auto
    moreover have "table_wf (tbl[nat ?i := (tbl ! nat ?i)\<lparr>following := unfollow (following (tbl ! nat ?i)) fd\<rparr>])"
      using r rows by (intro table_wf_update [OF assms(1) True]) auto
    ultimately show ?thesis using assms r
      by (auto simp: epoll_ctl_def Let_def nth_list_update split: if_splits)
  next
    case False
    then show ?thesis using assms by (auto simp: epoll_ctl_def Let_def split: if_splits)
  qed
qed

theorem epoll_ctl_invariant_witness:
  "\<exists>tbl'. epoll_ctl epdata_init 0 8080 0 5 EPOLL_CTL_ADD 7 42 = (0, tbl') \<and> table_wf tbl'"
  using epoll_ctl_invariant [OF epdata_init_wf, of 5 0 8080 0 EPOLL_CTL_ADD 7 42]
  by (metis surj_pair zero_neq_numeral)

text \<open>C27: adding or modifying a watched socket writes one slot of the row of its epoll descriptor, if a
  row and a slot are left: slot 0 of a row that was free, otherwise the first slot that is free or
  has the socket already; the other slots of the row and all other rows stay as they are. Deleting the
  socket then frees exactly the slots of the row that have it, provided the row is not the first
  one of the table.\<close>

theorem epoll_ctl_add_delete:
  assumes "table_wf tbl" and "efd \<noteq> 0" and "fd \<noteq> 0" and "op' = EPOLL_CTL_ADD \<or> op' = EPOLL_CTL_MOD"
    and "i = get_epoll_index tbl efd" and "0 < i"
    and "epfd (tbl ! nat i) = 0 \<or> (\<exists>s \<in> set (following (tbl ! nat i)). ep_fd s = 0 \<or> ep_fd s = fd)"
    and "epoll_ctl tbl 0 8080 r1 efd op' fd d = (r1, tbl1)"
    and "epoll_ctl tbl1 0 8080 r2 efd EPOLL_CTL_DEL fd d = (r2, tbl2)"
  shows "epfd (tbl1 ! nat i) = efd \<and>
    (\<exists>k < 8. following (tbl1 ! nat i) = (following (tbl ! nat i))[k := \<lparr>ep_fd = fd, ep_data = d\<rparr>] \<and>
      (if epfd (tbl ! nat i) = 0 then k = 0
       else ep_fd (following (tbl ! nat i) ! k) \<in> {0, fd} \<and>
         (\<forall>j < k. ep_fd (following (tbl ! nat i) ! j) \<notin> {0, fd}))) \<and>
    epfd (tbl2 ! nat i) = efd \<and> length (following (tbl2 ! nat i)) = 8 \<and>
    (\<forall>j < 8. if ep_fd (following (tbl1 ! nat i) ! j) = fd
       then ep_fd (following (tbl2 ! nat i) ! j) = 0
       else following (tbl2 ! nat i) ! j = following (tbl1 ! nat i) ! j) \<and>
    (\<forall>n. n \<noteq> nat i \<longrightarrow> tbl1 ! n = tbl ! n \<and> tbl2 ! n = tbl ! n)"
proof -
  have i0: "0 \<le> get_epoll_index tbl efd" using assms(5,6) by simp
  note r = get_epoll_index_range [OF i0, folded assms(5)]
  have len: "length (following (tbl ! nat i)) = 8" using assms(1) r by (simp add: table_wf_def MAX_EPOLL_DATA_def)
  have t1: "tbl1 = tbl[nat i := watch (tbl ! nat i) efd fd d]"
    using assms(4,5,6,8) by (auto simp: epoll_ctl_def Let_def split: if_splits)
  then have row: "tbl1 ! nat i = watch (tbl ! nat i) efd fd d" "epfd (tbl1 ! nat i) = efd"
    using r epfd_watch by auto
  have slot: "\<exists>k < 8. following (tbl1 ! nat i) = (following (tbl ! nat i))[k := \<lparr>ep_fd = fd, ep_data = d\<rparr>] \<and>
      (if epfd (tbl ! nat i) = 0 then k = 0
       else ep_fd (following (tbl ! nat i) ! k) \<in> {0, fd} \<and>
         (\<forall>j < k. ep_fd (following (tbl ! nat i) ! j) \<notin> {0, fd}))"
  proof (cases "epfd (tbl ! nat i) = 0")
    case True
    then show ?thesis by (intro exI [of _ 0]) (simp add: row(1) watch_def)
  next
    case False
    then show ?thesis using assms(7) follow_loop_slot [of "following (tbl ! nat i)" fd d] len
      by (simp add: row(1) watch_def)
  qed
  have wf1: "table_wf tbl1"
  proof -
    have "epfd (watch (tbl ! nat i) efd fd d) = efd" using r by (intro epfd_watch) auto
    then show ?thesis unfolding t1 using len
      by (intro table_wf_update [OF assms(1) i0, folded assms(5)]) (simp_all add: MAX_EPOLL_DATA_def)
  qed
  have "nat i < length tbl1" using r by (simp add: t1)
  then have "get_epoll_index tbl1 efd = i"
    using get_epoll_index_row [OF wf1 _ row(2) assms(2)] assms(6) by simp
  then have t2: "tbl2 = tbl1[nat i := (tbl1 ! nat i)\<lparr>following := unfollow (following (tbl1 ! nat i)) fd\<rparr>]"
    using assms(6,9) by (auto simp: epoll_ctl_def Let_def split: if_splits)
  then have row2: "tbl2 ! nat i = (tbl1 ! nat i)\<lparr>following := unfollow (following (tbl1 ! nat i)) fd\<rparr>"
    using \<open>nat i < length tbl1\<close> by simp
  have len1: "length (following (tbl1 ! nat i)) = 8" using len row(1) by simp
  have "tbl1 ! n = tbl ! n \<and> tbl2 ! n = tbl ! n" if "n \<noteq> nat i" for n using that by (simp add: t1 t2)
  then show ?thesis using slot row(2) row2 len1 by (auto simp: nth_unfollow)
qed

theorem epoll_ctl_add_delete_witness:
  "\<exists>tbl0 tbl1 tbl2. epoll_ctl epdata_init 0 8080 0 5 EPOLL_CTL_ADD 7 42 = (0, tbl0) \<and>
     epoll_ctl tbl0 0 8080 0 6 EPOLL_CTL_ADD 8 43 = (0, tbl1) \<and>
     epoll_ctl tbl1 0 8080 0 6 EPOLL_CTL_DEL 8 43 = (0, tbl2) \<and>
     epfd (tbl1 ! 1) = 6 \<and> following (tbl1 ! 1) = (following (tbl0 ! 1))[0 := \<lparr>ep_fd = 8, ep_data = 43\<rparr>] \<and>
     tbl2 ! 0 = tbl0 ! 0"
proof -
  obtain tbl0 where t0: "epoll_ctl epdata_init 0 8080 0 5 EPOLL_CTL_ADD 7 42 = (0, tbl0)"
    by (simp add: epoll_ctl_def Let_def)
  obtain tbl1 where t1: "epoll_ctl tbl0 0 8080 0 6 EPOLL_CTL_ADD 8 43 = (0, tbl1)"
    by (simp add: epoll_ctl_def Let_def)
  obtain tbl2 where t2: "epoll_ctl tbl1 0 8080 0 6 EPOLL_CTL_DEL 8 43 = (0, tbl2)"
    by (simp add: epoll_ctl_def Let_def)
  have tbl0: "tbl0 = epdata_init[0 := watch (epdata_init ! 0) 5 7 42]"
    using t0 by (simp add: epoll_ctl_def Let_def get_epoll_index_def epdata_init_def MAX_EPOLL_FDS_def
        numeral_eq_Suc)
  have i: "get_epoll_index tbl0 6 = 1"
    by (simp add: tbl0 get_epoll_index_def epdata_init_def MAX_EPOLL_FDS_def watch_def numeral_eq_Suc)
  have free: "epfd (tbl0 ! 1) = 0" by (simp add: tbl0 epdata_init_def MAX_EPOLL_FDS_def)
  have wf: "table_wf tbl0"
    using table_wf_update [OF epdata_init_wf, of 5 "watch (epdata_init ! 0) 5 7 42"]
    by (simp add: tbl0 get_epoll_index_def epdata_init_def MAX_EPOLL_FDS_def numeral_eq_Suc watch_def)
  show ?thesis using epoll_ctl_add_delete [OF wf _ _ _ i [symmetric] _ _ t1 t2] free t0 t1 t2 by auto
qed

text \<open>In the first row of the table nothing is ever deleted (the guard is \<open>ep_index > 0\<close>):
  after a socket was added and deleted again on the first epoll descriptor, \<open>epoll_wait\<close> still
  reports the runtime's messages with the deleted socket's data.\<close>

theorem epoll_delete_first_row:
  assumes "efd \<noteq> 0" and "fd \<noteq> 0" and "0 < maxevents" and "vc_wf ch" and "vc_side vc ch"
    and "vc_pending ch (proc_id vc) \<noteq> []"
  shows "case epoll_ctl epdata_init 0 8080 0 efd EPOLL_CTL_ADD fd d of (_, tbl1) \<Rightarrow>
    epoll_ctl tbl1 0 8080 0 efd EPOLL_CTL_DEL fd d = (0, tbl1) \<and>
    epoll_wait vc tbl1 libc_now [(ch, 0)] efd maxevents timeout = Some (Inr (FromRuntime d))"
proof -
  let ?tbl = "epdata_init[0 := watch (epdata_init ! 0) efd fd d]"
  have i0: "get_epoll_index epdata_init efd = 0"
    using assms(1) by (simp add: get_epoll_index_def epdata_init_def MAX_EPOLL_FDS_def numeral_eq_Suc)
  have i1: "get_epoll_index ?tbl efd = 0"
    by (simp add: get_epoll_index_def epdata_init_def MAX_EPOLL_FDS_def numeral_eq_Suc watch_def)
  have f: "first_followed (following (?tbl ! 0)) = \<lparr>ep_fd = fd, ep_data = d\<rparr>" "epfd (?tbl ! 0) = efd"
    using assms(2) by (simp_all add: epdata_init_def MAX_EPOLL_FDS_def MAX_EPOLL_DATA_def watch_def
        empty_slot_def numeral_eq_Suc)
  have "epoll_wait vc ?tbl libc_now [(ch, 0)] efd maxevents timeout = Some (Inr (FromRuntime d))"
    using assms(2-6) epoll_wait_loop_eq [of "[(ch, 0)]" vc d] i1 f
    by (simp add: epoll_wait_def Let_def)
  moreover have "epoll_ctl epdata_init 0 8080 0 efd EPOLL_CTL_ADD fd d = (0, ?tbl)"
    using i0 by (simp add: epoll_ctl_def Let_def)
  moreover have "epoll_ctl ?tbl 0 8080 0 efd EPOLL_CTL_DEL fd d = (0, ?tbl)"
    using i1 by (simp add: epoll_ctl_def Let_def)
  ultimately show ?thesis by simp
qed

text \<open>A channel on which one message waits for side 1.\<close>

definition busy_channel :: "u8 list \<Rightarrow> shared_channel" where
  "busy_channel m = vc_sent (endpoint 4096 False) demo_channel m"

lemma busy_channel:
  assumes "msg_ok m"
  shows "vc_wf (busy_channel m)" and "vc_fresh (busy_channel m)"
    and "vc_pending (busy_channel m) (proc_id (endpoint 4096 True)) = [m]"
    and "vc_side (endpoint 4096 True) (busy_channel m)"
  using one_way_sent [OF demo_one_way [of True] assms] one_way_ring(1,2)
  by (auto simp: busy_channel_def)

theorem epoll_delete_first_row_witness:
  "case epoll_ctl epdata_init 0 8080 0 5 EPOLL_CTL_ADD 7 42 of (_, tbl1) \<Rightarrow>
     epoll_ctl tbl1 0 8080 0 5 EPOLL_CTL_DEL 7 42 = (0, tbl1) \<and>
     epoll_wait (endpoint 4096 True) tbl1 0 [(busy_channel [1], 0)] 5 1 0 = Some (Inr (FromRuntime 42))"
proof -
  have "msg_ok [1]" by (simp add: msg_ok_def MAX_SHARED_OBJ_SIZE_def)
  note b = busy_channel [OF this]
  show ?thesis using b(3) by (intro epoll_delete_first_row [OF _ _ _ b(1,4)]) simp_all
qed

text \<open>C32: for a watched epoll descriptor \<open>epoll_wait\<close> returns at the first turn in which a message
  from the runtime waits or the library reports something, the runtime first; it never returns 0,
  and as long as there is neither it does not return, whatever timeout the caller gave.\<close>

theorem epoll_wait_decides:
  assumes "\<forall>(ch, l) \<in> set turns. vc_wf ch \<and> vc_side vc ch" and "0 < maxevents"
    and "table_wf tbl" and "i < length tbl" and "epfd (tbl ! i) = efd" and "efd \<noteq> 0"
    and "s \<in> set (following (tbl ! i))" and "ep_fd s \<noteq> 0"
  shows "\<exists>d. d \<in> ep_data ` set (following (tbl ! i)) \<and>
    epoll_wait vc tbl libc_now turns efd maxevents timeout =
      map_option (\<lambda>(ch, l). Inr (if vc_pending ch (proc_id vc) \<noteq> [] then FromRuntime d else FromLibc l))
        (find (\<lambda>(ch, l). vc_pending ch (proc_id vc) \<noteq> [] \<or> l \<noteq> 0) turns) \<and>
    epoll_wait vc tbl libc_now turns efd maxevents timeout \<noteq> Some (Inr (FromLibc 0))"
proof -
  have idx: "get_epoll_index tbl efd = int i" by (rule get_epoll_index_row [OF assms(3-6)])
  let ?d = "first_followed (following (tbl ! i))"
  have d: "ep_fd ?d \<noteq> 0" "?d \<in> set (following (tbl ! i))"
    using first_followed_spec [of "following (tbl ! i)"] assms(7,8) by (auto split: if_splits)
  have eq: "epoll_wait vc tbl libc_now turns efd maxevents timeout = epoll_wait_loop vc turns (ep_data ?d)"
    using assms(2,5) idx d(1) by (simp add: epoll_wait_def Let_def)
  have "epoll_wait_loop vc turns (ep_data ?d) \<noteq> Some (Inr (FromLibc 0))"
    using assms(1) by (induction turns) (auto split: sum.splits if_splits)
  then show ?thesis using d(2) eq epoll_wait_loop_eq [OF assms(1)] by auto
qed

theorem epoll_wait_decides_witness:
  "epoll_wait (endpoint 4096 True) (epdata_init[0 := watch (epdata_init ! 0) 5 7 42]) 0
     [(demo_channel, 0), (demo_channel, 0), (busy_channel [1], 3)] 5 1 0 \<noteq> Some (Inr (FromLibc 0))"
proof -
  let ?tbl = "epdata_init[0 := watch (epdata_init ! 0) 5 7 42]"
  have wf: "table_wf ?tbl"
    using table_wf_update [OF epdata_init_wf, of 5 "watch (epdata_init ! 0) 5 7 42"]
    by (simp add: get_epoll_index_def epdata_init_def MAX_EPOLL_FDS_def numeral_eq_Suc watch_def)
  have "msg_ok [1]" by (simp add: msg_ok_def MAX_SHARED_OBJ_SIZE_def)
  note b = busy_channel [OF this]
  have "\<lparr>ep_fd = 7, ep_data = 42\<rparr> \<in> set (following (?tbl ! 0))"
    by (simp add: epdata_init_def MAX_EPOLL_FDS_def MAX_EPOLL_DATA_def watch_def numeral_eq_Suc)
  then show ?thesis
    using epoll_wait_decides [of "[(demo_channel, 0), (demo_channel, 0), (busy_channel [1], 3)]" "endpoint 4096 True"
        1 ?tbl 0 5 "\<lparr>ep_fd = 7, ep_data = 42\<rparr>" 0 0] wf b(1,4) demo_channel_wf
    by (auto simp: epdata_init_def MAX_EPOLL_FDS_def watch_def)
qed

lemma unat_ucast_u64: "unat w < 2 ^ 32 \<Longrightarrow> unat (ucast w :: u32) = unat w" for w :: u64
  by (simp add: unsigned_ucast_eq take_bit_nat_eq_self)

text \<open>The receive of a message that fits the caller's buffer.\<close>

lemma recvfrom_received:
  fixes len :: u64
  assumes wf: "vc_wf ch" and side: "vc_side vc ch" and fresh: "vc_fresh ch"
    and len: "unat len < 2 ^ 32" "unat len \<le> length buf"
    and first: "vc_pending ch (proc_id vc) = msg # msgs" and fits: "length msg \<le> unat len"
  shows "\<exists>ch'. vc_rx_msg vc ch buf (ucast len) = Inr (int (length msg), msg @ drop (length msg) buf, ch') \<and>
    vc_pending ch' (proc_id vc) = msgs \<and>
    (\<exists>p ps. llring_contents (vc_ring ch (proc_id vc)) = p # ps \<and> ch' = vc_received vc ch p)"
proof -
  have u: "unat (ucast len :: u32) = unat len" using len(1) by (rule unat_ucast_u64)
  obtain p ps where c: "llring_contents (vc_ring ch (proc_id vc)) = p # ps"
      "obj_payload (shared_objs ch) p = msg" "map (obj_payload (shared_objs ch)) ps = msgs"
    using first by (auto simp: vc_pending_def)
  have "vc_rx_msg vc ch buf (ucast len) = Inr (int (length msg), msg @ drop (length msg) buf, vc_received vc ch p)"
    using vc_rx_msg_received [OF wf side _ fresh, of "ucast len" buf] u len(2) fits c
    by (simp add: Let_def)
  then show ?thesis using vc_received_fresh(2) [OF wf side fresh c(1)] c(1,3) by auto
qed

text \<open>Receiving a datagram, on any channel whose first message for this side it is.\<close>

lemma recvfrom_strips:
  assumes "vc_wf ch" and "vc_side vc ch" and "vc_fresh ch"
    and "unat len < 2 ^ 32" and "unat len \<le> length buf"
    and "vc_pending ch (proc_id vc) = (hdr @ body) # msgs"
    and "length hdr = HDRLEN" and "HDRLEN + length body \<le> unat len"
  shows "\<exists>buf' ch'. recvfrom vc ch buf len True =
      Inr (RecvChannel (int (length body)) buf'
        \<lparr>sin_family = AF_INET, sin_port = take 2 (drop 20 hdr), s_addr = take 4 (drop 12 hdr)\<rparr>, ch') \<and>
    take (length body) buf' = body \<and> length buf' = length buf \<and> vc_pending ch' (proc_id vc) = msgs \<and>
    (\<exists>p ps. llring_contents (vc_ring ch (proc_id vc)) = p # ps \<and> ch' = vc_received vc ch p)"
proof -
  have "length (hdr @ body) \<le> unat len" using assms(7,8) by simp
  then obtain ch' where rx: "vc_rx_msg vc ch buf (ucast len) =
      Inr (int (length (hdr @ body)), (hdr @ body) @ drop (length (hdr @ body)) buf, ch')"
    "vc_pending ch' (proc_id vc) = msgs"
    "\<exists>p ps. llring_contents (vc_ring ch (proc_id vc)) = p # ps \<and> ch' = vc_received vc ch p"
    using recvfrom_received [OF assms(1-6)] by blast
  have n: "unat (of_nat (length body) :: u64) = length body"
    using assms(4,8) by (simp only: unat_of_nat) simp
  have l: "28 + length body \<le> length buf" using assms(5,8) by (simp add: HDRLEN_def)
  have hb: "take 2 (drop 20 (hdr @ xs)) = take 2 (drop 20 hdr)" "take 4 (drop 12 (hdr @ xs)) = take 4 (drop 12 hdr)"
    for xs using assms(7) by (simp_all add: HDRLEN_def)
  show ?thesis
    using rx l assms(7) n hb by (simp add: recvfrom_def HDRLEN_def Let_def)
qed

text \<open>When a datagram with its IPv4 and UDP header waits on the channel, \<open>recvfrom\<close> strips the
  28 header bytes, returns the payload and its length, and fills in the sender's port and address
  from the headers; the library is not called and the message is consumed.\<close>

theorem recvfrom_datagram:
  assumes "vc_wf ch" and "vc_side vc ch" and "vc_fresh ch"
    and "unat len < 2 ^ 32" and "unat len \<le> length buf"
    and "vc_pending ch (proc_id vc) = (hdr @ body) # msgs"
    and "length hdr = HDRLEN" and "HDRLEN + length body \<le> unat len"
  shows "\<exists>buf' ch'. recvfrom vc ch buf len True =
      Inr (RecvChannel (int (length body)) buf'
        \<lparr>sin_family = AF_INET, sin_port = take 2 (drop 20 hdr), s_addr = take 4 (drop 12 hdr)\<rparr>, ch') \<and>
    take (length body) buf' = body \<and> length buf' = length buf \<and> vc_pending ch' (proc_id vc) = msgs"
  using recvfrom_strips [OF assms] by blast

definition demo_datagram :: "u8 list" where
  "demo_datagram = replicate 12 0 @ [10, 0, 0, 1] @ replicate 4 0 @ [31, 144] @ replicate 6 0"

theorem recvfrom_datagram_witness:
  "\<exists>buf' ch'. recvfrom (endpoint 4096 True) (busy_channel (demo_datagram @ [1, 2, 3])) (replicate 40 0) 40 True =
     Inr (RecvChannel 3 buf' \<lparr>sin_family = AF_INET, sin_port = [31, 144], s_addr = [10, 0, 0, 1]\<rparr>, ch') \<and>
     take 3 buf' = [1, 2, 3]"
proof -
  have "msg_ok (demo_datagram @ [1, 2, 3])"
    by (simp add: msg_ok_def MAX_SHARED_OBJ_SIZE_def demo_datagram_def)
  note b = busy_channel [OF this]
  have h: "length demo_datagram = HDRLEN" "take 2 (drop 20 demo_datagram) = [31, 144]"
      "take 4 (drop 12 demo_datagram) = [10, 0, 0, 1]"
    by (simp_all add: demo_datagram_def HDRLEN_def)
  from recvfrom_datagram [OF b(1,4,2) _ _ b(3) h(1), of 40 "replicate 40 0"]
  show ?thesis by (auto simp: h HDRLEN_def numeral_3_eq_3)
qed

text \<open>A message shorter than the two headers makes the length negative and so the copy far
  larger than the buffer, and a caller that passes no address, as POSIX allows, makes the hook
  dereference a null pointer.\<close>

theorem recvfrom_faults:
  assumes "vc_wf ch" and "vc_side vc ch" and "vc_fresh ch"
    and "unat len < 2 ^ 32" and "unat len \<le> length buf" and "HDRLEN \<le> unat len"
    and "length buf < 2 ^ 63" and "vc_pending ch (proc_id vc) = msg # msgs" and "0 < length msg"
    and "length msg < HDRLEN"
  shows "recvfrom vc ch buf len True = Inl OutOfBounds \<and> recvfrom vc ch buf len False = Inl NullDeref"
proof -
  have "length msg \<le> unat len" using assms(6,10) by simp
  then obtain ch' where rx: "vc_rx_msg vc ch buf (ucast len) =
      Inr (int (length msg), msg @ drop (length msg) buf, ch')"
    using recvfrom_received [OF assms(1-5,8)] by blast
  have "unat (word_of_int (int (length msg) - int HDRLEN) :: u64) = 2 ^ 64 + length msg - HDRLEN"
  proof -
    have "(word_of_int (int (length msg) - int HDRLEN) :: u64) = of_nat (2 ^ 64 + length msg - HDRLEN)"
      using assms(10) by (simp add: HDRLEN_def of_nat_diff)
    moreover have "2 ^ 64 + length msg - HDRLEN < 2 ^ 64" using assms(10) by simp
    ultimately show ?thesis by (simp add: unat_of_nat)
  qed
  then have "\<not> HDRLEN + unat (word_of_int (int (length msg) - int HDRLEN) :: u64) \<le> length buf"
    using assms(7,10) by simp
  moreover have "length msg + (length buf - length msg) = length buf" "28 \<le> length buf"
    using assms(5,6,10) by (simp_all add: HDRLEN_def)
  ultimately show ?thesis using rx assms(9) by (simp add: recvfrom_def Let_def)
qed

theorem recvfrom_faults_witness:
  "recvfrom (endpoint 4096 True) (busy_channel [1, 2, 3]) (replicate 40 0) 40 True = Inl OutOfBounds"
proof -
  have "msg_ok [1, 2, 3]" by (simp add: msg_ok_def MAX_SHARED_OBJ_SIZE_def)
  note b = busy_channel [OF this]
  show ?thesis
    using recvfrom_faults [OF b(1,4,2) _ _ _ _ b(3), of 40 "replicate 40 0"]
    by (simp add: HDRLEN_def)
qed

text \<open>C24: with fewer than \<open>2 ^ 32\<close> threads \<open>init\<close> runs at most once; a thread that is past its first
  call finds the initialisation complete; and no thread waits in vain: when one spins and the
  initialisation is not complete, some thread is running it.\<close>

theorem init_runs_once:
  assumes "threads < 2 ^ 32" and "ensure_init_step\<^sup>*\<^sup>* (init_start threads) s"
  shows "inits s \<le> 1 \<and> (IReady \<in> set (pcs s) \<longrightarrow> init_done s \<and> inits s = 1) \<and>
    (init_done s \<longrightarrow> IInit \<notin> set (pcs s)) \<and>
    (IWait \<in> set (pcs s) \<longrightarrow> init_done s \<or> IInit \<in> set (pcs s))"
proof -
  have "init_inv s" using once.reached [OF assms(2)] init_start_inv [OF assms(1)] by blast
  moreover have "adders (pcs s) \<noteq> {}" if "IWait \<in> set (pcs s)"
    using init_no_adder [of s IWait] that by (auto simp: has_added_def)
  ultimately show ?thesis by (auto simp: init_inv_def)
qed

theorem init_runs_once_witness:
  "\<exists>s. ensure_init_step\<^sup>*\<^sup>* (init_start 2) s \<and> pcs s = [IInit, IOut] \<and> inits s \<le> 1"
proof -
  let ?a = "(init_start 2)\<lparr>pcs := [IChecked, IOut]\<rparr>"
  let ?b = "?a\<lparr>init_cnt := 1, pcs := [IInit, IOut], inits := 1\<rparr>"
  have "ensure_init_step (init_start 2) ?a"
    using i_check [of 0 "init_start 2"] by (simp add: init_start_def numeral_2_eq_2)
  moreover have "ensure_init_step ?a ?b"
    using i_first [of 0 ?a] by (simp add: init_start_def)
  ultimately have r: "ensure_init_step\<^sup>*\<^sup>* (init_start 2) ?b"
    by (meson rtranclp.simps converse_rtranclp_into_rtranclp)
  show ?thesis using init_runs_once [OF _ r] r by (intro exI [of _ ?b]) simp
qed

end
