(* ===== verification/XskApi.thy ===== *)
theory XskApi
  imports Servant_Prelude
begin
text \<open>
  The third-party interface of the data path: the four AF_XDP rings of libbpf, the two system
  calls that wake the kernel, the compiled packet program and the packet memory. It is a record
  of functions on a state \<open>'w\<close> that the model does not look into. \<open>xsk_laws\<close> states the
  documented behaviour of the rings over a view of that state; \<open>demo_api\<close> is an instance that
  keeps the laws.
\<close>

section \<open>The functions\<close>

datatype prod_ring = FillRing | TxRing
datatype cons_ring = CompRing | RxRing

text \<open>\<open>struct xdp_desc\<close>; the fill and completion rings use the address only.\<close>

record xdp_desc =
  d_addr :: u64
  d_len :: u32

text \<open>
  \<open>prod_reserve\<close> and \<open>cons_peek\<close> also return the index of the first entry. \<open>send_tx\<close> is the
  \<open>sendto\<close> of \<open>kick_tx\<close> with its result and \<open>errno\<close>, \<open>wake_rx\<close> the empty \<open>recvfrom\<close>.
  \<open>run_prog\<close> runs the program on the packet at an address: its verdict, the final length and
  the bytes to skip (\<open>trim_head\<close>, an \<open>int32_t\<close>).
\<close>

record 'w xsk_api =
  prod_reserve :: "prod_ring \<Rightarrow> u32 \<Rightarrow> 'w \<Rightarrow> int \<times> u32 \<times> 'w"
  prod_write :: "prod_ring \<Rightarrow> u32 \<Rightarrow> xdp_desc \<Rightarrow> 'w \<Rightarrow> 'w"
  prod_submit :: "prod_ring \<Rightarrow> u32 \<Rightarrow> 'w \<Rightarrow> 'w"
  needs_wakeup :: "'w \<Rightarrow> bool"
  cons_peek :: "cons_ring \<Rightarrow> u32 \<Rightarrow> 'w \<Rightarrow> u32 \<times> u32 \<times> 'w"
  cons_desc :: "cons_ring \<Rightarrow> u32 \<Rightarrow> 'w \<Rightarrow> xdp_desc"
  cons_release :: "cons_ring \<Rightarrow> u32 \<Rightarrow> 'w \<Rightarrow> 'w"
  wake_rx :: "'w \<Rightarrow> 'w"
  send_tx :: "'w \<Rightarrow> int \<times> int \<times> 'w"
  extract_addr :: "u64 \<Rightarrow> u64"
  add_offset :: "u64 \<Rightarrow> u64"
  run_prog :: "u64 \<Rightarrow> u32 \<Rightarrow> 'w \<Rightarrow> int \<times> u32 \<times> u32 \<times> 'w"
  umem_bytes :: "u64 \<Rightarrow> u32 \<Rightarrow> 'w \<Rightarrow> u8 list"
  udp_send :: "u8 list \<Rightarrow> 'w \<Rightarrow> int \<times> 'w"

section \<open>The view and the laws\<close>

text \<open>
  A producer ring: the entries given to the kernel so far, the entries reserved and not yet
  submitted, the index of the first of these. A consumer ring: the entries given back to the
  kernel so far, the entries peeked and not yet released, the index of the first of these.
\<close>

record prod_view =
  submitted :: "xdp_desc list"
  reserved :: "xdp_desc list"
  first_reserved :: u32

record cons_view =
  released :: "xdp_desc list"
  taken :: "xdp_desc list"
  first_taken :: u32

record xsk_view =
  pv :: "prod_ring \<Rightarrow> prod_view"
  cv :: "cons_ring \<Rightarrow> cons_view"

definition set_pv :: "prod_ring \<Rightarrow> prod_view \<Rightarrow> xsk_view \<Rightarrow> xsk_view" where
  "set_pv r p v = v\<lparr>pv := (pv v)(r := p)\<rparr>"

definition set_cv :: "cons_ring \<Rightarrow> cons_view \<Rightarrow> xsk_view \<Rightarrow> xsk_view" where
  "set_cv r c v = v\<lparr>cv := (cv v)(r := c)\<rparr>"

text \<open>Reserving takes all \<open>n\<close> entries or none; which of the two depends on the kernel.\<close>

definition reserve_law :: "'w xsk_api \<Rightarrow> ('w \<Rightarrow> xsk_view) \<Rightarrow> bool" where
  "reserve_law api view \<longleftrightarrow> (\<forall>r n w ret idx w'. prod_reserve api r n w = (ret, idx, w') \<longrightarrow>
     (let p = pv (view w) r in
      ret = 0 \<and> view w' = view w \<or>
      ret = int (unat n) \<and> unat n < 2 ^ 31 \<and> length (reserved p) + unat n < 2 ^ 32 \<and>
      idx = first_reserved p + of_nat (length (reserved p)) \<and>
      (\<exists>ds. length ds = unat n \<and> view w' = set_pv r (p\<lparr>reserved := reserved p @ ds\<rparr>) (view w))))"

definition write_law :: "'w xsk_api \<Rightarrow> ('w \<Rightarrow> xsk_view) \<Rightarrow> bool" where
  "write_law api view \<longleftrightarrow> (\<forall>r i d w. let p = pv (view w) r in
     i < length (reserved p) \<longrightarrow> length (reserved p) < 2 ^ 32 \<longrightarrow>
     view (prod_write api r (first_reserved p + of_nat i) d w) =
       set_pv r (p\<lparr>reserved := (reserved p)[i := d]\<rparr>) (view w))"

definition submit_law :: "'w xsk_api \<Rightarrow> ('w \<Rightarrow> xsk_view) \<Rightarrow> bool" where
  "submit_law api view \<longleftrightarrow> (\<forall>r n w. let p = pv (view w) r in
     unat n \<le> length (reserved p) \<longrightarrow>
     view (prod_submit api r n w) =
       set_pv r (p\<lparr>submitted := submitted p @ take (unat n) (reserved p),
                  reserved := drop (unat n) (reserved p), first_reserved := first_reserved p + n\<rparr>) (view w))"

text \<open>Peeking yields up to \<open>n\<close> further entries and does not give any back.\<close>

definition peek_law :: "'w xsk_api \<Rightarrow> ('w \<Rightarrow> xsk_view) \<Rightarrow> bool" where
  "peek_law api view \<longleftrightarrow> (\<forall>r n w k idx w'. cons_peek api r n w = (k, idx, w') \<longrightarrow>
     (let c = cv (view w) r in
      k \<le> n \<and> (k \<noteq> 0 \<longrightarrow> length (taken c) + unat k < 2 ^ 32 \<and>
        idx = first_taken c + of_nat (length (taken c))) \<and>
      (\<exists>ds. length ds = unat k \<and> view w' = set_cv r (c\<lparr>taken := taken c @ ds\<rparr>) (view w))))"

definition desc_law :: "'w xsk_api \<Rightarrow> ('w \<Rightarrow> xsk_view) \<Rightarrow> bool" where
  "desc_law api view \<longleftrightarrow> (\<forall>r i w. let c = cv (view w) r in
     i < length (taken c) \<longrightarrow> length (taken c) < 2 ^ 32 \<longrightarrow>
     cons_desc api r (first_taken c + of_nat i) w = taken c ! i)"

definition release_law :: "'w xsk_api \<Rightarrow> ('w \<Rightarrow> xsk_view) \<Rightarrow> bool" where
  "release_law api view \<longleftrightarrow> (\<forall>r n w. let c = cv (view w) r in
     unat n \<le> length (taken c) \<longrightarrow>
     view (cons_release api r n w) =
       set_cv r (c\<lparr>released := released c @ take (unat n) (taken c), taken := drop (unat n) (taken c),
                  first_taken := first_taken c + n\<rparr>) (view w))"

text \<open>System calls and the program leave the process's side of the rings alone.\<close>

definition other_law :: "'w xsk_api \<Rightarrow> ('w \<Rightarrow> xsk_view) \<Rightarrow> bool" where
  "other_law api view \<longleftrightarrow> (\<forall>w. view (wake_rx api w) = view w) \<and>
     (\<forall>w r e w'. send_tx api w = (r, e, w') \<longrightarrow> view w' = view w) \<and>
     (\<forall>a l w x n t w'. run_prog api a l w = (x, n, t, w') \<longrightarrow> view w' = view w) \<and>
     (\<forall>b w r w'. udp_send api b w = (r, w') \<longrightarrow> view w' = view w) \<and>
     (\<forall>a l w. length (umem_bytes api a l w) = unat l)"

definition xsk_laws :: "'w xsk_api \<Rightarrow> ('w \<Rightarrow> xsk_view) \<Rightarrow> bool" where
  "xsk_laws api view \<longleftrightarrow> reserve_law api view \<and> write_law api view \<and> submit_law api view \<and>
     peek_law api view \<and> desc_law api view \<and> release_law api view \<and> other_law api view"

lemma view_simps [simp]:
  "pv (set_pv r p v) = (pv v)(r := p)" "cv (set_pv r p v) = cv v"
  "pv (set_cv s c v) = pv v" "cv (set_cv s c v) = (cv v)(s := c)"
  by (simp_all add: set_pv_def set_cv_def)

lemma view_eqI: "pv v = pv v' \<Longrightarrow> cv v = cv v' \<Longrightarrow> v = v'" for v v' :: xsk_view
  by simp

lemma set_pv_twice [simp]: "set_pv r p (set_pv r q v) = set_pv r p v"
  by (simp add: set_pv_def)

lemma set_cv_twice [simp]: "set_cv r p (set_cv r q v) = set_cv r p v"
  by (simp add: set_cv_def)

lemma set_pv_cv: "set_cv r p (set_pv s q v) = set_pv s q (set_cv r p v)"
  by (simp add: set_pv_def set_cv_def)

section \<open>An instance\<close>

text \<open>
  The state is the view itself and the entries the kernel has ready for each consumer ring. A
  reservation succeeds while fewer than 64 entries are reserved and \<open>room\<close> is set.
\<close>

record demo_world =
  dview :: xsk_view
  ready :: "cons_ring \<Rightarrow> xdp_desc list"
  room :: "prod_ring \<Rightarrow> bool"

definition no_desc :: xdp_desc where "no_desc = \<lparr>d_addr = 0, d_len = 0\<rparr>"

definition demo_reserve :: "prod_ring \<Rightarrow> u32 \<Rightarrow> demo_world \<Rightarrow> int \<times> u32 \<times> demo_world" where
  "demo_reserve r n w =
     (let p = pv (dview w) r in
      if room w r \<and> length (reserved p) + unat n \<le> 64
      then (int (unat n), first_reserved p + of_nat (length (reserved p)),
            w\<lparr>dview := set_pv r (p\<lparr>reserved := reserved p @ replicate (unat n) no_desc\<rparr>) (dview w)\<rparr>)
      else (0, 0, w))"

definition demo_write :: "prod_ring \<Rightarrow> u32 \<Rightarrow> xdp_desc \<Rightarrow> demo_world \<Rightarrow> demo_world" where
  "demo_write r i d w = (let p = pv (dview w) r in
     w\<lparr>dview := set_pv r (p\<lparr>reserved := (reserved p)[unat (i - first_reserved p) := d]\<rparr>) (dview w)\<rparr>)"

definition demo_submit :: "prod_ring \<Rightarrow> u32 \<Rightarrow> demo_world \<Rightarrow> demo_world" where
  "demo_submit r n w = (let p = pv (dview w) r in
     w\<lparr>dview := set_pv r (p\<lparr>submitted := submitted p @ take (unat n) (reserved p),
       reserved := drop (unat n) (reserved p), first_reserved := first_reserved p + n\<rparr>) (dview w)\<rparr>)"

definition demo_peek :: "cons_ring \<Rightarrow> u32 \<Rightarrow> demo_world \<Rightarrow> u32 \<times> u32 \<times> demo_world" where
  "demo_peek r n w =
     (let c = cv (dview w) r; k = min (unat n) (min (length (ready w r)) (64 - length (taken c))) in
      (of_nat k, first_taken c + of_nat (length (taken c)),
       w\<lparr>dview := set_cv r (c\<lparr>taken := taken c @ take k (ready w r)\<rparr>) (dview w),
         ready := (ready w)(r := drop k (ready w r))\<rparr>))"

definition demo_desc :: "cons_ring \<Rightarrow> u32 \<Rightarrow> demo_world \<Rightarrow> xdp_desc" where
  "demo_desc r i w = (let c = cv (dview w) r in taken c ! unat (i - first_taken c))"

definition demo_release :: "cons_ring \<Rightarrow> u32 \<Rightarrow> demo_world \<Rightarrow> demo_world" where
  "demo_release r n w = (let c = cv (dview w) r in
     w\<lparr>dview := set_cv r (c\<lparr>released := released c @ take (unat n) (taken c),
       taken := drop (unat n) (taken c), first_taken := first_taken c + n\<rparr>) (dview w)\<rparr>)"

definition demo_api :: "int \<Rightarrow> demo_world xsk_api" where
  "demo_api verdict = \<lparr>prod_reserve = demo_reserve, prod_write = demo_write, prod_submit = demo_submit,
     needs_wakeup = (\<lambda>w. False), cons_peek = demo_peek, cons_desc = demo_desc,
     cons_release = demo_release, wake_rx = id, send_tx = (\<lambda>w. (0, 0, w)),
     extract_addr = id, add_offset = id, run_prog = (\<lambda>a l w. (verdict, l, 0, w)),
     umem_bytes = (\<lambda>a l w. replicate (unat l) 0), udp_send = (\<lambda>b w. (int (length b), w))\<rparr>"

definition empty_view :: xsk_view where
  "empty_view = \<lparr>pv = (\<lambda>_. \<lparr>submitted = [], reserved = [], first_reserved = 0\<rparr>),
     cv = (\<lambda>_. \<lparr>released = [], taken = [], first_taken = 0\<rparr>)\<rparr>"

lemma demo_laws: "xsk_laws (demo_api verdict) dview"
proof -
  have reserve: "reserve_law (demo_api verdict) dview"
    unfolding reserve_law_def
  proof (intro allI impI)
    fix r n w ret idx w'
    assume a: "prod_reserve (demo_api verdict) r n w = (ret, idx, w')"
    show "let p = pv (dview w) r in
      ret = 0 \<and> dview w' = dview w \<or>
      ret = int (unat n) \<and> unat n < 2 ^ 31 \<and> length (reserved p) + unat n < 2 ^ 32 \<and>
      idx = first_reserved p + of_nat (length (reserved p)) \<and>
      (\<exists>ds. length ds = unat n \<and> dview w' = set_pv r (p\<lparr>reserved := reserved p @ ds\<rparr>) (dview w))"
    proof (cases "room w r \<and> length (reserved (pv (dview w) r)) + unat n \<le> 64")
      case True
      then show ?thesis using a
        by (auto simp: demo_api_def demo_reserve_def Let_def intro!: exI [of _ "replicate (unat n) no_desc"])
    next
      case False
      then show ?thesis using a by (auto simp: demo_api_def demo_reserve_def Let_def)
    qed
  qed
  have peek: "peek_law (demo_api verdict) dview"
    unfolding peek_law_def
  proof (intro allI impI)
    fix r n w k idx w'
    assume a: "cons_peek (demo_api verdict) r n w = (k, idx, w')"
    let ?c = "cv (dview w) r"
    let ?k = "min (unat n) (min (length (ready w r)) (64 - length (taken ?c)))"
    have k64: "?k \<le> 64" and kn: "?k \<le> unat n" and kr: "?k \<le> length (ready w r)"
      and kl: "?k \<noteq> 0 \<Longrightarrow> length (taken ?c) + ?k \<le> 64" by auto
    have u: "unat (of_nat ?k :: u32) = ?k" 
    by (rule unat_of_nat_u32, rule le_less_trans [OF k64]) simp
    have w: "k = of_nat ?k" "idx = first_taken ?c + of_nat (length (taken ?c))"
      "dview w' = set_cv r (?c\<lparr>taken := taken ?c @ take ?k (ready w r)\<rparr>) (dview w)"
      using a by (auto simp: demo_api_def demo_peek_def Let_def)
    have uk: "unat k = ?k" unfolding w(1) by (rule u)
    then have "k \<le> n" using kn by (simp only: word_le_nat_alt)
    moreover have "length (taken ?c) + unat k < 2 ^ 32" if "k \<noteq> 0"
    proof -
      have "unat k \<noteq> 0" using that unat_eq_zero by blast
      then have "length (taken ?c) + unat k \<le> 64" unfolding uk by (rule kl)
      then show ?thesis by simp
    qed
    moreover have "length (take ?k (ready w r)) = unat k" using kr uk by simp
    ultimately show "let c = cv (dview w) r in k \<le> n \<and> (k \<noteq> 0 \<longrightarrow> length (taken c) + unat k < 2 ^ 32 \<and>
        idx = first_taken c + of_nat (length (taken c))) \<and>
      (\<exists>ds. length ds = unat k \<and> dview w' = set_cv r (c\<lparr>taken := taken c @ ds\<rparr>) (dview w))"
      using w(2,3) unfolding Let_def by blast
  qed
  have idx: "unat (f + of_nat i - f) = i" if "i < l" "l < 2 ^ 32" for f :: u32 and i l
    using that by (simp add: unat_of_nat_u32)
  have "write_law (demo_api verdict) dview"
    unfolding write_law_def Let_def using idx by (simp add: demo_api_def demo_write_def Let_def)
  moreover have "desc_law (demo_api verdict) dview"
    unfolding desc_law_def Let_def using idx by (simp add: demo_api_def demo_desc_def Let_def)
  moreover have "submit_law (demo_api verdict) dview"
    by (simp add: submit_law_def demo_api_def demo_submit_def Let_def)
  moreover have "release_law (demo_api verdict) dview"
    by (simp add: release_law_def demo_api_def demo_release_def Let_def)
  moreover have "other_law (demo_api verdict) dview" by (simp add: other_law_def demo_api_def)
  ultimately show ?thesis using reserve peek by (simp add: xsk_laws_def)
qed

end
