(* ===== verification/Config.thy ===== *)
theory Config
  imports Servant_Prelude
begin
text \<open>
  The configuration and its command line (\<open>src/config.h\<close>, \<open>src/config.c\<close>). The options as
  \<open>getopt_long\<close> delivers them and the remaining arguments are the input; the answer of
  \<open>if_nametoindex\<close> is a parameter. \<open>config.maps\<close> is the array that \<open>parse_args\<close> allocates.
\<close>

section \<open>The configuration\<close>

text \<open>\<open>struct config\<close> without the two unused fields at its end.\<close>

record config =
  terminate :: int
  num_frames :: u32
  frame_size :: u32
  frame_shift :: u32
  headroom :: u32
  rx_size :: u32
  tx_size :: u32
  ifindex :: u32
  ifname :: string
  qid :: u32
  core :: int
  busy_poll :: int
  busy_poll_duration :: u32
  batch_size :: u32
  copy_mode :: int
  xdp_mode :: int
  ebpf_program_path :: string
  jitted :: u32
  custom_kern_prog :: int
  custom_kern_path :: "string option"
  has_uth :: int
  uth_prog_path :: "string option"
  use_packet_injection :: int
  maps :: "string list"
  count_maps :: u32

definition REQUIRED_ARGUMENTS :: nat where "REQUIRED_ARGUMENTS = 3"
definition MAX_CONFIG_MAPS :: nat where "MAX_CONFIG_MAPS = 10"

text \<open>Constants of the kernel headers.\<close>

definition XDP_COPY :: int where "XDP_COPY = 2"
definition XDP_ZEROCOPY :: int where "XDP_ZEROCOPY = 4"
definition XDP_FLAGS_SKB_MODE :: int where "XDP_FLAGS_SKB_MODE = 2"
definition XDP_FLAGS_DRV_MODE :: int where "XDP_FLAGS_DRV_MODE = 4"

section \<open>Numbers\<close>

text \<open>
  \<open>strtol\<close> in base 10: leading white space, an optional sign, the digits up to the first other
  character; a value outside \<open>long\<close> becomes its nearest bound. \<open>atoi\<close> converts the result to \<open>int\<close>,
  which keeps the low 32 bits, as the C library and the compilers of the program's platform do.
\<close>

definition digit_val :: "char \<Rightarrow> int option" where
  "digit_val c = (let n = of_char c :: int in if 48 \<le> n \<and> n \<le> 57 then Some (n - 48) else None)"

fun digits_val :: "int \<Rightarrow> string \<Rightarrow> int" where
  "digits_val acc [] = acc"
| "digits_val acc (c # cs) = (case digit_val c of None \<Rightarrow> acc | Some d \<Rightarrow> digits_val (10 * acc + d) cs)"

fun skip_space :: "string \<Rightarrow> string" where
  "skip_space [] = []"
| "skip_space (c # cs) =
     (if of_char c = (32 :: int) \<or> (9 :: int) \<le> of_char c \<and> of_char c \<le> (13 :: int) then skip_space cs else c # cs)"

definition int_text :: "string \<Rightarrow> int" where
  "int_text s = (case skip_space s of [] \<Rightarrow> 0
     | c # cs \<Rightarrow> if c = CHR ''-'' then - digits_val 0 cs
                 else if c = CHR ''+'' then digits_val 0 cs else digits_val 0 (c # cs))"

definition strtol :: "string \<Rightarrow> int" where
  "strtol s = max (- (2 ^ 63)) (min (2 ^ 63 - 1) (int_text s))"

definition atoi :: "string \<Rightarrow> int" where
  "atoi s = sint (word_of_int (strtol s) :: u32)"

lemma atoi_range: "- (2 ^ 31) \<le> atoi s" "atoi s < 2 ^ 31"
  using sint_ge [of "word_of_int (strtol s) :: u32"] sint_lt [of "word_of_int (strtol s) :: u32"]
  by (simp_all add: atoi_def)

lemma atoi_int: "- (2 ^ 31) \<le> int_text s \<Longrightarrow> int_text s < 2 ^ 31 \<Longrightarrow> atoi s = int_text s"
  by (simp add: atoi_def strtol_def signed_of_int signed_take_bit_int_eq_self)

text \<open>
  The unsigned integer part of \<open>log2\<close>; for 0 the function yields minus infinity, whose
  conversion is undefined.
\<close>

fun floor_log2 :: "nat \<Rightarrow> nat" where
  "floor_log2 n = (if n < 2 then 0 else Suc (floor_log2 (n div 2)))"

declare floor_log2.simps [simp del]

definition log2_u32 :: "u32 \<Rightarrow> u32 c_result" where
  "log2_u32 n = c_check (n \<noteq> 0) BadConversion (Inr (of_nat (floor_log2 (unat n))))"

section \<open>The command line\<close>

definition default_config :: config where
  "default_config =
     \<lparr>terminate = 0, num_frames = 0, frame_size = 2048, frame_shift = 11, headroom = 256,
      rx_size = 512, tx_size = 512, ifindex = 0, ifname = [], qid = 0, core = -1, busy_poll = 0,
      busy_poll_duration = 20, batch_size = 64, copy_mode = XDP_ZEROCOPY,
      xdp_mode = XDP_FLAGS_DRV_MODE, ebpf_program_path = [], jitted = 1, custom_kern_prog = 0,
      custom_kern_path = None, has_uth = 0, uth_prog_path = None, use_packet_injection = 0,
      maps = [], count_maps = 0\<rparr>"

text \<open>What \<open>getopt_long\<close> returns, with \<open>optarg\<close>.\<close>

datatype cli_opt =
    HELP | NUM_FRAMES string | FRAME_SIZE string | BATCH_SIZE string | RX_SIZE string
  | TX_SIZE string | COPY_MODE | SKB_MODE | XDP_PROG string | NO_JIT | UTH string
  | BUSY_POLLING | PACKET_INJECTION | MAP string | CORE string | UNKNOWN

text \<open>One turn of the option loop.\<close>

fun parse_opt :: "config \<Rightarrow> cli_opt \<Rightarrow> config c_result" where
  "parse_opt cf (NUM_FRAMES a) = Inr cf"
| "parse_opt cf (FRAME_SIZE a) =
     (let fs = word_of_int (atoi a) in
      c_bind (log2_u32 fs) (\<lambda>sh. Inr (cf\<lparr>frame_size := fs, frame_shift := sh\<rparr>)))"
| "parse_opt cf (BATCH_SIZE a) = Inr (cf\<lparr>batch_size := word_of_int (atoi a)\<rparr>)"
| "parse_opt cf (RX_SIZE a) = Inr (cf\<lparr>rx_size := word_of_int (atoi a)\<rparr>)"
| "parse_opt cf (TX_SIZE a) = Inr (cf\<lparr>tx_size := word_of_int (atoi a)\<rparr>)"
| "parse_opt cf COPY_MODE = Inr (cf\<lparr>copy_mode := XDP_COPY\<rparr>)"
| "parse_opt cf SKB_MODE = Inr (cf\<lparr>xdp_mode := XDP_FLAGS_SKB_MODE\<rparr>)"
| "parse_opt cf (XDP_PROG a) = Inr (cf\<lparr>custom_kern_prog := 1, custom_kern_path := Some a\<rparr>)"
| "parse_opt cf NO_JIT = Inr (cf\<lparr>jitted := 0\<rparr>)"
| "parse_opt cf (UTH a) = Inr (cf\<lparr>has_uth := 1, uth_prog_path := Some a\<rparr>)"
| "parse_opt cf BUSY_POLLING = Inr (cf\<lparr>busy_poll := 1\<rparr>)"
| "parse_opt cf HELP = Inl (Exit 0)"
| "parse_opt cf PACKET_INJECTION = Inr (cf\<lparr>use_packet_injection := 1\<rparr>)"
| "parse_opt cf (MAP a) =
     c_check (unat (count_maps cf) < MAX_CONFIG_MAPS) OutOfBounds
       (Inr (cf\<lparr>maps := maps cf @ [a], count_maps := count_maps cf + 1\<rparr>))"
| "parse_opt cf (CORE a) = (let t = atoi a in Inr (cf\<lparr>core := (if t < 0 then -1 else t)\<rparr>))"
| "parse_opt cf UNKNOWN = Inl (Exit 1)"

fun parse_opts :: "config \<Rightarrow> cli_opt list \<Rightarrow> config c_result" where
  "parse_opts cf [] = Inr cf"
| "parse_opts cf (o' # os) = c_bind (parse_opt cf o') (\<lambda>cf. parse_opts cf os)"

text \<open>The positional arguments and the checks after the loop.\<close>

definition finish_args :: "(string \<Rightarrow> u32) \<Rightarrow> string list \<Rightarrow> config \<Rightarrow> config c_result" where
  "finish_args if_nametoindex rest cf =
     c_check (REQUIRED_ARGUMENTS \<le> length rest) (Exit 1) (
     let cf = cf\<lparr>ifname := rest ! 0, ifindex := if_nametoindex (rest ! 0)\<rparr> in
     c_check (\<not> ifindex cf < 0) (Exit 1) (
     let cf = cf\<lparr>qid := word_of_int (atoi (rest ! 1)), ebpf_program_path := rest ! 2\<rparr>;
         cf = cf\<lparr>num_frames := (rx_size cf + tx_size cf) * 8\<rparr> in
     c_check (copy_mode cf = XDP_ZEROCOPY \<or> copy_mode cf = XDP_COPY) (Exit 1) (
     c_check (xdp_mode cf = XDP_FLAGS_DRV_MODE \<or> xdp_mode cf = XDP_FLAGS_SKB_MODE) (Exit 1) (
     Inr cf))))"

definition parse_args :: "(string \<Rightarrow> u32) \<Rightarrow> cli_opt list \<Rightarrow> string list \<Rightarrow> config c_result" where
  "parse_args if_nametoindex opts rest =
     c_bind (parse_opts default_config opts) (finish_args if_nametoindex rest)"

section \<open>What the command line can set\<close>

text \<open>The invariant of the option loop.\<close>

definition config_wf :: "config \<Rightarrow> bool" where
  "config_wf cf \<longleftrightarrow> length (maps cf) = unat (count_maps cf) \<and> length (maps cf) \<le> MAX_CONFIG_MAPS \<and>
     frame_size cf \<noteq> 0 \<and> frame_shift cf = of_nat (floor_log2 (unat (frame_size cf))) \<and>
     (copy_mode cf = XDP_ZEROCOPY \<or> copy_mode cf = XDP_COPY) \<and>
     (xdp_mode cf = XDP_FLAGS_DRV_MODE \<or> xdp_mode cf = XDP_FLAGS_SKB_MODE) \<and>
     -1 \<le> core cf \<and> core cf < 2 ^ 31"

lemma floor_log2_2048: "floor_log2 2048 = 11"
  by (simp add: floor_log2.simps)

lemma default_config_wf: "config_wf default_config"
  by (simp add: config_wf_def default_config_def floor_log2_2048 MAX_CONFIG_MAPS_def)

lemma parse_opt_wf: "parse_opt cf opt = Inr cf' \<Longrightarrow> config_wf cf \<Longrightarrow> config_wf cf'"
proof (cases opt)
  case (FRAME_SIZE a)
  moreover assume "parse_opt cf opt = Inr cf'" "config_wf cf"
  ultimately show ?thesis
    by (auto simp: config_wf_def log2_u32_def c_check_def Let_def split: if_splits)
next
  case (MAP a)
  moreover assume "parse_opt cf opt = Inr cf'" "config_wf cf"
  moreover have "unat (count_maps cf + 1) = unat (count_maps cf) + 1" if "unat (count_maps cf) < 10"
    using that by (simp add: unat_word_ariths)
  ultimately show ?thesis by (auto simp: config_wf_def c_check_def MAX_CONFIG_MAPS_def split: if_splits)
qed (use atoi_range(2) in \<open>auto simp: config_wf_def Let_def\<close>)

lemma parse_opts_wf: "parse_opts cf opts = Inr cf' \<Longrightarrow> config_wf cf \<Longrightarrow> config_wf cf'"
  by (induction opts arbitrary: cf) (auto simp: c_bind_Inr_iff intro: parse_opt_wf)

lemma floor_log2_bounds: "0 < n \<Longrightarrow> 2 ^ floor_log2 n \<le> n \<and> n < 2 ^ Suc (floor_log2 n)"
proof (induction n rule: floor_log2.induct)
  case (1 n)
  show ?case
  proof (cases "n < 2")
    case False
    with "1.IH" have "2 ^ floor_log2 (n div 2) \<le> n div 2 \<and> n div 2 < 2 ^ Suc (floor_log2 (n div 2))" by simp
    with False show ?thesis by (subst (1 2) floor_log2.simps) auto
  qed (use 1 in \<open>simp add: floor_log2.simps\<close>)
qed

lemma parse_opts_maps_full:
  "unat (count_maps cf) = MAX_CONFIG_MAPS \<Longrightarrow> parse_opts cf (MAP a # opts) = Inl OutOfBounds"
  by simp

lemma parse_opts_many_maps:
  assumes "unat (count_maps cf) + length names = MAX_CONFIG_MAPS"
  shows "parse_opts cf (map MAP names @ MAP a # opts) = Inl OutOfBounds"
  using assms
proof (induction names arbitrary: cf)
  case (Cons n names)
  then have "unat (count_maps cf + 1) = unat (count_maps cf) + 1"
    by (simp add: unat_word_ariths MAX_CONFIG_MAPS_def)
  with Cons show ?case by (simp add: MAX_CONFIG_MAPS_def)
qed (simp add: parse_opts_maps_full)

section \<open>Properties\<close>

text \<open>C16: whatever the command line, an accepted configuration is consistent: the mode flags are one
  of the supported values, the frame shift is the logarithm of a nonzero frame size, at most ten
  map names are stored and counted, the positional arguments are the interface, the queue and the
  program, the core is -1 or a non-negative \<open>int\<close>, and there are eight frames for each ring entry,
  modulo \<open>2 ^ 32\<close>.\<close>

theorem parse_args_consistent:
  assumes "parse_args lookup_if opts rest = Inr cf"
  shows "config_wf cf \<and> 2 ^ unat (frame_shift cf) \<le> unat (frame_size cf) \<and>
    unat (frame_size cf) < 2 ^ Suc (unat (frame_shift cf)) \<and>
    num_frames cf = (rx_size cf + tx_size cf) * 8 \<and> 3 \<le> length rest \<and>
    ifname cf = rest ! 0 \<and> qid cf = word_of_int (atoi (rest ! 1)) \<and> ebpf_program_path cf = rest ! 2"
proof -
  obtain cf0 where cf0: "parse_opts default_config opts = Inr cf0" "3 \<le> length rest"
    and cf: "cf = cf0\<lparr>ifname := rest ! 0, ifindex := lookup_if (rest ! 0), qid := word_of_int (atoi (rest ! 1)),
      ebpf_program_path := rest ! 2, num_frames := (rx_size cf0 + tx_size cf0) * 8\<rparr>"
    using assms by (auto simp: parse_args_def finish_args_def c_bind_Inr_iff c_check_def Let_def REQUIRED_ARGUMENTS_def
        split: if_splits)
  have wf0: "config_wf cf0" using parse_opts_wf [OF cf0(1) default_config_wf] .
  then have wf: "config_wf cf" by (simp add: cf config_wf_def)
  have pos: "0 < unat (frame_size cf)" using wf by (simp add: config_wf_def unat_gt_0)
  note b = floor_log2_bounds [OF pos]
  have "floor_log2 (unat (frame_size cf)) < 32"
  proof (rule ccontr)
    assume "\<not> ?thesis"
    then have "(2::nat) ^ 32 \<le> 2 ^ floor_log2 (unat (frame_size cf))" by (intro power_increasing) simp_all
    then show False using b unat_u32_bound [of "frame_size cf"] by linarith
  qed
  then have "unat (frame_shift cf) = floor_log2 (unat (frame_size cf))"
    using wf by (simp add: config_wf_def unat_of_nat_u32)
  then show ?thesis using b wf cf0(2) by (simp add: cf)
qed

text \<open>A command line for the witness.\<close>

definition demo_args :: "cli_opt list" where
  "demo_args = [BATCH_SIZE ''32'', COPY_MODE, MAP ''stats'']"

theorem parse_args_consistent_witness:
  "\<exists>cf. parse_args (\<lambda>_. 2) demo_args [''eth0'', ''3'', ''prog.o''] = Inr cf \<and> config_wf cf \<and>
     num_frames cf = 8192 \<and> qid cf = 3"
proof -
  obtain cf where cf: "parse_args (\<lambda>_. 2) demo_args [''eth0'', ''3'', ''prog.o''] = Inr cf"
    "rx_size cf = 512" "tx_size cf = 512"
    by (simp add: parse_args_def finish_args_def demo_args_def REQUIRED_ARGUMENTS_def MAX_CONFIG_MAPS_def
        default_config_def XDP_FLAGS_DRV_MODE_def XDP_FLAGS_SKB_MODE_def XDP_COPY_def XDP_ZEROCOPY_def)
  from parse_args_consistent [OF cf(1)] show ?thesis
    by (intro exI [of _ cf]) (simp add: cf atoi_int int_text_def digit_val_def)
qed

text \<open>Two inputs the code means to refuse or never expects: an eleventh \<open>--map\<close> option writes
  behind the array of ten names, and an interface that does not exist (index 0) is accepted,
  because the index is unsigned and the test \<open>ifindex < 0\<close> cannot hold.\<close>

theorem parse_args_gaps:
  assumes "length names = 10"
  shows "parse_args lookup_if (map MAP names @ [MAP extra]) rest = Inl OutOfBounds \<and>
    (lookup_if i = 0 \<longrightarrow> (\<exists>cf. parse_args lookup_if [] [i, q, p] = Inr cf \<and> ifindex cf = 0))"
proof -
  have "parse_opts default_config (map MAP names @ MAP extra # []) = Inl OutOfBounds"
    using assms by (intro parse_opts_many_maps) (simp add: default_config_def MAX_CONFIG_MAPS_def)
  then show ?thesis
    by (simp add: parse_args_def finish_args_def REQUIRED_ARGUMENTS_def default_config_def Let_def)
qed

theorem parse_args_gaps_witness:
  "parse_args (\<lambda>_. 1) (map MAP (replicate 10 ''m'') @ [MAP ''m'']) [''eth0'', ''0'', ''p.o''] = Inl OutOfBounds"
  using parse_args_gaps [of "replicate 10 ''m''"] by simp

end
