(* ===== verification/Heart.thy ===== *)
theory Heart
  imports XskApi Config InterposeLink
begin
text \<open>
  The data path (\<open>src/heart.c\<close>, \<open>src/include/packet_context.h\<close>): completing transmissions,
  polling the receive ring, placing descriptors on the fill and transmit rings, applying the
  packet program's verdict, and the pump loop. The rings, the program and the packet memory are
  the parameter \<open>api\<close> of \<open>XskApi\<close>; the message link is the model of \<open>vchannel.c\<close>.
\<close>

section \<open>State and constants\<close>

text \<open>The verdicts of a packet program.\<close>

definition PASS :: int where "PASS = 100"
definition DROP :: int where "DROP = 200"
definition SEND :: int where "SEND = 300"

text \<open>What the loop changes: the rings' state, the counters, and the channel of the link.\<close>

record 'w heart =
  world :: 'w
  outstanding_tx :: u32
  chan :: shared_channel
  pkt_count :: u64
  sent_count :: u64
  rprt_ts :: u64

section \<open>Transmission\<close>

definition ENOBUFS :: int where "ENOBUFS = 105"
definition EAGAIN :: int where "EAGAIN = 11"
definition EBUSY :: int where "EBUSY = 16"
definition ENETDOWN :: int where "ENETDOWN = 100"

definition kick_tx :: "'w xsk_api \<Rightarrow> 'w \<Rightarrow> 'w c_result" where
  "kick_tx api w =
     (case send_tx api w of (ret, errno, w) \<Rightarrow>
        if ret \<ge> 0 \<or> errno = ENOBUFS \<or> errno = EAGAIN \<or> errno = EBUSY \<or> errno = ENETDOWN
        then Inr w else Inl (Exit 1))"

text \<open>The loop of \<open>complete_tx\<close>: completed addresses go back to the fill ring.\<close>

fun move_completed :: "'w xsk_api \<Rightarrow> nat \<Rightarrow> u32 \<Rightarrow> u32 \<Rightarrow> 'w \<Rightarrow> 'w" where
  "move_completed api 0 idx_fq idx_cq w = w"
| "move_completed api (Suc k) idx_fq idx_cq w =
     move_completed api k (idx_fq + 1) (idx_cq + 1)
       (prod_write api FillRing idx_fq \<lparr>d_addr = d_addr (cons_desc api CompRing idx_cq w), d_len = 0\<rparr> w)"

definition complete_tx :: "config \<Rightarrow> 'w xsk_api \<Rightarrow> 'w heart \<Rightarrow> (int \<times> 'w heart) c_result" where
  "complete_tx cf api s =
     (if outstanding_tx s = 0 then Inr (0, s)
      else c_bind (if copy_mode cf = XDP_COPY then kick_tx api (world s) else Inr (world s)) (\<lambda>w.
        let ndescs = (if outstanding_tx s > batch_size cf then batch_size cf else outstanding_tx s);
            (rcvd, idx_cq, w) = cons_peek api CompRing ndescs w in
        if rcvd = 0 then Inr (0, s\<lparr>world := w\<rparr>)
        else let (ret, idx_fq, w) = prod_reserve api FillRing rcvd w in
          if ret = 0 then Inr (0, s\<lparr>world := w\<rparr>)
          else c_bind
            (if word_of_int ret \<noteq> rcvd then
               if ret < 0 then Inl (Exit 1)
               else let w = (if busy_poll cf \<noteq> 0 \<or> needs_wakeup api w then wake_rx api w else w) in
                 Inr (prod_reserve api FillRing rcvd w)
             else Inr (ret, idx_fq, w))
            (\<lambda>(ret, idx_fq, w).
              let n = (word_of_int ret :: u32);
                  w = move_completed api (unat n) idx_fq idx_cq w;
                  w = prod_submit api FillRing n w;
                  w = cons_release api CompRing n w in
              Inr (ret, s\<lparr>world := w, outstanding_tx := outstanding_tx s - n\<rparr>))))"

section \<open>Reception\<close>

text \<open>The result is a \<open>uint16_t\<close>; the descriptors are read from the ring one after the other.\<close>

definition poll_rx_queue :: "config \<Rightarrow> 'w xsk_api \<Rightarrow> u32 \<Rightarrow> 'w \<Rightarrow> u16 \<times> xdp_desc list \<times> 'w" where
  "poll_rx_queue cf api cnt w =
     (let (rcvd, idx_rx, w) = cons_peek api RxRing cnt w in
      if rcvd = 0
      then (0, [], if busy_poll cf \<noteq> 0 \<or> needs_wakeup api w then wake_rx api w else w)
      else (ucast rcvd, map (\<lambda>i. cons_desc api RxRing (idx_rx + of_nat i) w) [0..<unat rcvd], w))"

section \<open>Placing descriptors\<close>

text \<open>The loops of \<open>drop\<close> and \<open>tx\<close>: one entry after the other from the reserved index on.\<close>

fun place_entries :: "'w xsk_api \<Rightarrow> prod_ring \<Rightarrow> u32 \<Rightarrow> xdp_desc list \<Rightarrow> 'w \<Rightarrow> 'w" where
  "place_entries api r idx [] w = w"
| "place_entries api r idx (d # ds) w = place_entries api r (idx + 1) ds (prod_write api r idx d w)"

definition fill_entry :: "'w xsk_api \<Rightarrow> xdp_desc \<Rightarrow> xdp_desc" where
  "fill_entry api d = \<lparr>d_addr = extract_addr api (d_addr d), d_len = 0\<rparr>"

definition tx_entry :: "'w xsk_api \<Rightarrow> xdp_desc \<Rightarrow> xdp_desc" where
  "tx_entry api d = \<lparr>d_addr = extract_addr api (d_addr d), d_len = d_len d\<rparr>"

definition xsk_drop :: "'w xsk_api \<Rightarrow> xdp_desc list \<Rightarrow> u32 \<Rightarrow> 'w \<Rightarrow> (u32 \<times> 'w) c_result" where
  "xsk_drop api batch cnt w =
     (let (ret, idx_target, w) = prod_reserve api FillRing cnt w in
      if word_of_int ret \<noteq> cnt then (if ret < 0 then Inl (Exit 1) else Inr (0, w))
      else c_check (unat cnt \<le> length batch) OutOfBounds (
        let w = place_entries api FillRing idx_target (map (fill_entry api) (take (unat cnt) batch)) w;
            w = prod_submit api FillRing cnt w in
        Inr (cnt, cons_release api RxRing cnt w)))"

definition xsk_tx :: "'w xsk_api \<Rightarrow> xdp_desc list \<Rightarrow> u32 \<Rightarrow> 'w heart \<Rightarrow> (u32 \<times> 'w heart) c_result" where
  "xsk_tx api batch cnt s =
     (let (ret, idx_target, w) = prod_reserve api TxRing cnt (world s) in
      if word_of_int ret \<noteq> cnt then (if ret < 0 then Inl (Exit 1) else Inr (0, s\<lparr>world := w\<rparr>))
      else c_check (unat cnt \<le> length batch) OutOfBounds (
        let w = place_entries api TxRing idx_target (map (tx_entry api) (take (unat cnt) batch)) w;
            w = prod_submit api TxRing cnt w in
        Inr (cnt, s\<lparr>world := cons_release api RxRing cnt w, outstanding_tx := outstanding_tx s + cnt\<rparr>)))"

section \<open>The verdict\<close>

text \<open>\<open>drop(xsk, &desc, 1)\<close> with its result ignored.\<close>

definition drop_one :: "'w xsk_api \<Rightarrow> xdp_desc \<Rightarrow> 'w heart \<Rightarrow> 'w heart c_result" where
  "drop_one api d s = c_bind (xsk_drop api [d] 1 (world s)) (\<lambda>(_, w). Inr (s\<lparr>world := w\<rparr>))"

text \<open>
  Sending over the link; \<open>None\<close> is the handle that a failed set up leaves, whose channel is null.
\<close>

definition link_send ::
  "vchannel option \<Rightarrow> shared_channel \<Rightarrow> u8 list \<Rightarrow> u32 \<Rightarrow> (int \<times> shared_channel) c_result" where
  "link_send vc ch buf n =
     (case vc of Some v \<Rightarrow> send_interpose_msg v ch buf n
      | None \<Rightarrow> c_check (unat n < MAX_SHARED_OBJ_SIZE) AssertFail (Inl NullDeref))"

text \<open>A link that is set up is one of the two sides of a well-formed channel.\<close>

definition link_wf :: "vchannel option \<Rightarrow> shared_channel \<Rightarrow> bool" where
  "link_wf vc ch \<longleftrightarrow> (case vc of None \<Rightarrow> True | Some v \<Rightarrow> (proc_id v = 0 \<or> proc_id v = 1) \<and> vc_wf ch)"

text \<open>The failure that waits in a link: it is not set up, or its region is mapped at another address.\<close>

definition link_fault :: "vchannel option \<Rightarrow> shared_channel \<Rightarrow> c_error option" where
  "link_fault vc ch = (case vc of None \<Rightarrow> Some NullDeref | Some v \<Rightarrow> if at_home v ch then None else Some WildPointer)"

lemma link_simps [simp]:
  "link_wf (Some v) ch \<longleftrightarrow> (proc_id v = 0 \<or> proc_id v = 1) \<and> vc_wf ch" "link_wf None ch"
  "link_fault None ch = Some NullDeref" "link_fault (Some v) ch = None \<longleftrightarrow> at_home v ch"
  "link_fault (Some v) ch \<noteq> Some NullDeref"
  "link_send (Some v) ch buf n = send_interpose_msg v ch buf n"
  by (simp_all add: link_wf_def link_fault_def link_send_def)

lemma link_at_home: "vc_side v ch \<longleftrightarrow> (proc_id v = 0 \<or> proc_id v = 1) \<and> link_fault (Some v) ch = None"
  by (simp add: vc_side_def)

lemma link_fault_cong: "master_virt_addr ch' = master_virt_addr ch \<Longrightarrow> link_fault vc ch' = link_fault vc ch"
  by (simp add: link_fault_def at_home_def split: option.split)

definition apply_action ::
  "config \<Rightarrow> 'w xsk_api \<Rightarrow> vchannel option \<Rightarrow> 'w heart \<Rightarrow> xdp_desc \<Rightarrow> int \<Rightarrow> 'w heart c_result" where
  "apply_action cf api vc s d action =
     (if action = SEND then
        c_bind (xsk_tx api [d] 1 s) (\<lambda>(ret, s). if ret \<noteq> 1 then drop_one api d s else Inr s)
      else if action = PASS then
        let ctx = umem_bytes api (add_offset api (d_addr d)) (d_len d) (world s) in
        if use_packet_injection cf \<noteq> 0 then
          c_bind (link_send vc (chan s) ctx (d_len d)) (\<lambda>(_, ch).
          drop_one api d (s\<lparr>chan := ch\<rparr>))
        else case udp_send api ctx (world s) of (_, w) \<Rightarrow> drop_one api d (s\<lparr>world := w\<rparr>)
      else drop_one api d s)"

section \<open>The pump loop\<close>

text \<open>One received packet: the program runs, the descriptor is trimmed, the verdict applied.\<close>

definition process_packet ::
  "config \<Rightarrow> 'w xsk_api \<Rightarrow> vchannel option \<Rightarrow> 'w heart \<Rightarrow> xdp_desc \<Rightarrow> 'w heart c_result" where
  "process_packet cf api vc s d =
     (let (ret, pkt_len, trim_head, w) = run_prog api (add_offset api (d_addr d)) (d_len d) (world s);
          d = \<lparr>d_addr = d_addr d + scast trim_head, d_len = pkt_len\<rparr> in
      c_bind (apply_action cf api vc (s\<lparr>world := w\<rparr>) d ret) (\<lambda>s.
      Inr (if ret = SEND then s\<lparr>sent_count := sent_count s + 1\<rparr> else s)))"

fun process_batch ::
  "config \<Rightarrow> 'w xsk_api \<Rightarrow> vchannel option \<Rightarrow> xdp_desc list \<Rightarrow> 'w heart \<Rightarrow> 'w heart c_result" where
  "process_batch cf api vc [] s = Inr s"
| "process_batch cf api vc (d # ds) s = c_bind (process_packet cf api vc s d) (process_batch cf api vc ds)"

text \<open>The throughput report: the counters restart after two seconds.\<close>

definition report :: "u64 \<Rightarrow> u64 \<Rightarrow> 'w heart \<Rightarrow> 'w heart" where
  "report now rx s =
     (let s = s\<lparr>pkt_count := pkt_count s + rx\<rparr>; delta = now - rprt_ts s in
      if delta > 2000000 then s\<lparr>pkt_count := 0, sent_count := 0, rprt_ts := now\<rparr> else s)"

text \<open>One turn of the loop; \<open>now\<close> is the time that \<open>clock_gettime\<close> gives in it.\<close>

definition pump_turn ::
  "config \<Rightarrow> 'w xsk_api \<Rightarrow> vchannel option \<Rightarrow> u64 \<Rightarrow> 'w heart \<Rightarrow> 'w heart c_result" where
  "pump_turn cf api vc now s =
     c_bind (if outstanding_tx s > 0 then c_bind (complete_tx cf api s) (\<lambda>(_, s). Inr s) else Inr s) (\<lambda>s.
     let (rx, batch, w) = poll_rx_queue cf api (batch_size cf) (world s);
         s = s\<lparr>world := w\<rparr> in
     if rx = 0 then Inr s
     else c_bind (process_batch cf api vc (take (unat rx) batch) s) (\<lambda>s. Inr (report now (ucast rx) s)))"

text \<open>
  The loop over a sequence of turns, each with the value of the terminate flag it sees; the
  result says whether the loop was left. \<open>compiled\<close> tells whether \<open>ubpf_compile\<close> succeeded.
\<close>

fun pump_loop ::
  "config \<Rightarrow> 'w xsk_api \<Rightarrow> vchannel option \<Rightarrow> (bool \<times> u64) list \<Rightarrow> 'w heart \<Rightarrow> (bool \<times> 'w heart) c_result" where
  "pump_loop cf api vc [] s = Inr (False, s)"
| "pump_loop cf api vc ((stop, now) # turns) s =
     (if stop then Inr (True, s) else c_bind (pump_turn cf api vc now s) (pump_loop cf api vc turns))"

definition pump_packets ::
  "config \<Rightarrow> 'w xsk_api \<Rightarrow> vchannel option \<Rightarrow> bool \<Rightarrow> u64 \<Rightarrow> (bool \<times> u64) list \<Rightarrow> 'w heart \<Rightarrow>
     (bool \<times> 'w heart) c_result" where
  "pump_packets cf api vc compiled start turns s =
     (let s = s\<lparr>rprt_ts := start\<rparr> in
      if \<not> compiled then Inr (True, s) else pump_loop cf api vc turns s)"

section \<open>The batched variant\<close>

text \<open>
  \<open>apply_mix_action\<close>. The context of a packet is its final length, its trim and the verdict;
  only drop and send are known. The counts are \<open>int\<close>s of at most the batch size.
\<close>

type_synonym pkt_ctx = "u32 \<times> u32 \<times> int"

fun mix_trim :: "xdp_desc list \<Rightarrow> pkt_ctx list \<Rightarrow> xdp_desc list" where
  "mix_trim (d # ds) ((len, trim, ret) # cs) =
     \<lparr>d_addr = d_addr d + scast trim, d_len = len\<rparr> # mix_trim ds cs"
| "mix_trim _ _ = []"

definition mix_count :: "int \<Rightarrow> pkt_ctx list \<Rightarrow> nat" where
  "mix_count action ctxs = length (filter (\<lambda>(len, trim, ret). ret = action) ctxs)"

text \<open>Reserve for one ring; the flag is \<open>reserved[i]\<close>, the index stays 0 when nothing is reserved.\<close>

definition mix_reserve :: "'w xsk_api \<Rightarrow> prod_ring \<Rightarrow> nat \<Rightarrow> 'w \<Rightarrow> (bool \<times> u32 \<times> 'w) c_result" where
  "mix_reserve api r count w =
     (if count < 1 then Inr (False, 0, w)
      else case prod_reserve api r (of_nat count) w of (ret, idx, w) \<Rightarrow>
        if ret \<noteq> int count then (if ret < 0 then Inl (Exit 1) else Inr (False, 0, w))
        else Inr (True, idx, w))"

fun mix_place ::
  "'w xsk_api \<Rightarrow> u32 \<Rightarrow> u32 \<Rightarrow> (xdp_desc \<times> int) list \<Rightarrow> 'w \<Rightarrow> 'w" where
  "mix_place api idx_fq idx_tx [] w = w"
| "mix_place api idx_fq idx_tx ((d, ret) # ds) w =
     (if ret = DROP then mix_place api (idx_fq + 1) idx_tx ds (prod_write api FillRing idx_fq (fill_entry api d) w)
      else if ret = SEND then mix_place api idx_fq (idx_tx + 1) ds (prod_write api TxRing idx_tx (tx_entry api d) w)
      else mix_place api idx_fq idx_tx ds w)"

definition mix_submit :: "'w xsk_api \<Rightarrow> prod_ring \<Rightarrow> bool \<Rightarrow> nat \<Rightarrow> 'w \<Rightarrow> 'w" where
  "mix_submit api r ok count w =
     (if ok then cons_release api RxRing (of_nat count) (prod_submit api r (of_nat count) w) else w)"

definition apply_mix_action ::
  "'w xsk_api \<Rightarrow> xdp_desc list \<Rightarrow> pkt_ctx list \<Rightarrow> 'w heart \<Rightarrow> 'w heart c_result" where
  "apply_mix_action api batch ctxs s =
     (let batch = mix_trim batch ctxs; drops = mix_count DROP ctxs; sends = mix_count SEND ctxs in
      c_bind (mix_reserve api FillRing drops (world s)) (\<lambda>(ok_fq, idx_fq, w).
      c_bind (mix_reserve api TxRing sends w) (\<lambda>(ok_tx, idx_tx, w).
      let w = mix_place api idx_fq idx_tx (zip batch (map (\<lambda>(len, trim, ret). ret) ctxs)) w;
          w = mix_submit api FillRing ok_fq drops w;
          w = mix_submit api TxRing ok_tx sends w in
      Inr (s\<lparr>world := w, outstanding_tx := outstanding_tx s + of_nat sends\<rparr>))))"

section \<open>Causes of a failing run\<close>

text \<open>The wakeup of the transmission fails with an error that \<open>kick_tx\<close> does not expect.\<close>

definition kick_fails :: "'w xsk_api \<Rightarrow> bool" where
  "kick_fails api \<longleftrightarrow> (\<exists>w ret e w'. send_tx api w = (ret, e, w') \<and> ret < 0 \<and> e \<notin> {ENOBUFS, EAGAIN, EBUSY, ENETDOWN})"

lemma kick_tx_cases: "send_tx api w = (ret, e, w') \<Longrightarrow> kick_tx api w = Inr w' \<or> kick_tx api w = Inl (Exit 1) \<and> kick_fails api"
  unfolding kick_fails_def kick_tx_def by (auto simp: not_le)

text \<open>The program passes a packet that does not fit a message.\<close>

definition passes_oversized :: "'w xsk_api \<Rightarrow> bool" where
  "passes_oversized api \<longleftrightarrow> (\<exists>a l w len trim w'. run_prog api a l w = (PASS, len, trim, w') \<and> 1500 \<le> unat len)"

section \<open>What the ring operations do to the view\<close>

lemma xsk_lawsD:
  assumes "xsk_laws api view"
  shows "reserve_law api view" and "write_law api view" and "submit_law api view"
    and "peek_law api view" and "desc_law api view" and "release_law api view" and "other_law api view"
  using assms by (simp_all add: xsk_laws_def)

lemma prod_reserve_cases:
  assumes laws: "xsk_laws api view" and call: "prod_reserve api r n w = (ret, idx, w')" and n: "n \<noteq> 0"
    and idle: "reserved (pv (view w) r) = []"
  obtains "ret = 0" and "word_of_int ret \<noteq> n" and "view w' = view w"
  | ds where "ret = int (unat n)" and "word_of_int ret = n" and "length ds = unat n"
    and "idx = first_reserved (pv (view w) r)" and "unat n < 2 ^ 32"
    and "view w' = set_pv r ((pv (view w) r)\<lparr>reserved := ds\<rparr>) (view w)"
proof -
  from xsk_lawsD(1) [OF laws] call
  have "ret = 0 \<and> view w' = view w \<or>
      ret = int (unat n) \<and> idx = first_reserved (pv (view w) r) \<and>
      (\<exists>ds. length ds = unat n \<and> view w' = set_pv r ((pv (view w) r)\<lparr>reserved := ds\<rparr>) (view w))"
    unfolding reserve_law_def Let_def using idle by fastforce
  then show thesis using that n unat_u32_bound [of n] by fastforce
qed

lemma place_entries_view:
  assumes laws: "xsk_laws api view"
  shows "pv (view w) r = p \<Longrightarrow> reserved p = pre @ rest \<Longrightarrow> length ds \<le> length rest \<Longrightarrow>
    length (reserved p) < 2 ^ 32 \<Longrightarrow>
    view (place_entries api r (first_reserved p + of_nat (length pre)) ds w) =
      set_pv r (p\<lparr>reserved := pre @ ds @ drop (length ds) rest\<rparr>) (view w)"
proof (induction ds arbitrary: pre rest w p)
  case Nil
  have "p\<lparr>reserved := pre @ rest\<rparr> = p" using Nil(2) by (cases p) simp
  moreover have "set_pv r (pv (view w) r) (view w) = view w" by (simp add: set_pv_def)
  ultimately show ?case using Nil(1) by simp
next
  case (Cons d ds)
  from Cons.prems(3) obtain x xs where rest: "rest = x # xs" by (cases rest) auto
  let ?w = "prod_write api r (first_reserved p + of_nat (length pre)) d w"
  let ?p = "p\<lparr>reserved := (pre @ [d]) @ xs\<rparr>"
  have "view ?w = set_pv r (p\<lparr>reserved := (reserved p)[length pre := d]\<rparr>) (view w)"
    using xsk_lawsD(2) [OF laws] Cons.prems unfolding write_law_def Let_def by (auto simp: rest)
  then have v: "view ?w = set_pv r ?p (view w)" using Cons.prems(2) by (simp add: rest list_update_append)
  have "view (place_entries api r (first_reserved ?p + of_nat (length (pre @ [d]))) ds ?w) =
      set_pv r (?p\<lparr>reserved := (pre @ [d]) @ ds @ drop (length ds) xs\<rparr>) (view ?w)"
    using Cons.prems by (intro Cons.IH) (simp_all add: v rest)
  then show ?case by (simp add: v rest ac_simps)
qed

lemma place_all_view:
  assumes laws: "xsk_laws api view" and idle: "pv (view w) r = p\<lparr>reserved := slots\<rparr>"
    and len: "length ds = length slots" "length slots < 2 ^ 32"
  shows "view (place_entries api r (first_reserved p) ds w) = set_pv r (p\<lparr>reserved := ds\<rparr>) (view w)"
  using place_entries_view [OF laws idle, of "[]" slots ds] len by simp

lemma submit_all_view:
  assumes laws: "xsk_laws api view" and res: "length (reserved (pv (view w) r)) = unat n"
  shows "view (prod_submit api r n w) = set_pv r ((pv (view w) r)
    \<lparr>submitted := submitted (pv (view w) r) @ reserved (pv (view w) r), reserved := [],
      first_reserved := first_reserved (pv (view w) r) + n\<rparr>) (view w)"
  using xsk_lawsD(3) [OF laws] res unfolding submit_law_def Let_def by simp

lemma release_view:
  assumes "xsk_laws api view" and "unat n \<le> length (taken (cv (view w) r))"
  shows "view (cons_release api r n w) = set_cv r ((cv (view w) r)
    \<lparr>released := released (cv (view w) r) @ take (unat n) (taken (cv (view w) r)),
      taken := drop (unat n) (taken (cv (view w) r)), first_taken := first_taken (cv (view w) r) + n\<rparr>) (view w)"
  using xsk_lawsD(6) [OF assms(1)] assms(2) unfolding release_law_def Let_def by simp

text \<open>Descriptors \<open>ds\<close> given to a producer ring, and the oldest \<open>n\<close> of a consumer ring given back.\<close>

definition give :: "prod_ring \<Rightarrow> xdp_desc list \<Rightarrow> xsk_view \<Rightarrow> xsk_view" where
  "give r ds v = set_pv r ((pv v r)\<lparr>submitted := submitted (pv v r) @ ds, reserved := [],
     first_reserved := first_reserved (pv v r) + of_nat (length ds)\<rparr>) v"

definition give_back :: "cons_ring \<Rightarrow> nat \<Rightarrow> xsk_view \<Rightarrow> xsk_view" where
  "give_back r n v = set_cv r ((cv v r)\<lparr>released := released (cv v r) @ take n (taken (cv v r)),
     taken := drop n (taken (cv v r)), first_taken := first_taken (cv v r) + of_nat n\<rparr>) v"

lemma give_simps [simp]:
  "cv (give r ds v) = cv v" "pv (give_back s n v) = pv v"
  "submitted (pv (give r ds v) r') = (if r = r' then submitted (pv v r) @ ds else submitted (pv v r'))"
  "reserved (pv (give r ds v) r') = (if r = r' then [] else reserved (pv v r'))"
  "released (cv (give_back s n v) s') =
     (if s = s' then released (cv v s) @ take n (taken (cv v s)) else released (cv v s'))"
  "taken (cv (give_back s n v) s') = (if s = s' then drop n (taken (cv v s)) else taken (cv v s'))"
  by (simp_all add: give_def give_back_def)

text \<open>Reserve, place, submit: the common middle part of \<open>drop\<close> and \<open>tx\<close>.\<close>

lemma place_submit_view:
  assumes laws: "xsk_laws api view" and v: "view w' = set_pv r ((pv (view w) r)\<lparr>reserved := slots\<rparr>) (view w)"
    and len: "length ds = unat n" "length slots = unat n"
  shows "view (prod_submit api r n (place_entries api r (first_reserved (pv (view w) r)) ds w')) =
    give r ds (view w)"
proof -
  let ?p = "pv (view w) r"
  have "pv (view w') r = ?p\<lparr>reserved := slots\<rparr>" by (simp add: v)
  from place_all_view [OF laws this, of ds] len unat_u32_bound [of n]
  have pl: "view (place_entries api r (first_reserved ?p) ds w') = set_pv r (?p\<lparr>reserved := ds\<rparr>) (view w)"
    by (simp add: v)
  have n: "of_nat (unat n) = n" by simp
  show ?thesis using submit_all_view [OF laws, of "place_entries api r (first_reserved ?p) ds w'" r n] len(1) n
    by (simp add: pl give_def)
qed

lemma xsk_drop_view:
  assumes laws: "xsk_laws api view" and idle: "reserved (pv (view w) FillRing) = []" and n: "cnt \<noteq> 0"
    and len: "length batch = unat cnt" and rx: "unat cnt \<le> length (taken (cv (view w) RxRing))"
  shows "\<exists>ret w'. xsk_drop api batch cnt w = Inr (ret, w') \<and>
    (ret = 0 \<and> view w' = view w \<or>
     ret = cnt \<and> view w' = give_back RxRing (unat cnt) (give FillRing (map (fill_entry api) batch) (view w)))"
proof -
  obtain ret idx w1 where call: "prod_reserve api FillRing cnt w = (ret, idx, w1)" by (metis prod_cases3)
  from laws call n idle show ?thesis
  proof (cases rule: prod_reserve_cases)
    case 1
    then show ?thesis using call by (simp add: xsk_drop_def)
  next
    case (2 ds)
    let ?w2 = "prod_submit api FillRing cnt (place_entries api FillRing idx (map (fill_entry api) batch) w1)"
    have v2: "view ?w2 = give FillRing (map (fill_entry api) batch) (view w)"
      unfolding 2(4) using len 2(3) by (intro place_submit_view [OF laws 2(6)]) simp_all
    have "view (cons_release api RxRing cnt ?w2) =
        give_back RxRing (unat cnt) (give FillRing (map (fill_entry api) batch) (view w))"
      using release_view [OF laws, of cnt ?w2 RxRing] rx by (simp add: v2 give_back_def)
    then show ?thesis using call 2 len by (simp add: xsk_drop_def Let_def)
  qed
qed

lemma xsk_tx_view:
  assumes laws: "xsk_laws api view" and idle: "reserved (pv (view (world s)) TxRing) = []" and n: "cnt \<noteq> 0"
    and len: "length batch = unat cnt" and rx: "unat cnt \<le> length (taken (cv (view (world s)) RxRing))"
  shows "\<exists>ret s'. xsk_tx api batch cnt s = Inr (ret, s') \<and>
    (ret = 0 \<and> view (world s') = view (world s) \<and> s' = s\<lparr>world := world s'\<rparr> \<or>
     ret = cnt \<and> view (world s') =
         give_back RxRing (unat cnt) (give TxRing (map (tx_entry api) batch) (view (world s))) \<and>
       s' = s\<lparr>world := world s', outstanding_tx := outstanding_tx s + cnt\<rparr>)"
proof -
  let ?w = "world s"
  obtain ret idx w1 where call: "prod_reserve api TxRing cnt ?w = (ret, idx, w1)" by (metis prod_cases3)
  from laws call n idle show ?thesis
  proof (cases rule: prod_reserve_cases)
    case 1
    then show ?thesis using call by (simp add: xsk_tx_def)
  next
    case (2 ds)
    let ?w2 = "prod_submit api TxRing cnt (place_entries api TxRing idx (map (tx_entry api) batch) w1)"
    have v2: "view ?w2 = give TxRing (map (tx_entry api) batch) (view ?w)"
      unfolding 2(4) using len 2(3) by (intro place_submit_view [OF laws 2(6)]) simp_all
    have "view (cons_release api RxRing cnt ?w2) =
        give_back RxRing (unat cnt) (give TxRing (map (tx_entry api) batch) (view ?w))"
      using release_view [OF laws, of cnt ?w2 RxRing] rx by (simp add: v2 give_back_def)
    then show ?thesis using call 2 len by (simp add: xsk_tx_def Let_def)
  qed
qed

definition comp_entry :: "xdp_desc \<Rightarrow> xdp_desc" where
  "comp_entry d = \<lparr>d_addr = d_addr d, d_len = 0\<rparr>"

lemma move_completed_view:
  assumes laws: "xsk_laws api view"
  shows "pv (view w) FillRing = p \<Longrightarrow> reserved p = pre @ rest \<Longrightarrow> k \<le> length rest \<Longrightarrow>
    length (reserved p) < 2 ^ 32 \<Longrightarrow> cv (view w) CompRing = c \<Longrightarrow> m + k \<le> length (taken c) \<Longrightarrow>
    length (taken c) < 2 ^ 32 \<Longrightarrow>
    view (move_completed api k (first_reserved p + of_nat (length pre)) (first_taken c + of_nat m) w) =
      set_pv FillRing (p\<lparr>reserved := pre @ map comp_entry (take k (drop m (taken c))) @ drop k rest\<rparr>) (view w)"
proof (induction k arbitrary: pre rest w p m)
  case 0
  have "p\<lparr>reserved := pre @ rest\<rparr> = p" using 0(2) by (cases p) simp
  moreover have "set_pv FillRing (pv (view w) FillRing) (view w) = view w" by (simp add: set_pv_def)
  ultimately show ?case using 0(1) by simp
next
  case (Suc k)
  from Suc.prems(3) obtain x xs where rest: "rest = x # xs" by (cases rest) auto
  let ?e = "comp_entry (taken c ! m)"
  have m: "m < length (taken c)" using Suc.prems(6) by simp
  have d: "cons_desc api CompRing (first_taken c + of_nat m) w = taken c ! m"
    using xsk_lawsD(5) [OF laws] m Suc.prems(5,7) unfolding desc_law_def Let_def by blast
  let ?w = "prod_write api FillRing (first_reserved p + of_nat (length pre)) ?e w"
  let ?p = "p\<lparr>reserved := (pre @ [?e]) @ xs\<rparr>"
  have "view ?w = set_pv FillRing (p\<lparr>reserved := (reserved p)[length pre := ?e]\<rparr>) (view w)"
    using xsk_lawsD(2) [OF laws] Suc.prems unfolding write_law_def Let_def by (auto simp: rest)
  then have v: "view ?w = set_pv FillRing ?p (view w)" using Suc.prems(2) by (simp add: rest list_update_append)
  have t: "take (Suc k) (drop m (taken c)) = taken c ! m # take k (drop (Suc m) (taken c))"
    using m by (simp flip: Cons_nth_drop_Suc)
  have "view (move_completed api k (first_reserved ?p + of_nat (length (pre @ [?e])))
        (first_taken c + of_nat (Suc m)) ?w) =
      set_pv FillRing (?p\<lparr>reserved := (pre @ [?e]) @ map comp_entry (take k (drop (Suc m) (taken c))) @ drop k xs\<rparr>) (view ?w)"
    using Suc.prems by (intro Suc.IH) (simp_all add: v rest)
  moreover have "move_completed api (Suc k) (first_reserved p + of_nat (length pre)) (first_taken c + of_nat m) w =
      move_completed api k (first_reserved ?p + of_nat (length (pre @ [?e]))) (first_taken c + of_nat (Suc m)) ?w"
    unfolding move_completed.simps d by (simp add: comp_entry_def ac_simps)
  ultimately show ?case by (simp add: v t rest)
qed

lemma cons_peek_cases:
  assumes laws: "xsk_laws api view" and call: "cons_peek api r n w = (k, idx, w')"
  obtains "k = 0" and "view w' = view w"
  | ds where "k \<noteq> 0" and "k \<le> n" and "length ds = unat k"
    and "idx = first_taken (cv (view w) r) + of_nat (length (taken (cv (view w) r)))"
    and "length (taken (cv (view w) r) @ ds) < 2 ^ 32"
    and "view w' = set_cv r ((cv (view w) r)\<lparr>taken := taken (cv (view w) r) @ ds\<rparr>) (view w)"
proof (cases "k = 0")
  case True
  from xsk_lawsD(4) [OF laws] call
  obtain ds where "length ds = unat k"
      "view w' = set_cv r ((cv (view w) r)\<lparr>taken := taken (cv (view w) r) @ ds\<rparr>) (view w)"
    unfolding peek_law_def Let_def by blast
  moreover have "set_cv r (cv (view w) r) (view w) = view w" by (simp add: set_cv_def)
  ultimately have "view w' = view w" using True by simp
  then show thesis using True that(1) by blast
next
  case False
  then show thesis using xsk_lawsD(4) [OF laws] call that(2) unfolding peek_law_def Let_def by fastforce
qed

text \<open>The entries \<open>ds\<close> peeked from a consumer ring.\<close>

definition take_in :: "cons_ring \<Rightarrow> xdp_desc list \<Rightarrow> xsk_view \<Rightarrow> xsk_view" where
  "take_in r ds v = set_cv r ((cv v r)\<lparr>taken := taken (cv v r) @ ds\<rparr>) v"

lemma take_in_simps [simp]:
  "pv (take_in r ds v) = pv v"
  "taken (cv (take_in r ds v) r') = (if r = r' then taken (cv v r) @ ds else taken (cv v r'))"
  "released (cv (take_in r ds v) r') = released (cv v r')"
  "first_taken (cv (take_in r ds v) r') = first_taken (cv v r')"
  by (simp_all add: take_in_def)

lemma complete_move_view:
  assumes laws: "xsk_laws api view" and len: "length ds = unat k" "k \<noteq> 0"
    and small: "length (taken (cv (view w) CompRing) @ ds) < 2 ^ 32"
    and peek: "view w1 = take_in CompRing ds (view w)"
    and res: "view w2 = set_pv FillRing ((pv (view w1) FillRing)\<lparr>reserved := slots\<rparr>) (view w1)"
      "length slots = unat k"
  shows "view (cons_release api CompRing k (prod_submit api FillRing k (move_completed api (unat k)
      (first_reserved (pv (view w1) FillRing))
      (first_taken (cv (view w) CompRing) + of_nat (length (taken (cv (view w) CompRing)))) w2))) =
    give_back CompRing (unat k) (give FillRing (map comp_entry ds) (view w1))"
proof -
  let ?p = "(pv (view w1) FillRing)\<lparr>reserved := slots\<rparr>" and ?c = "cv (view w1) CompRing"
  have t: "taken ?c = taken (cv (view w) CompRing) @ ds" "first_taken ?c = first_taken (cv (view w) CompRing)"
    by (simp_all add: peek)
  have sl: "length slots < 2 ^ 32" using res(2) unat_u32_bound [of k] by simp
  have v2: "pv (view w2) FillRing = ?p" "cv (view w2) CompRing = ?c" by (simp_all add: res(1))
  obtain w3 where w3: "w3 = move_completed api (unat k) (first_reserved (pv (view w1) FillRing))
      (first_taken (cv (view w) CompRing) + of_nat (length (taken (cv (view w) CompRing)))) w2" by simp
  have "view (move_completed api (unat k) (first_reserved ?p + of_nat (length ([] :: xdp_desc list)))
      (first_taken ?c + of_nat (length (taken (cv (view w) CompRing)))) w2) =
    set_pv FillRing (?p\<lparr>reserved := [] @ map comp_entry (take (unat k)
      (drop (length (taken (cv (view w) CompRing))) (taken ?c))) @ drop (unat k) slots\<rparr>) (view w2)"
    by (rule move_completed_view [OF laws v2(1) _ _ _ v2(2)])
      (use sl small len(1) res(2) in \<open>simp_all add: t\<close>)
  then have v3: "view w3 = set_pv FillRing ((pv (view w1) FillRing)\<lparr>reserved := map comp_entry ds\<rparr>) (view w1)"
    using len(1) res(2) by (simp add: t(1) res(1) w3 flip: t(2))
  have k: "of_nat (length ds) = k" by (simp add: len(1))
  have s: "view (prod_submit api FillRing k w3) = give FillRing (map comp_entry ds) (view w1)"
    using submit_all_view [OF laws, of w3 FillRing k] len(1) k by (simp add: v3 give_def)
  have "view (cons_release api CompRing k (prod_submit api FillRing k w3)) =
      give_back CompRing (unat k) (give FillRing (map comp_entry ds) (view w1))"
    using release_view [OF laws, of k "prod_submit api FillRing k w3" CompRing] len(1)
    by (simp add: s t give_back_def)
  then show ?thesis by (simp only: w3)
qed

text \<open>
  What \<open>complete_tx\<close> can do: leave with 1 (only in copy mode), find nothing, find completions
  \<open>ds\<close> and no room in the fill ring, or move them.
\<close>

lemma complete_tx_view:
  assumes laws: "xsk_laws api view" and idle: "reserved (pv (view (world s)) FillRing) = []"
  obtains "complete_tx cf api s = Inl (Exit 1)" and "copy_mode cf = XDP_COPY" and "kick_fails api"
  | ds s' where "complete_tx cf api s = Inr (0, s')" and "s' = s\<lparr>world := world s'\<rparr>"
    and "view (world s') = take_in CompRing ds (view (world s))"
  | ds s' where "complete_tx cf api s = Inr (int (length ds), s')" and "length ds \<le> unat (outstanding_tx s)"
    and "s' = s\<lparr>world := world s', outstanding_tx := outstanding_tx s - of_nat (length ds)\<rparr>"
    and "view (world s') = give_back CompRing (length ds)
      (give FillRing (map comp_entry ds) (take_in CompRing ds (view (world s))))"
proof (cases "outstanding_tx s = 0")
  case True
  moreover have "take_in CompRing [] (view (world s)) = view (world s)"
    by (simp add: take_in_def set_cv_def)
  ultimately show thesis using that(2) [of s "[]"] by (simp add: complete_tx_def)
next
  case some: False
  let ?n = "if outstanding_tx s > batch_size cf then batch_size cf else outstanding_tx s"
  let ?w = "world s"
  have kick: "(if copy_mode cf = XDP_COPY then kick_tx api ?w else Inr ?w) = Inl (Exit 1) \<and> copy_mode cf = XDP_COPY \<and> kick_fails api \<or>
      (\<exists>w. (if copy_mode cf = XDP_COPY then kick_tx api ?w else Inr ?w) = Inr w \<and> view w = view ?w)"
  proof -
    obtain ret e w' where c: "send_tx api ?w = (ret, e, w')" by (metis prod_cases3)
    then have "view w' = view ?w" using xsk_lawsD(7) [OF laws] unfolding other_law_def by blast
    then show ?thesis using kick_tx_cases [OF c] by auto
  qed
  show thesis
  proof (cases "\<exists>w. (if copy_mode cf = XDP_COPY then kick_tx api ?w else Inr ?w) = Inr w \<and> view w = view ?w")
    case False
    then show thesis using kick some that(1) by (auto simp: complete_tx_def)
  next
    case True
    then obtain w where w: "(if copy_mode cf = XDP_COPY then kick_tx api ?w else Inr ?w) = Inr w" "view w = view ?w"
      by blast
    obtain k idx_cq w1 where peek: "cons_peek api CompRing ?n w = (k, idx_cq, w1)" by (metis prod_cases3)
    from laws peek show thesis
    proof (cases rule: cons_peek_cases)
      case 1
      moreover have "take_in CompRing [] (view ?w) = view ?w" by (simp add: take_in_def set_cv_def)
      ultimately show thesis using that(2) [of "s\<lparr>world := w1\<rparr>" "[]"] some w peek
        by (simp add: complete_tx_def)
    next
      case (2 ds)
      have v1: "view w1 = take_in CompRing ds (view ?w)" using 2(6) by (simp add: w(2) take_in_def)
      obtain ret idx_fq w2 where res: "prod_reserve api FillRing k w1 = (ret, idx_fq, w2)" by (metis prod_cases3)
      have "reserved (pv (view w1) FillRing) = []" using idle by (simp add: v1)
      with laws res 2(1) show thesis
      proof (cases rule: prod_reserve_cases)
        case 1
        then show thesis using that(2) [of "s\<lparr>world := w2\<rparr>" ds] some w(1) peek res 2(1)
          by (simp add: complete_tx_def v1)
      next
        case r: (2 slots)
        have "k \<le> ?n" by (rule 2(2))
        then have "unat k \<le> unat (outstanding_tx s)"
          by (auto simp: word_le_nat_alt word_less_nat_alt split: if_splits)
        moreover have "of_nat (length ds) = k" using 2(3) by simp
        moreover have "unat k \<noteq> 0" using 2(1) unat_eq_zero by blast
        then have nz: "ret \<noteq> 0" by (simp only: r(1) of_nat_eq_0_iff not_False_eq_True)
        moreover note complete_move_view [OF laws 2(3,1) _ v1 r(6,3), folded r(4)] 2(5)
        ultimately show thesis
          using that(3) [of ds "s\<lparr>world := cons_release api CompRing k (prod_submit api FillRing k
              (move_completed api (unat k) idx_fq idx_cq w2)), outstanding_tx := outstanding_tx s - k\<rparr>"]
            some w peek res 2(1,3,4) r(1,2) nz
          by (simp add: complete_tx_def v1 Let_def)
      qed
    qed
  qed
qed

lemma poll_rx_queue_view:
  assumes laws: "xsk_laws api view"
  obtains ds w' where "poll_rx_queue cf api cnt w = (ucast (of_nat (length ds) :: u32), ds, w')"
    and "length ds \<le> unat cnt" and "view w' = take_in RxRing ds (view w)"
proof -
  obtain k idx w1 where peek: "cons_peek api RxRing cnt w = (k, idx, w1)" by (metis prod_cases3)
  from laws peek show thesis
  proof (cases rule: cons_peek_cases)
    case 1
    have "view (wake_rx api w1) = view w1" using xsk_lawsD(7) [OF laws] by (simp add: other_law_def)
    moreover have "take_in RxRing [] (view w) = view w" by (simp add: take_in_def set_cv_def)
    ultimately show thesis using 1 peek that [of "[]"] by (simp add: poll_rx_queue_def)
  next
    case (2 ds)
    let ?c = "cv (view w) RxRing"
    have v: "view w1 = take_in RxRing ds (view w)" using 2(6) by (simp add: take_in_def)
    have "cons_desc api RxRing (idx + of_nat i) w1 = ds ! i" if "i < length ds" for i
    proof -
      have law: "j < length (taken (cv (view w1) RxRing)) \<Longrightarrow> length (taken (cv (view w1) RxRing)) < 2 ^ 32 \<Longrightarrow>
          cons_desc api RxRing (first_taken (cv (view w1) RxRing) + of_nat j) w1 = taken (cv (view w1) RxRing) ! j" for j
        using xsk_lawsD(5) [OF laws] unfolding desc_law_def Let_def by blast
      show ?thesis
        using law [of "length (taken ?c) + i"] that 2(5) by (simp add: v 2(4) nth_append add.assoc)
    qed
    then have "map (\<lambda>i. cons_desc api RxRing (idx + of_nat i) w1) [0..<unat k] = ds"
      using 2(3) by (intro nth_equalityI) simp_all
    moreover have "of_nat (length ds) = k" "length ds \<le> unat cnt" using 2(2,3) by (simp_all add: word_le_nat_alt)
    ultimately show thesis using 2(1) v peek that [of ds w1] by (simp add: poll_rx_queue_def)
  qed
qed

section \<open>Conservation of frames\<close>

text \<open>
  With \<open>base\<close> frames in the fill ring at the start: every descriptor that was given back to the
  kernel on a consumer ring was submitted on a producer ring and conversely, nothing is left
  reserved, and \<open>outstanding_tx\<close> is the number of frames sent whose completion was not returned.
\<close>

definition heart_inv :: "('w \<Rightarrow> xsk_view) \<Rightarrow> nat \<Rightarrow> 'w heart \<Rightarrow> bool" where
  "heart_inv view base s \<longleftrightarrow> (let v = view (world s) in
     reserved (pv v FillRing) = [] \<and> reserved (pv v TxRing) = [] \<and>
     length (submitted (pv v FillRing)) + length (submitted (pv v TxRing)) =
       base + length (released (cv v RxRing)) + length (released (cv v CompRing)) \<and>
     of_nat (length (submitted (pv v TxRing))) =
       of_nat (length (released (cv v CompRing))) + outstanding_tx s)"

text \<open>
  How a run may end early, with the cause: in copy mode the wakeup of the transmission fails; the
  program passes a packet of 1500 bytes or more, which is asserted away; or the link has a failure
  waiting in it. The last two need packet injection.
\<close>

definition run_ok :: "config \<Rightarrow> 'w xsk_api \<Rightarrow> c_error option \<Rightarrow> ('a \<Rightarrow> bool) \<Rightarrow> 'a c_result \<Rightarrow> bool" where
  "run_ok cf api lf P m \<longleftrightarrow> (case m of Inr x \<Rightarrow> P x
     | Inl e \<Rightarrow> e = Exit 1 \<and> copy_mode cf = XDP_COPY \<and> kick_fails api \<or>
         use_packet_injection cf \<noteq> 0 \<and> (e = AssertFail \<and> passes_oversized api \<or> lf = Some e))"

lemma run_ok_simps [simp]: "run_ok cf api lf P (Inr x) = P x"
  by (simp add: run_ok_def)

lemma run_ok_bind: "run_ok cf api lf P m \<Longrightarrow> (\<And>x. P x \<Longrightarrow> run_ok cf api lf Q (f x)) \<Longrightarrow> run_ok cf api lf Q (c_bind m f)"
  by (cases m) (auto simp: run_ok_def)

lemma run_ok_mono: "run_ok cf api lf P m \<Longrightarrow> (\<And>x. P x \<Longrightarrow> Q x) \<Longrightarrow> run_ok cf api lf Q m"
  by (auto simp: run_ok_def split: sum.splits)

text \<open>The invariant with the failure \<open>lf\<close> waiting in the link and at least \<open>n\<close> received and \<open>c\<close> completed descriptors in hand.\<close>

definition holds :: "('w \<Rightarrow> xsk_view) \<Rightarrow> nat \<Rightarrow> vchannel option \<Rightarrow> c_error option \<Rightarrow> nat \<Rightarrow> nat \<Rightarrow> 'w heart \<Rightarrow> bool" where
  "holds view base vc lf n c s \<longleftrightarrow> heart_inv view base s \<and> link_wf vc (chan s) \<and> link_fault vc (chan s) = lf \<and>
     n \<le> length (taken (cv (view (world s)) RxRing)) \<and> c \<le> length (taken (cv (view (world s)) CompRing))"

lemma heart_inv_view_cong:
  "heart_inv view base s \<Longrightarrow> view (world s') = view (world s) \<Longrightarrow> outstanding_tx s' = outstanding_tx s \<Longrightarrow>
     heart_inv view base s'"
  by (simp add: heart_inv_def Let_def)

lemma heart_inv_idle:
  assumes "heart_inv view base s"
  shows "reserved (pv (view (world s)) FillRing) = []" and "reserved (pv (view (world s)) TxRing) = []"
  using assms by (simp_all add: heart_inv_def Let_def)

lemma holds_drop:
  assumes "holds view base vc lf (Suc n) c s" and "view w' = give_back RxRing 1 (give FillRing [e] (view (world s)))"
  shows "holds view base vc lf n c (s\<lparr>world := w'\<rparr>)"
proof -
  have "1 \<le> length (taken (cv (view (world s)) RxRing))" using assms(1) by (simp add: holds_def)
  then show ?thesis using assms by (auto simp: holds_def heart_inv_def Let_def)
qed

lemma holds_tx:
  assumes "holds view base vc lf (Suc n) c s" and "view w' = give_back RxRing 1 (give TxRing [e] (view (world s)))"
  shows "holds view base vc lf n c (s\<lparr>world := w', outstanding_tx := outstanding_tx s + 1\<rparr>)"
proof -
  have "1 \<le> length (taken (cv (view (world s)) RxRing))" using assms(1) by (simp add: holds_def)
  then show ?thesis using assms by (auto simp: holds_def heart_inv_def Let_def)
qed

lemma holds_same:
  "holds view base vc lf n c s \<Longrightarrow> view w' = view (world s) \<Longrightarrow> holds view base vc lf n c (s\<lparr>world := w'\<rparr>)"
  by (simp add: holds_def heart_inv_def Let_def)

lemma holds_weaken: "holds view base vc lf (Suc n) c s \<Longrightarrow> holds view base vc lf n c s"
  by (simp add: holds_def)

text \<open>The two calls for a single descriptor.\<close>

lemma xsk_drop_one:
  assumes laws: "xsk_laws api view" and h: "holds view base vc lf (Suc n) c s"
  obtains w' where "xsk_drop api [d] 1 (world s) = Inr (0, w')" and "view w' = view (world s)"
  | w' where "xsk_drop api [d] 1 (world s) = Inr (1, w')"
    and "view w' = give_back RxRing 1 (give FillRing [fill_entry api d] (view (world s)))"
proof -
  from h have inv: "heart_inv view base s" and t: "unat (1 :: u32) \<le> length (taken (cv (view (world s)) RxRing))"
    by (simp_all add: holds_def)
  from xsk_drop_view [OF laws heart_inv_idle(1) [OF inv] _ _ t, of "[d]"]
  show thesis using that by auto
qed

lemma xsk_tx_one:
  assumes laws: "xsk_laws api view" and h: "holds view base vc lf (Suc n) c s"
  obtains w' where "xsk_tx api [d] 1 s = Inr (0, s\<lparr>world := w'\<rparr>)" and "view w' = view (world s)"
  | w' where "xsk_tx api [d] 1 s = Inr (1, s\<lparr>world := w', outstanding_tx := outstanding_tx s + 1\<rparr>)"
    and "view w' = give_back RxRing 1 (give TxRing [tx_entry api d] (view (world s)))"
proof -
  from h have inv: "heart_inv view base s" and t: "unat (1 :: u32) \<le> length (taken (cv (view (world s)) RxRing))"
    by (simp_all add: holds_def)
  from xsk_tx_view [OF laws heart_inv_idle(2) [OF inv] _ _ t, of "[d]"]
  obtain ret s' where c: "xsk_tx api [d] 1 s = Inr (ret, s')"
    and v: "ret = 0 \<and> view (world s') = view (world s) \<and> s' = s\<lparr>world := world s'\<rparr> \<or>
     ret = 1 \<and> view (world s') = give_back RxRing 1 (give TxRing [tx_entry api d] (view (world s))) \<and>
       s' = s\<lparr>world := world s', outstanding_tx := outstanding_tx s + 1\<rparr>" by auto
  from v show thesis
  proof (elim disjE conjE)
    assume "ret = 0" "view (world s') = view (world s)" "s' = s\<lparr>world := world s'\<rparr>"
    then show thesis using that(1) [of "world s'"] c by metis
  next
    assume "ret = 1" "view (world s') = give_back RxRing 1 (give TxRing [tx_entry api d] (view (world s)))"
      "s' = s\<lparr>world := world s', outstanding_tx := outstanding_tx s + 1\<rparr>"
    then show thesis using that(2) [of "world s'"] c by metis
  qed
qed

lemma drop_one_inv:
  assumes laws: "xsk_laws api view" and h: "holds view base vc lf (Suc n) c s"
  shows "run_ok cf api lf (holds view base vc lf n c) (drop_one api d s)"
  using laws h
proof (cases rule: xsk_drop_one [where d = d])
  case (1 w')
  then show ?thesis using holds_same [OF holds_weaken [OF h] 1(2)] by (simp add: drop_one_def)
next
  case (2 w')
  then show ?thesis using holds_drop [OF h 2(2)] by (simp add: drop_one_def)
qed

lemma send_packet_inv:
  assumes laws: "xsk_laws api view" and h: "holds view base vc lf (Suc n) c s"
  shows "run_ok cf api lf (holds view base vc lf n c)
    (c_bind (xsk_tx api [d] 1 s) (\<lambda>(ret, s). if ret \<noteq> 1 then drop_one api d s else Inr s))"
  using laws h
proof (cases rule: xsk_tx_one [where d = d])
  case (1 w')
  then show ?thesis using drop_one_inv [OF laws holds_same [OF h 1(2)]] by simp
next
  case (2 w')
  then show ?thesis using holds_tx [OF h 2(2)] by simp
qed

lemma link_send_inv:
  assumes "link_wf vc ch" and "unat n \<le> length buf"
  obtains "link_send vc ch buf n = Inl AssertFail" and "1500 \<le> unat n"
  | e where "link_send vc ch buf n = Inl e" and "link_fault vc ch = Some e"
  | ret ch' where "link_send vc ch buf n = Inr (ret, ch')" and "link_wf vc ch'" and "link_fault vc ch' = link_fault vc ch"
proof (cases "unat n < MAX_SHARED_OBJ_SIZE")
  case False
  then have "link_send vc ch buf n = Inl AssertFail"
    by (cases vc) (simp_all add: link_send_def send_interpose_msg_def vc_tx_msg_def)
  then show thesis using that(1) False by (simp add: MAX_SHARED_OBJ_SIZE_def)
next
  case True
  show thesis
  proof (cases vc)
    case None
    then show thesis using that(2) True by (simp add: link_send_def)
  next
    case (Some v)
    with assms(1) have v: "vc_wf ch" "proc_id v = 0 \<or> proc_id v = 1" by simp_all
    show thesis
    proof (cases "at_home v ch")
      case home: True
      then have side: "vc_side v ch" using v(2) by (simp add: vc_side_def)
      show thesis
        using that(3) vc_tx_msg_sent [OF v(1) side True assms(2)] vc_sent_wf(1) [OF v(1) side, of "take (unat n) buf"]
          True assms(2) v(2) link_fault_cong [of "vc_sent v ch (take (unat n) buf)" ch vc]
        by (auto simp: Some send_interpose_msg_def)
    next
      case False
      then show thesis using that(2) [of WildPointer] vc_away(1) [OF v False, of buf n] True
        by (simp add: Some send_interpose_msg_def link_fault_def)
    qed
  qed
qed

lemma other_lawD:
  assumes "xsk_laws api view"
  shows "view (wake_rx api w) = view w" and "send_tx api w = (r, e, w') \<Longrightarrow> view w' = view w"
    and "run_prog api a l w = (x, m, t, w') \<Longrightarrow> view w' = view w"
    and "udp_send api b w = (r, w') \<Longrightarrow> view w' = view w" and "length (umem_bytes api a l w) = unat l"
  using xsk_lawsD(7) [OF assms] unfolding other_law_def by blast+

lemma apply_action_inv:
  assumes laws: "xsk_laws api view" and h: "holds view base vc lf (Suc n) c s"
    and size: "action = PASS \<Longrightarrow> 1500 \<le> unat (d_len d) \<Longrightarrow> passes_oversized api"
  shows "run_ok cf api lf (holds view base vc lf n c) (apply_action cf api vc s d action)"
proof -
  let ?ctx = "umem_bytes api (add_offset api (d_addr d)) (d_len d) (world s)"
  have wf: "link_wf vc (chan s)" and lf: "link_fault vc (chan s) = lf" using h by (simp_all add: holds_def)
  have "run_ok cf api lf (holds view base vc lf n c) (apply_action cf api vc s d PASS)" if "use_packet_injection cf \<noteq> 0" "action = PASS"
    using wf eq_refl [OF other_lawD(5) [OF laws, symmetric]]
  proof (cases rule: link_send_inv [of vc "chan s" "d_len d" ?ctx, case_names big fault sent])
    case big
    then show ?thesis using that big size by (simp add: apply_action_def PASS_def SEND_def run_ok_def)
  next
    case (fault e)
    then show ?thesis using that lf by (simp add: apply_action_def PASS_def SEND_def run_ok_def)
  next
    case (sent ret ch')
    have "holds view base vc lf (Suc n) c (s\<lparr>chan := ch'\<rparr>)"
      using h sent(2,3) by (simp add: holds_def heart_inv_def Let_def)
    then show ?thesis using that sent(1) drop_one_inv [OF laws] by (simp add: apply_action_def PASS_def SEND_def)
  qed
  moreover have "run_ok cf api lf (holds view base vc lf n c) (apply_action cf api vc s d PASS)" if "use_packet_injection cf = 0"
  proof -
    obtain r w' where c: "udp_send api ?ctx (world s) = (r, w')" by (metis surj_pair)
    show ?thesis using that c drop_one_inv [OF laws holds_same [OF h other_lawD(4) [OF laws c]]]
      by (simp add: apply_action_def PASS_def SEND_def)
  qed
  moreover have "run_ok cf api lf (holds view base vc lf n c) (apply_action cf api vc s d action)" if "action \<noteq> PASS"
    using that send_packet_inv [OF laws h] drop_one_inv [OF laws h] by (simp add: apply_action_def)
  ultimately show ?thesis by blast
qed

lemma heart_inv_holds: "heart_inv view base s \<longleftrightarrow> holds view base None (Some NullDeref) 0 0 s"
  by (simp add: holds_def)

lemma complete_tx_inv:
  assumes laws: "xsk_laws api view" and h: "holds view base vc lf n c s"
  shows "run_ok cf api lf (\<lambda>(_, s). holds view base vc lf n c s) (complete_tx cf api s)"
proof -
  have inv: "heart_inv view base s" using h by (simp add: holds_def)
  from laws heart_inv_idle(1) [OF inv] show ?thesis
  proof (cases rule: complete_tx_view [where cf = cf])
    case 1
    then show ?thesis by (simp add: run_ok_def)
  next
    case (2 ds s')
    have "chan s' = chan s" "outstanding_tx s' = outstanding_tx s" by (subst 2(2), simp)+
    then show ?thesis using h 2(1,3) by (simp add: holds_def heart_inv_def Let_def)
  next
    case (3 ds s')
    let ?c = "taken (cv (view (world s)) CompRing)"
    have "chan s' = chan s" "outstanding_tx s' = outstanding_tx s - of_nat (length ds)" by (subst 3(3), simp)+
    moreover have "length (take (length ds) (?c @ ds)) = length ds" "length (drop (length ds) (?c @ ds)) = length ?c"
      by simp_all
    ultimately show ?thesis using h 3(1,4)
      by (simp add: holds_def heart_inv_def Let_def del: length_take length_drop take_append drop_append)
  qed
qed

lemma process_packet_inv:
  assumes laws: "xsk_laws api view" and h: "holds view base vc lf (Suc n) c s"
  shows "run_ok cf api lf (holds view base vc lf n c) (process_packet cf api vc s d)"
proof -
  obtain ret len trim w where run: "run_prog api (add_offset api (d_addr d)) (d_len d) (world s) = (ret, len, trim, w)"
    by (metis prod_cases4)
  let ?d = "\<lparr>d_addr = d_addr d + scast trim, d_len = len\<rparr>"
  have "run_ok cf api lf (holds view base vc lf n c) (apply_action cf api vc (s\<lparr>world := w\<rparr>) ?d ret)"
    by (rule apply_action_inv [OF laws holds_same [OF h other_lawD(3) [OF laws run]]]) (use run in \<open>fastforce simp: passes_oversized_def\<close>)
  then show ?thesis unfolding process_packet_def run Let_def prod.case
    by (rule run_ok_bind) (simp add: holds_def heart_inv_def Let_def)
qed

lemma process_batch_inv:
  assumes laws: "xsk_laws api view"
  shows "holds view base vc lf (length ds + n) c s \<Longrightarrow> run_ok cf api lf (holds view base vc lf n c) (process_batch cf api vc ds s)"
proof (induction ds arbitrary: s)
  case (Cons d ds)
  have "holds view base vc lf (Suc (length ds + n)) c s" using Cons.prems by simp
  from process_packet_inv [OF laws this] show ?case
    unfolding process_batch.simps by (rule run_ok_bind) (rule Cons.IH)
qed simp

lemma report_inv: "holds view base vc lf n c s \<Longrightarrow> holds view base vc lf n c (report now rx s)"
  by (simp add: holds_def heart_inv_def report_def Let_def)

lemma pump_turn_inv:
  assumes laws: "xsk_laws api view" and h: "holds view base vc lf n c s"
  shows "run_ok cf api lf (holds view base vc lf n c) (pump_turn cf api vc now s)"
  unfolding pump_turn_def
proof (rule run_ok_bind [where P = "holds view base vc lf n c"])
  show "run_ok cf api lf (holds view base vc lf n c)
      (if outstanding_tx s > 0 then c_bind (complete_tx cf api s) (\<lambda>(_, s). Inr s) else Inr s)"
    using complete_tx_inv [OF laws h, of cf] h by (auto intro: run_ok_bind)
next
  fix s assume h: "holds view base vc lf n c s"
  obtain ds w' where p: "poll_rx_queue cf api (batch_size cf) (world s) = (ucast (of_nat (length ds) :: u32), ds, w')"
    and v: "view w' = take_in RxRing ds (view (world s))"
    using poll_rx_queue_view [OF laws] by blast
  let ?rx = "ucast (of_nat (length ds) :: u32) :: u16"
  have "length (take (unat ?rx) ds) \<le> length ds" by simp
  moreover have "n \<le> length (taken (cv (view (world s)) RxRing))" using h by (simp add: holds_def)
  ultimately have "length (take (unat ?rx) ds) + n \<le> length (taken (cv (view (world s)) RxRing)) + length ds"
    by linarith
  then have "holds view base vc lf (length (take (unat ?rx) ds) + n) c (s\<lparr>world := w'\<rparr>)"
    using h by (simp add: holds_def heart_inv_def Let_def v del: length_take)
  from process_batch_inv [OF laws this]
  have batch: "run_ok cf api lf (holds view base vc lf n c) (c_bind (process_batch cf api vc (take (unat ?rx) ds) (s\<lparr>world := w'\<rparr>))
      (\<lambda>s. Inr (report now (ucast ?rx) s)))"
    by (rule run_ok_bind) (simp add: report_inv)
  have "holds view base vc lf n c (s\<lparr>world := w'\<rparr>)" using h by (simp add: holds_def heart_inv_def Let_def v)
  then show "run_ok cf api lf (holds view base vc lf n c) (let (rx, batch, w) = poll_rx_queue cf api (batch_size cf) (world s);
         s = s\<lparr>world := w\<rparr> in
     if rx = 0 then Inr s
     else c_bind (process_batch cf api vc (take (unat rx) batch) s) (\<lambda>s. Inr (report now (ucast rx) s)))"
    unfolding p Let_def prod.case using batch by simp
qed

lemma pump_loop_inv:
  assumes laws: "xsk_laws api view"
  shows "holds view base vc lf n c s \<Longrightarrow> run_ok cf api lf (\<lambda>(_, s). holds view base vc lf n c s) (pump_loop cf api vc turns s)"
proof (induction turns arbitrary: s)
  case (Cons t turns)
  obtain stop now where t: "t = (stop, now)" by (metis surj_pair)
  show ?case
  proof (cases stop)
    case False
    then show ?thesis unfolding t pump_loop.simps
      using run_ok_bind [OF pump_turn_inv [OF laws Cons.prems] Cons.IH] by simp
  qed (use Cons.prems in \<open>simp add: t\<close>)
qed simp

lemma pump_packets_inv:
  assumes laws: "xsk_laws api view" and h: "holds view base vc lf n c s"
  shows "run_ok cf api lf (\<lambda>(_, s). holds view base vc lf n c s) (pump_packets cf api vc compiled start turns s)"
proof -
  have "holds view base vc lf n c (s\<lparr>rprt_ts := start\<rparr>)" using h by (simp add: holds_def heart_inv_def Let_def)
  then show ?thesis using pump_loop_inv [OF laws] by (simp add: pump_packets_def Let_def)
qed

lemma heart_start_inv:
  assumes "view (world s) = empty_view" and "outstanding_tx s = 0"
  shows "heart_inv view 0 s"
  using assms by (simp add: heart_inv_def empty_view_def)

end
