(* ===== verification/DataPath.thy ===== *)
theory DataPath
  imports Heart
begin
text \<open>
  The properties of the data path: what each verdict does with the frame, what completing
  transmissions does, the ledger of frames over any number of turns of the pump loop, and the
  batched variant. The rings keep \<open>xsk_laws\<close>; the witnesses run on \<open>demo_api\<close>.
\<close>

section \<open>States for the witnesses\<close>

text \<open>
  A socket with one received frame in hand; \<open>fill_room\<close> and \<open>tx_room\<close> say whether the two
  producer rings have room, \<open>ready_descs\<close> what the kernel has ready on the consumer rings.
\<close>

definition demo_frame :: "u32 \<Rightarrow> xdp_desc" where "demo_frame n = \<lparr>d_addr = 4096, d_len = n\<rparr>"

definition demo_heart :: "bool \<Rightarrow> bool \<Rightarrow> xdp_desc list \<Rightarrow> demo_world heart" where
  "demo_heart fill_room tx_room ready_descs =
     \<lparr>world = \<lparr>dview = take_in RxRing [demo_frame 3] empty_view, ready = (\<lambda>_. ready_descs),
        room = (\<lambda>r. case r of FillRing \<Rightarrow> fill_room | TxRing \<Rightarrow> tx_room)\<rparr>,
      outstanding_tx = 0, chan = demo_channel, pkt_count = 0, sent_count = 0, rprt_ts = 0\<rparr>"

definition demo_config :: config where
  "demo_config = default_config\<lparr>use_packet_injection := 1\<rparr>"

lemma demo_heart_simps [simp]:
  "chan (demo_heart f t ds) = demo_channel" "outstanding_tx (demo_heart f t ds) = 0"
  "dview (world (demo_heart f t ds)) = take_in RxRing [demo_frame 3] empty_view"
  "rprt_ts (demo_heart f t ds) = 0"
  by (simp_all add: demo_heart_def)

lemma empty_view_simps [simp]:
  "submitted (pv empty_view r) = []" "reserved (pv empty_view r) = []"
  "released (cv empty_view c) = []" "taken (cv empty_view c) = []"
  by (simp_all add: empty_view_def)

lemma demo_heart_holds: "heart_inv dview 0 (demo_heart f t ds)"
  by (simp add: heart_inv_def)

lemma demo_config_simps [simp]:
  "use_packet_injection demo_config = 1" "copy_mode demo_config = XDP_ZEROCOPY"
  by (simp_all add: demo_config_def default_config_def)

lemma demo_api_simps [simp]:
  "umem_bytes (demo_api v) a l w = replicate (unat l) 0"
  "run_prog (demo_api v) a l w = (v, l, 0, w)"
  "prod_reserve (demo_api v) = demo_reserve" "cons_peek (demo_api v) = demo_peek"
  by (simp_all add: demo_api_def)

lemma demo_frame_simps [simp]: "d_len (demo_frame n) = n" "d_addr (demo_frame n) = 4096"
  by (simp_all add: demo_frame_def)

lemma demo_link: "link_wf (Some (endpoint 4096 b)) (chan (demo_heart f t ds))"
    "link_fault (Some (endpoint 4096 b)) (chan (demo_heart f t ds)) = None"
  using demo_side [of b] by (simp_all add: demo_channel_wf vc_side_def)

section \<open>The verdicts\<close>

text \<open>The three things that can happen to the frame in hand.\<close>

datatype placement = OnTx | OnFill | Nowhere

definition placed :: "'w xsk_api \<Rightarrow> xdp_desc \<Rightarrow> placement \<Rightarrow> xsk_view \<Rightarrow> xsk_view" where
  "placed api d p v = (case p of
     OnTx \<Rightarrow> give_back RxRing 1 (give TxRing [tx_entry api d] v)
   | OnFill \<Rightarrow> give_back RxRing 1 (give FillRing [fill_entry api d] v)
   | Nowhere \<Rightarrow> v)"

text \<open>Whether a reservation of one entry is refused, and the state after it.\<close>

definition refused :: "'w xsk_api \<Rightarrow> prod_ring \<Rightarrow> 'w \<Rightarrow> bool" where
  "refused api r w \<longleftrightarrow> fst (prod_reserve api r 1 w) = 0"

definition after_reserve :: "'w xsk_api \<Rightarrow> prod_ring \<Rightarrow> 'w \<Rightarrow> 'w" where
  "after_reserve api r w = snd (snd (prod_reserve api r 1 w))"

lemma xsk_drop_result:
  assumes "xsk_drop api [d] 1 w = Inr (r, w')"
  shows "refused api FillRing w \<Longrightarrow> r = 0" and "\<not> refused api FillRing w \<Longrightarrow> xsk_laws api view \<Longrightarrow> r = 1"
    and "refused api FillRing w \<Longrightarrow> w' = after_reserve api FillRing w"
proof -
  obtain ret idx w1 where c: "prod_reserve api FillRing 1 w = (ret, idx, w1)" by (metis prod_cases3)
  show "refused api FillRing w \<Longrightarrow> r = 0" "refused api FillRing w \<Longrightarrow> w' = after_reserve api FillRing w"
    using assms c by (auto simp: refused_def after_reserve_def xsk_drop_def)
  assume "\<not> refused api FillRing w" "xsk_laws api view"
  then have "ret = 1" using xsk_lawsD(1) c unfolding reserve_law_def Let_def refused_def by fastforce
  then show "r = 1" using assms c by (simp add: xsk_drop_def c_check_def Let_def)
qed

lemma xsk_tx_result:
  assumes "xsk_tx api [d] 1 s = Inr (r, s')"
  shows "refused api TxRing (world s) \<Longrightarrow> r = 0" and "\<not> refused api TxRing (world s) \<Longrightarrow> xsk_laws api view \<Longrightarrow> r = 1"
    and "refused api TxRing (world s) \<Longrightarrow> world s' = after_reserve api TxRing (world s)"
proof -
  obtain ret idx w1 where c: "prod_reserve api TxRing 1 (world s) = (ret, idx, w1)" by (metis prod_cases3)
  show "refused api TxRing (world s) \<Longrightarrow> r = 0"
    "refused api TxRing (world s) \<Longrightarrow> world s' = after_reserve api TxRing (world s)"
    using assms c by (auto simp: refused_def after_reserve_def xsk_tx_def)
  assume "\<not> refused api TxRing (world s)" "xsk_laws api view"
  then have "ret = 1" using xsk_lawsD(1) c unfolding reserve_law_def Let_def refused_def by fastforce
  then show "r = 1" using assms c by (simp add: xsk_tx_def c_check_def Let_def)
qed

definition drop_place :: "'w xsk_api \<Rightarrow> 'w \<Rightarrow> placement" where
  "drop_place api w = (if refused api FillRing w then Nowhere else OnFill)"

definition send_place :: "'w xsk_api \<Rightarrow> 'w \<Rightarrow> placement" where
  "send_place api w =
     (if refused api TxRing w then drop_place api (after_reserve api TxRing w) else OnTx)"

lemma drop_one_placed:
  assumes laws: "xsk_laws api view" and h: "holds view base vc lf (Suc n) c s"
  shows "\<exists>w'. drop_one api d s = Inr (s\<lparr>world := w'\<rparr>) \<and>
    view w' = placed api d (drop_place api (world s)) (view (world s))"
  using laws h
proof (cases rule: xsk_drop_one [where d = d])
  case (1 w')
  then have "drop_place api (world s) = Nowhere"
    using xsk_drop_result(2) [OF 1(1) _ laws] by (auto simp: drop_place_def)
  then show ?thesis using 1 by (intro exI [of _ w']) (simp add: drop_one_def placed_def)
next
  case (2 w')
  then have "drop_place api (world s) = OnFill"
    using xsk_drop_result(1) [OF 2(1)] by (auto simp: drop_place_def)
  then show ?thesis using 2 by (intro exI [of _ w']) (simp add: drop_one_def placed_def)
qed

lemma send_placed:
  assumes laws: "xsk_laws api view" and h: "holds view base l lf (Suc n) c s"
  shows "\<exists>w'. apply_action cf api vc s d SEND =
      Inr (s\<lparr>world := w', outstanding_tx := outstanding_tx s + (if send_place api (world s) = OnTx then 1 else 0)\<rparr>) \<and>
    view w' = placed api d (send_place api (world s)) (view (world s))"
  using laws h
proof (cases rule: xsk_tx_one [where d = d])
  case (1 w1)
  have r: "refused api TxRing (world s)" using xsk_tx_result(2) [OF 1(1) _ laws] by auto
  have w1: "w1 = after_reserve api TxRing (world s)" using xsk_tx_result(3) [OF 1(1) r] by simp
  from drop_one_placed [OF laws holds_same [OF h 1(2)], of d] obtain w' where
    w': "drop_one api d (s\<lparr>world := w1\<rparr>) = Inr (s\<lparr>world := w'\<rparr>)"
      "view w' = placed api d (drop_place api w1) (view w1)" by auto
  moreover have "drop_place api w \<noteq> OnTx" for w by (simp add: drop_place_def)
  ultimately show ?thesis using 1 r by (intro exI [of _ w']) (simp add: apply_action_def send_place_def flip: w1)
next
  case (2 w')
  then have "send_place api (world s) = OnTx"
    using xsk_tx_result(1) [OF 2(1)] by (auto simp: send_place_def)
  then show ?thesis using 2 by (intro exI [of _ w']) (simp add: apply_action_def placed_def)
qed

lemma in_hand:
  "heart_inv view base s \<Longrightarrow> taken (cv (view (world s)) RxRing) \<noteq> [] \<Longrightarrow> holds view base None (Some NullDeref) (Suc 0) 0 s"
  by (simp add: holds_def Suc_le_eq)

text \<open>C22: a frame whose verdict is to send goes to the transmit ring and is counted as outstanding, or,
  when that ring has no room, back to the fill ring; when that ring has no room either it goes
  nowhere and its receive entry is not given back. No entry of another frame changes and the
  run does not fail.\<close>

theorem send_verdict:
  assumes "xsk_laws api view" and "heart_inv view base s" and "taken (cv (view (world s)) RxRing) \<noteq> []"
  shows "\<exists>w'. apply_action cf api vc s d SEND =
      Inr (s\<lparr>world := w', outstanding_tx := outstanding_tx s + (if refused api TxRing (world s) then 0 else 1)\<rparr>) \<and>
    view w' =
      (if \<not> refused api TxRing (world s)
       then give_back RxRing 1 (give TxRing [tx_entry api d] (view (world s)))
       else if \<not> refused api FillRing (after_reserve api TxRing (world s))
       then give_back RxRing 1 (give FillRing [fill_entry api d] (view (world s)))
       else view (world s))"
  using send_placed [OF assms(1) in_hand [OF assms(2,3)], of cf vc d]
  by (auto simp: placed_def send_place_def drop_place_def split: if_splits)

theorem send_verdict_witness:
  "\<exists>w'. apply_action demo_config (demo_api SEND) (Some (endpoint 4096 False)) (demo_heart True False []) (demo_frame 3) SEND =
      Inr ((demo_heart True False [])\<lparr>world := w', outstanding_tx := 0\<rparr>) \<and>
    submitted (pv (dview w') FillRing) = [\<lparr>d_addr = 4096, d_len = 0\<rparr>] \<and> taken (cv (dview w') RxRing) = []"
proof -
  have "refused (demo_api SEND) TxRing (world (demo_heart True False []))"
    "after_reserve (demo_api SEND) TxRing (world (demo_heart True False [])) = world (demo_heart True False [])"
    "\<not> refused (demo_api SEND) FillRing (world (demo_heart True False []))"
    by (simp_all add: refused_def after_reserve_def demo_api_def demo_reserve_def demo_heart_def Let_def)
  then show ?thesis
    using send_verdict [OF demo_laws, of 0 "demo_heart True False []" demo_config SEND "Some (endpoint 4096 False)" "demo_frame 3"]
      demo_heart_holds [of True False "[]"]
    by (auto simp: holds_def fill_entry_def demo_api_def demo_frame_def)
qed

text \<open>A passed packet below the limit is sent, whatever happens to the frame afterwards.\<close>

lemma pass_sends:
  assumes laws: "xsk_laws api view" and "heart_inv view base s" and "taken (cv (view (world s)) RxRing) \<noteq> []"
    and side: "vc_side vc (chan s)" and inj: "use_packet_injection cf \<noteq> 0" and wf: "vc_wf (chan s)"
    and room: "length (vc_pending (chan s) (1 - proc_id vc)) < unat (ring_size (chan s)) - 1"
    and small: "unat (d_len d) < 1500"
    and b: "b = umem_bytes api (add_offset api (d_addr d)) (d_len d) (world s)"
  obtains w' where "apply_action cf api (Some vc) s d PASS = Inr (s\<lparr>chan := vc_sent vc (chan s) b, world := w'\<rparr>)"
    and "view w' = placed api d (drop_place api (world s)) (view (world s))"
proof -
  let ?ch = "vc_sent vc (chan s) b"
  have len: "length b = unat (d_len d)" unfolding b by (rule other_lawD(5) [OF laws])
  have "vc_tx_msg vc (chan s) b (d_len d) =
      Inr (if 0 < llring_room (vc_ring (chan s) (1 - proc_id vc)) then 0 else -1, ?ch)"
    using vc_tx_msg_sent [OF wf side, of "d_len d" b] small len by (simp add: MAX_SHARED_OBJ_SIZE_def)
  then have send: "send_interpose_msg vc (chan s) b (d_len d) = Inr (0, ?ch)"
    using room vc_room [OF wf side] by (auto simp: send_interpose_msg_def)
  have "heart_inv view base (s\<lparr>chan := ?ch\<rparr>)" using assms(2) by (simp add: heart_inv_def Let_def)
  then have "holds view base None (Some NullDeref) (Suc 0) 0 (s\<lparr>chan := ?ch\<rparr>)" using assms(3) by (simp add: in_hand)
  from drop_one_placed [OF laws this, of d] obtain w' where
    "drop_one api d (s\<lparr>chan := ?ch\<rparr>) = Inr (s\<lparr>chan := ?ch, world := w'\<rparr>)"
    "view w' = placed api d (drop_place api (world s)) (view (world s))" by auto
  then show thesis using that send inj by (simp add: apply_action_def PASS_def SEND_def flip: b)
qed

lemma sent_pending:
  assumes wf: "vc_wf ch" and side: "vc_side vc ch" and "length b < MAX_SHARED_OBJ_SIZE"
    and free: "ObjPtr (vc_top ch) \<notin> set (vc_in_flight ch)"
    and room: "length (vc_pending ch (1 - proc_id vc)) < unat (ring_size ch) - 1"
  shows "vc_pending (vc_sent vc ch b) (1 - proc_id vc) = vc_pending ch (1 - proc_id vc) @ [b]"
proof -
  have "ObjPtr (vc_top ch) \<notin> set (llring_contents (vc_ring ch (1 - proc_id vc)))"
    using free by (auto simp: vc_in_flight_side(1) [OF side])
  then show ?thesis using vc_sent_pending(2) [OF wf side assms(3)] vc_room [OF wf side] room
    by (auto simp: vc_pending_def)
qed

text \<open>C23: with packet injection the packet of a passed frame is copied into a message. While the
  object at \<open>ring_top\<close> is not in flight and the ring has room, the application finds the packet's
  bytes behind its earlier messages; the frame then goes back to the fill ring if that has room.
  A packet of 1500 bytes or more, which fits a frame, ends the process in a failed assertion.\<close>

theorem pass_verdict:
  assumes "xsk_laws api view" and "heart_inv view base s" and "taken (cv (view (world s)) RxRing) \<noteq> []"
    and "vc_side vc (chan s)" and "use_packet_injection cf \<noteq> 0" and "vc_wf (chan s)"
    and "ObjPtr (vc_top (chan s)) \<notin> set (vc_in_flight (chan s))"
    and "length (vc_pending (chan s) (1 - proc_id vc)) < unat (ring_size (chan s)) - 1"
  shows "if unat (d_len d) < 1500
    then \<exists>w' ch'. apply_action cf api (Some vc) s d PASS = Inr (s\<lparr>chan := ch', world := w'\<rparr>) \<and>
      vc_pending ch' (1 - proc_id vc) = vc_pending (chan s) (1 - proc_id vc) @
        [umem_bytes api (add_offset api (d_addr d)) (d_len d) (world s)] \<and>
      view w' =
        (if refused api FillRing (world s) then view (world s)
         else give_back RxRing 1 (give FillRing [fill_entry api d] (view (world s))))
    else apply_action cf api (Some vc) s d PASS = Inl AssertFail"
proof (cases "unat (d_len d) < 1500")
  case True
  let ?b = "umem_bytes api (add_offset api (d_addr d)) (d_len d) (world s)"
  from assms(1-6,8) True refl obtain w' where
    "apply_action cf api (Some vc) s d PASS = Inr (s\<lparr>chan := vc_sent vc (chan s) ?b, world := w'\<rparr>)"
    "view w' = placed api d (drop_place api (world s)) (view (world s))" by (rule pass_sends)
  moreover have "length ?b < MAX_SHARED_OBJ_SIZE"
    using True other_lawD(5) [OF assms(1)] by (simp add: MAX_SHARED_OBJ_SIZE_def)
  ultimately show ?thesis
    unfolding if_P [OF True] using sent_pending [OF assms(6,4) _ assms(7,8)]
    by (intro exI [of _ w'] exI [of _ "vc_sent vc (chan s) ?b"]) (simp add: placed_def drop_place_def)
next
  case False
  then show ?thesis using assms(5)
    by (simp add: apply_action_def PASS_def SEND_def send_interpose_msg_def vc_tx_msg_def MAX_SHARED_OBJ_SIZE_def)
qed

theorem pass_verdict_witness:
  "\<exists>w' ch'. apply_action demo_config (demo_api PASS) (Some (endpoint 4096 False)) (demo_heart True True []) (demo_frame 3) PASS =
      Inr ((demo_heart True True [])\<lparr>chan := ch', world := w'\<rparr>) \<and> vc_pending ch' 1 = [[0, 0, 0]]"
proof -
  have "\<not> refused (demo_api PASS) FillRing (world (demo_heart True True []))"
    by (simp add: refused_def demo_api_def demo_reserve_def demo_heart_def Let_def)
  moreover have "proc_id (endpoint 4096 False) = 0" by (simp add: endpoint_def)
  moreover have "replicate 3 (0 :: u8) = [0, 0, 0]" by (simp add: numeral_3_eq_3)
  moreover have "vc_pending demo_channel 1 = []"
    using demo_channel_facts(6) [of 4096 True] by (simp add: endpoint_def del: demo_channel_facts)
  moreover note demo_heart_holds [of True True "[]"] demo_channel_wf
  ultimately show ?thesis
    using pass_verdict [where cf = demo_config and d = "demo_frame 3", OF demo_laws [of PASS],
        of 0 "demo_heart True True []" "endpoint 4096 False"]
    by (auto simp: holds_def)
qed

section \<open>Completed transmissions\<close>

text \<open>Completing transmissions moves the addresses of the completed frames to the fill ring in
  order, gives their entries back and takes them off the outstanding count; a call that moves
  nothing leaves the count alone. It fails only by the exit of a failed kick in copy mode, and it
  keeps the ledger of frames.\<close>

theorem complete_tx_moves:
  assumes "xsk_laws api view" and "heart_inv view base s"
  shows "case complete_tx cf api s of
      Inl e \<Rightarrow> e = Exit 1 \<and> copy_mode cf = XDP_COPY \<and> kick_fails api
    | Inr (n, s') \<Rightarrow> heart_inv view base s' \<and> s' = s\<lparr>world := world s', outstanding_tx := outstanding_tx s - word_of_int n\<rparr> \<and>
        (\<exists>ds. (n = 0 \<and> view (world s') = take_in CompRing ds (view (world s))) \<or>
          (n = int (length ds) \<and> length ds \<le> unat (outstanding_tx s) \<and>
           view (world s') = give_back CompRing (length ds)
             (give FillRing (map comp_entry ds) (take_in CompRing ds (view (world s))))))"
  using assms(1) heart_inv_idle(1) [OF assms(2)]
proof (cases rule: complete_tx_view [where cf = cf])
  case 1
  then show ?thesis by simp
next
  case (2 ds s')
  have "heart_inv view base s'"
    using complete_tx_inv [OF assms(1), of base None "Some NullDeref" 0 0 s cf] assms(2) 2(1) by (simp add: heart_inv_holds)
  moreover have "s' = s\<lparr>world := world s', outstanding_tx := outstanding_tx s\<rparr>" by (subst 2(2)) simp
  ultimately show ?thesis using 2 by auto
next
  case (3 ds s')
  have "heart_inv view base s'"
    using complete_tx_inv [OF assms(1), of base None "Some NullDeref" 0 0 s cf] assms(2) 3(1) by (simp add: heart_inv_holds)
  then show ?thesis using 3 by auto
qed

text \<open>A socket with one frame outstanding whose completion the kernel has ready.\<close>

definition demo_sent :: "bool \<Rightarrow> demo_world heart" where
  "demo_sent fill_room =
     (demo_heart fill_room True [demo_frame 7])\<lparr>outstanding_tx := 1,
        world := (world (demo_heart fill_room True [demo_frame 7]))\<lparr>dview := give TxRing [demo_frame 7] empty_view\<rparr>\<rparr>"

lemma demo_sent_simps [simp]:
  "outstanding_tx (demo_sent f) = 1" "dview (world (demo_sent f)) = give TxRing [demo_frame 7] empty_view"
  by (simp_all add: demo_sent_def)

lemma demo_sent_inv: "heart_inv dview 1 (demo_sent f)"
  by (simp add: heart_inv_def demo_sent_def demo_channel_wf)

lemma demo_sent_peek:
  "\<exists>idx w. demo_peek CompRing 1 (world (demo_sent f)) = (1, idx, w) \<and> room w FillRing = f \<and>
     dview w = take_in CompRing [demo_frame 7] (give TxRing [demo_frame 7] empty_view)"
  by (simp add: demo_peek_def demo_sent_def demo_heart_def Let_def take_in_def)

theorem complete_tx_moves_witness:
  "\<exists>n s'. complete_tx demo_config (demo_api SEND) (demo_sent True) = Inr (n, s') \<and> heart_inv dview 1 s'"
proof -
  have "complete_tx demo_config (demo_api SEND) (demo_sent True) \<noteq> Inl e" for e
    using complete_tx_moves [where cf = demo_config, OF demo_laws [of SEND] demo_sent_inv [of True]]
    by (auto simp: XDP_COPY_def XDP_ZEROCOPY_def)
  then obtain n s' where "complete_tx demo_config (demo_api SEND) (demo_sent True) = Inr (n, s')"
    by (metis obj_sumE surj_pair)
  then show ?thesis using complete_tx_moves [where cf = demo_config, OF demo_laws [of SEND] demo_sent_inv [of True]] by auto
qed

text \<open>When completions are found but the fill ring has no room for them, the call returns 0 with
  the completions already taken from the ring and neither moved nor given back; the retry after a
  wakeup, further down in the function, is never reached, because a reservation that gives 0 has
  returned before.\<close>

theorem complete_tx_abandons:
  assumes "xsk_laws api view" and "outstanding_tx s \<noteq> 0" and "copy_mode cf \<noteq> XDP_COPY"
    and "cons_peek api CompRing (if outstanding_tx s > batch_size cf then batch_size cf else outstanding_tx s)
      (world s) = (k, idx, w1)"
    and "k \<noteq> 0" and "prod_reserve api FillRing k w1 = (0, idx', w2)"
  shows "complete_tx cf api s = Inr (0, s\<lparr>world := w2\<rparr>) \<and>
    (\<exists>ds. length ds = unat k \<and> view w2 = take_in CompRing ds (view (world s)))"
proof -
  from assms(1,4) obtain ds where "length ds = unat k" "view w1 = take_in CompRing ds (view (world s))"
    using assms(5) by (cases rule: cons_peek_cases) (auto simp: take_in_def)
  moreover have "view w2 = view w1"
    using xsk_lawsD(1) [OF assms(1)] assms(5,6) unat_eq_zero [of k] unfolding reserve_law_def Let_def
    by (metis of_nat_eq_0_iff)
  ultimately show ?thesis using assms(2-6) by (auto simp: complete_tx_def)
qed

theorem complete_tx_abandons_witness:
  "\<exists>w. complete_tx demo_config (demo_api SEND) (demo_sent False) = Inr (0, (demo_sent False)\<lparr>world := w\<rparr>) \<and>
     (\<exists>ds. length ds = 1 \<and> dview w = take_in CompRing ds (give TxRing [demo_frame 7] empty_view))"
proof -
  obtain idx w where p: "demo_peek CompRing 1 (world (demo_sent False)) = (1, idx, w)" "\<not> room w FillRing"
    using demo_sent_peek [of False] by auto
  have c: "copy_mode demo_config \<noteq> XDP_COPY" "\<not> 1 > batch_size demo_config"
    by (simp_all add: XDP_COPY_def XDP_ZEROCOPY_def) (simp add: demo_config_def default_config_def)
  have "demo_reserve FillRing 1 w = (0, 0, w)" using p(2) by (simp add: demo_reserve_def Let_def)
  then show ?thesis
    using complete_tx_abandons [OF demo_laws _ c(1), of "demo_sent False" SEND 1 idx w 0 w] p(1) c(2) by auto
qed

section \<open>The pump loop\<close>

text \<open>C3: over any number of turns the ledger of frames balances: every entry given back on a consumer
  ring was submitted on a producer ring and conversely, nothing stays reserved, and
  \<open>outstanding_tx\<close> is the number of frames sent and not completed; a link that is set up keeps its
  channel well-formed. The loop fails in three ways only: by the exit in copy mode when the wakeup
  of the transmission fails, by the assertion when the program passes a packet of 1500 bytes or
  more over the link, and by following a pointer of the link when the link is not set up (null) or
  its region is mapped at another address than its maker's (wild). Entries taken from the receive
  or completion ring and left behind are never given back later, so a frame that found no room is
  lost, with its ring slot, for the rest of the run.\<close>

theorem pump_conserves_frames:
  assumes "xsk_laws api view" and "link_wf vc (chan s)" and "heart_inv view base s"
  shows "case pump_packets cf api vc compiled start turns s of
      Inl e \<Rightarrow> e = Exit 1 \<and> copy_mode cf = XDP_COPY \<and> kick_fails api \<or>
        e = AssertFail \<and> use_packet_injection cf \<noteq> 0 \<and> passes_oversized api \<or>
        e = NullDeref \<and> use_packet_injection cf \<noteq> 0 \<and> vc = None \<or>
        e = WildPointer \<and> use_packet_injection cf \<noteq> 0 \<and> (\<exists>v. vc = Some v \<and> vc_ch v \<noteq> master_virt_addr (chan s))
    | Inr (left, s') \<Rightarrow> heart_inv view base s' \<and> link_wf vc (chan s') \<and>
        (\<forall>r. length (taken (cv (view (world s)) r)) \<le> length (taken (cv (view (world s')) r)))"
proof -
  let ?rx = "length (taken (cv (view (world s)) RxRing))"
  let ?comp = "length (taken (cv (view (world s)) CompRing))"
  have h: "holds view base vc (link_fault vc (chan s)) ?rx ?comp s" using assms(2,3) by (simp add: holds_def)
  note inv = pump_packets_inv [OF assms(1) h, of cf compiled start turns]
  show ?thesis
  proof (cases "pump_packets cf api vc compiled start turns s")
    case (Inl e)
    then show ?thesis using inv
      by (cases vc) (auto simp: run_ok_def link_fault_def at_home_def split: if_splits)
  next
    case (Inr x)
    then obtain left s' where c: "pump_packets cf api vc compiled start turns s = Inr (left, s')" by (cases x) auto
    then have f: "holds view base vc (link_fault vc (chan s)) ?rx ?comp s'" using inv by (simp add: run_ok_def)
    have "length (taken (cv (view (world s)) r)) \<le> length (taken (cv (view (world s')) r))" for r
      using f by (cases r) (simp_all add: holds_def)
    then show ?thesis using f by (simp add: c holds_def)
  qed
qed

theorem pump_conserves_frames_witness:
  "case pump_packets demo_config (demo_api DROP) (Some (endpoint 4096 False)) True 5
      [(False, 6), (False, 7), (True, 8)] (demo_heart True True [demo_frame 9]) of
     Inl e \<Rightarrow> False | Inr (left, s') \<Rightarrow> heart_inv dview 0 s'"
  using pump_conserves_frames [where cf = demo_config and compiled = True and start = 5
      and turns = "[(False, 6), (False, 7), (True, 8)]", OF demo_laws [of DROP] demo_link(1) [of False] demo_heart_holds, of True True "[demo_frame 9]"]
  by (auto simp: XDP_COPY_def XDP_ZEROCOPY_def passes_oversized_def PASS_def DROP_def endpoint_def split: sum.splits)

text \<open>The loop ends at the first turn that sees the terminate flag, whatever was to come; without
  the flag it goes on.\<close>

theorem pump_stops_at_flag:
  "pump_loop cf api vc (map (Pair False) ticks @ (True, t) # rest) s =
     c_bind (pump_loop cf api vc (map (Pair False) ticks) s) (\<lambda>(_, s). Inr (True, s)) \<and>
   (\<forall>left s'. pump_loop cf api vc (map (Pair False) ticks) s = Inr (left, s') \<longrightarrow> \<not> left)"
proof (induction ticks arbitrary: s)
  case (Cons now ticks)
  then show ?case by (cases "pump_turn cf api vc now s") auto
qed simp

theorem pump_stops_at_flag_witness:
  "\<exists>s'. pump_loop demo_config (demo_api DROP) (Some (endpoint 4096 False)) [(True, 4), (False, 5)] (demo_heart True True []) =
     Inr (True, s')"
  using pump_stops_at_flag [of demo_config "demo_api DROP" "Some (endpoint 4096 False)" "[]" 4 "[(False, 5)]" "demo_heart True True []"]
  by simp

text \<open>
  The time stamp of the first report comes from the wall clock, the time in the loop from the
  monotonic clock. As long as the wall clock is ahead, the unsigned difference wraps and the first
  report does not wait for two seconds.
\<close>

lemma report_premature:
  assumes "now < rprt_ts s" and "unat (rprt_ts s) < 2 ^ 63"
  shows "rprt_ts (report now rx s) = now \<and> pkt_count (report now rx s) = 0"
proof -
  have "unat (now - rprt_ts s) = unat now + 2 ^ 64 - unat (rprt_ts s)"
    using assms(1) by (simp add: unat_sub_if' word_less_nat_alt)
  then have "2000000 < unat (now - rprt_ts s)" using assms(2) by simp
  then have "2000000 < now - rprt_ts s" by (simp add: word_less_nat_alt)
  then show ?thesis by (simp add: report_def Let_def)
qed

section \<open>The batched variant\<close>

definition verdicts :: "pkt_ctx list \<Rightarrow> int list" where
  "verdicts ctxs = map (\<lambda>(len, trim, ret). ret) ctxs"

definition with_verdict :: "int \<Rightarrow> (xdp_desc \<times> int) list \<Rightarrow> xdp_desc list" where
  "with_verdict a ds = map fst (filter (\<lambda>(d, ret). ret = a) ds)"

lemma with_verdict_simps [simp]:
  "with_verdict a [] = []"
  "with_verdict a ((d, r) # ds) = (if r = a then d # with_verdict a ds else with_verdict a ds)"
  by (simp_all add: with_verdict_def)

lemma set_pv_comm: "set_pv TxRing q (set_pv FillRing p v) = set_pv FillRing p (set_pv TxRing q v)"
  by (simp add: set_pv_def fun_upd_twist)

lemma pv_id: "reserved p = xs \<Longrightarrow> p\<lparr>reserved := xs\<rparr> = p" for p :: prod_view
  by (cases p) simp

lemma set_pv_id: "pv v r = p \<Longrightarrow> set_pv r p v = v"
  by (auto simp: set_pv_def)

text \<open>One write of the placing loop, and the loop as a whole.\<close>

lemma prod_write_next:
  assumes laws: "xsk_laws api view" and v: "pv (view w) r = p\<lparr>reserved := pre @ x # xs\<rparr>"
    and small: "length (pre @ x # xs) < 2 ^ 32"
  shows "view (prod_write api r (first_reserved p + of_nat (length pre)) d w) =
    set_pv r (p\<lparr>reserved := (pre @ [d]) @ xs\<rparr>) (view w)"
proof -
  have "length pre < length (reserved (pv (view w) r)) \<longrightarrow> length (reserved (pv (view w) r)) < 2 ^ 32 \<longrightarrow>
    view (prod_write api r (first_reserved (pv (view w) r) + of_nat (length pre)) d w) =
      set_pv r ((pv (view w) r)\<lparr>reserved := (reserved (pv (view w) r))[length pre := d]\<rparr>) (view w)"
    using xsk_lawsD(2) [OF laws] unfolding write_law_def Let_def by blast
  then show ?thesis using small by (simp add: v)
qed

lemma mix_place_view:
  assumes laws: "xsk_laws api view"
  shows "pv (view w) FillRing = p\<lparr>reserved := preF @ restF\<rparr> \<Longrightarrow> pv (view w) TxRing = q\<lparr>reserved := preT @ restT\<rparr> \<Longrightarrow>
    length restF = length (with_verdict DROP ds) \<Longrightarrow> length restT = length (with_verdict SEND ds) \<Longrightarrow>
    length (preF @ restF) < 2 ^ 32 \<Longrightarrow> length (preT @ restT) < 2 ^ 32 \<Longrightarrow>
    (restF \<noteq> [] \<Longrightarrow> i = first_reserved p + of_nat (length preF)) \<Longrightarrow>
    (restT \<noteq> [] \<Longrightarrow> j = first_reserved q + of_nat (length preT)) \<Longrightarrow>
    view (mix_place api i j ds w) =
      set_pv FillRing (p\<lparr>reserved := preF @ map (fill_entry api) (with_verdict DROP ds)\<rparr>)
        (set_pv TxRing (q\<lparr>reserved := preT @ map (tx_entry api) (with_verdict SEND ds)\<rparr>) (view w))"
proof (induction ds arbitrary: i j w preF restF preT restT)
  case Nil
  then show ?case by (simp add: set_pv_id)
next
  case (Cons a ds)
  obtain d r where a: "a = (d, r)" by (metis surj_pair)
  have ds: "DROP \<noteq> SEND" by (simp add: DROP_def SEND_def)
  consider (drop) "r = DROP" | (send) "r = SEND" | (other) "r \<noteq> DROP" "r \<noteq> SEND" by blast
  then show ?case
  proof cases
    case drop
    with Cons.prems(3) obtain x xs where F: "restF = x # xs" by (cases restF) (auto simp: a)
    obtain w2 where w2: "w2 = prod_write api FillRing i (fill_entry api d) w" by simp
    have i: "i = first_reserved p + of_nat (length preF)" using Cons.prems(7) F by simp
    then have i': "i + 1 = first_reserved p + of_nat (length (preF @ [fill_entry api d]))" by (simp add: ac_simps)
    have v: "view w2 = set_pv FillRing (p\<lparr>reserved := (preF @ [fill_entry api d]) @ xs\<rparr>) (view w)"
      unfolding w2 i using Cons.prems(1,5) by (intro prod_write_next [OF laws]) (simp_all add: F)
    have "view (mix_place api (i + 1) j ds w2) =
      set_pv FillRing (p\<lparr>reserved := (preF @ [fill_entry api d]) @ map (fill_entry api) (with_verdict DROP ds)\<rparr>)
        (set_pv TxRing (q\<lparr>reserved := preT @ map (tx_entry api) (with_verdict SEND ds)\<rparr>) (view w2))"
      using Cons.prems(1-6,8) ds i' by (intro Cons.IH [where restF = xs and restT = restT]) (simp_all add: v a drop F)
    then show ?thesis using ds by (simp add: a drop v set_pv_comm flip: w2)
  next
    case send
    with Cons.prems(4) obtain x xs where T: "restT = x # xs" by (cases restT) (auto simp: a)
    obtain w2 where w2: "w2 = prod_write api TxRing j (tx_entry api d) w" by simp
    have j: "j = first_reserved q + of_nat (length preT)" using Cons.prems(8) T by simp
    then have j': "j + 1 = first_reserved q + of_nat (length (preT @ [tx_entry api d]))" by (simp add: ac_simps)
    have v: "view w2 = set_pv TxRing (q\<lparr>reserved := (preT @ [tx_entry api d]) @ xs\<rparr>) (view w)"
      unfolding w2 j using Cons.prems(2,6) by (intro prod_write_next [OF laws]) (simp_all add: T)
    have "view (mix_place api i (j + 1) ds w2) =
      set_pv FillRing (p\<lparr>reserved := preF @ map (fill_entry api) (with_verdict DROP ds)\<rparr>)
        (set_pv TxRing (q\<lparr>reserved := (preT @ [tx_entry api d]) @ map (tx_entry api) (with_verdict SEND ds)\<rparr>) (view w2))"
      using Cons.prems(1-7) ds j' by (intro Cons.IH [where restF = restF and restT = xs]) (simp_all add: v a send T)
    then show ?thesis using ds by (simp add: a send v flip: w2)
  next
    case other
    have "view (mix_place api i j ds w) =
      set_pv FillRing (p\<lparr>reserved := preF @ map (fill_entry api) (with_verdict DROP ds)\<rparr>)
        (set_pv TxRing (q\<lparr>reserved := preT @ map (tx_entry api) (with_verdict SEND ds)\<rparr>) (view w))"
      by (rule Cons.IH [where restF = restF and restT = restT]) (use Cons.prems other in \<open>simp_all add: a\<close>)
    then show ?thesis using other by (simp add: a)
  qed
qed

lemma mix_reserve_ok:
  assumes laws: "xsk_laws api view" and call: "mix_reserve api r count w = Inr (ok, i, w')"
    and idle: "reserved (pv (view w) r) = []" and n: "count < 2 ^ 31" and ok: "ok \<longleftrightarrow> 0 < count"
  obtains slots where "length slots = count" and "slots \<noteq> [] \<Longrightarrow> i = first_reserved (pv (view w) r)"
    and "view w' = set_pv r ((pv (view w) r)\<lparr>reserved := slots\<rparr>) (view w)"
proof (cases "count = 0")
  case True
  then have w': "w' = w" using call by (simp add: mix_reserve_def)
  show thesis
  proof (rule that [of "[]"])
    show "view w' = set_pv r ((pv (view w) r)\<lparr>reserved := []\<rparr>) (view w)"
      unfolding w' pv_id [OF idle] by (simp add: set_pv_id)
  qed (use True in simp_all)
next
  case False
  obtain ret idx w1 where c: "prod_reserve api r (of_nat count) w = (ret, idx, w1)" by (metis prod_cases3)
  have u: "unat (of_nat count :: u32) = count" using n by (intro unat_of_nat_u32) simp
  have nz: "(of_nat count :: u32) \<noteq> 0" using False u by (metis unat_0)
  have res: "i = idx" "w' = w1" "ret = int count"
    using call c False ok by (auto simp: mix_reserve_def split: if_splits)
  from laws c nz idle show thesis
  proof (cases rule: prod_reserve_cases)
    case 1
    then show thesis using res(3) False by simp
  next
    case (2 ds)
    show thesis by (rule that [of ds]) (use 2(3,4,6) u res(1,2) in simp_all)
  qed
qed

lemma mix_submit_view:
  assumes laws: "xsk_laws api view" and v: "view w = set_pv r ((pv v r)\<lparr>reserved := ds\<rparr>) v"
    and idle: "reserved (pv v r) = []" and n: "length ds < 2 ^ 31"
    and rx: "length ds \<le> length (taken (cv v RxRing))"
  shows "view (mix_submit api r (0 < length ds) (length ds) w) = give_back RxRing (length ds) (give r ds v)"
proof (cases "ds = []")
  case True
  have "give_back RxRing 0 v = v" by (simp add: give_back_def set_cv_def)
  moreover have "give r [] v = v" using idle by (simp add: give_def pv_id set_pv_id)
  ultimately show ?thesis using True idle by (simp add: mix_submit_def v pv_id set_pv_id)
next
  case False
  let ?n = "of_nat (length ds) :: u32"
  have u: "unat ?n = length ds" using n by (intro unat_of_nat_u32) simp
  let ?w = "prod_submit api r ?n w"
  have s: "view ?w = give r ds v" using submit_all_view [OF laws, of w r ?n] u by (simp add: v give_def)
  have "view (cons_release api RxRing ?n ?w) = give_back RxRing (length ds) (give r ds v)"
    using release_view [OF laws, of ?n ?w RxRing] u rx by (simp add: s give_back_def)
  then show ?thesis using False by (simp add: mix_submit_def)
qed

lemma give_other: "r \<noteq> r' \<Longrightarrow> give r ds (set_pv r' p v) = set_pv r' p (give r ds v)"
  by (auto simp: give_def set_pv_def fun_upd_twist)

lemma give_back_set_pv: "give_back c n (set_pv r p v) = set_pv r p (give_back c n v)"
  by (simp add: give_back_def set_pv_cv)

lemma give_back_twice: "give_back c m (give_back c n v) = give_back c (n + m) v"
  by (simp add: give_back_def take_add add.assoc) (simp add: add.commute)

lemma give_back_give: "give r ds (give_back c n v) = give_back c n (give r ds v)"
  by (simp add: give_back_def give_def set_pv_cv)

lemma mix_trim_length: "length (mix_trim ds ctxs) = min (length ds) (length ctxs)"
  by (induction ds ctxs rule: mix_trim.induct) auto

lemma with_verdict_count:
  "length ds = length ctxs \<Longrightarrow> length (with_verdict a (zip ds (verdicts ctxs))) = mix_count a ctxs"
  by (induction ds ctxs rule: list_induct2) (auto simp: verdicts_def mix_count_def)

lemma mix_count_all:
  "set (verdicts ctxs) \<subseteq> {DROP, SEND} \<Longrightarrow> mix_count DROP ctxs + mix_count SEND ctxs = length ctxs"
  by (induction ctxs) (auto simp: verdicts_def mix_count_def DROP_def SEND_def)

text \<open>When every verdict is drop or send and the reservations succeed, the batched variant places
  the frames to drop on the fill ring and the frames to send on the transmit ring, each in the
  order of the batch, gives back as many receive entries as there are packets and counts the
  frames sent as outstanding.\<close>

theorem mix_action_places:
  assumes "xsk_laws api view" and "length ctxs = length batch" and "length batch < 2 ^ 31"
    and "set (verdicts ctxs) \<subseteq> {DROP, SEND}"
    and "reserved (pv (view (world s)) FillRing) = []" and "reserved (pv (view (world s)) TxRing) = []"
    and "length batch \<le> length (taken (cv (view (world s)) RxRing))"
    and "mix_reserve api FillRing (mix_count DROP ctxs) (world s) = Inr (mix_count DROP ctxs > 0, i, w1)"
    and "mix_reserve api TxRing (mix_count SEND ctxs) w1 = Inr (mix_count SEND ctxs > 0, j, w2)"
  shows "\<exists>w'. apply_mix_action api batch ctxs s =
      Inr (s\<lparr>world := w', outstanding_tx := outstanding_tx s + of_nat (mix_count SEND ctxs)\<rparr>) \<and>
    view w' = give_back RxRing (length batch)
      (give TxRing (map (tx_entry api) (with_verdict SEND (zip (mix_trim batch ctxs) (verdicts ctxs))))
        (give FillRing (map (fill_entry api) (with_verdict DROP (zip (mix_trim batch ctxs) (verdicts ctxs))))
          (view (world s))))"
proof -
  let ?z = "zip (mix_trim batch ctxs) (verdicts ctxs)"
  let ?D = "map (fill_entry api) (with_verdict DROP ?z)" and ?S = "map (tx_entry api) (with_verdict SEND ?z)"
  let ?v = "view (world s)"
  have cnt: "length ?D = mix_count DROP ctxs" "length ?S = mix_count SEND ctxs"
    using assms(2) by (simp_all add: with_verdict_count mix_trim_length)
  note all = mix_count_all [OF assms(4), unfolded assms(2)]
  from mix_reserve_ok [OF assms(1,8,5)] all assms(3) obtain slF where
    F: "length slF = mix_count DROP ctxs" "slF \<noteq> [] \<Longrightarrow> i = first_reserved (pv ?v FillRing)"
      "view w1 = set_pv FillRing ((pv ?v FillRing)\<lparr>reserved := slF\<rparr>) ?v" by auto
  have "reserved (pv (view w1) TxRing) = []" using assms(6) by (simp add: F(3))
  from mix_reserve_ok [OF assms(1,9) this] all assms(3) obtain slT where
    T: "length slT = mix_count SEND ctxs" "slT \<noteq> [] \<Longrightarrow> j = first_reserved (pv (view w1) TxRing)"
      "view w2 = set_pv TxRing ((pv (view w1) TxRing)\<lparr>reserved := slT\<rparr>) (view w1)" by auto
  obtain w3 where w3: "w3 = mix_place api i j ?z w2" by simp
  have "view w3 = set_pv FillRing ((pv ?v FillRing)\<lparr>reserved := [] @ ?D\<rparr>)
      (set_pv TxRing ((pv ?v TxRing)\<lparr>reserved := [] @ ?S\<rparr>) (view w2))"
    unfolding w3
    by (rule mix_place_view [OF assms(1), where restF = slF and restT = slT])
      (use F T cnt all assms(3) in \<open>simp_all\<close>)
  then have v3: "view w3 = set_pv FillRing ((pv (set_pv TxRing ((pv ?v TxRing)\<lparr>reserved := ?S\<rparr>) ?v) FillRing)\<lparr>reserved := ?D\<rparr>)
      (set_pv TxRing ((pv ?v TxRing)\<lparr>reserved := ?S\<rparr>) ?v)"
    by (simp add: T(3) F(3) set_pv_comm)
  obtain w4 where w4: "w4 = mix_submit api FillRing (0 < length ?D) (length ?D) w3" by simp
  have sub: "view w4 = give_back RxRing (length ?D)
      (give FillRing ?D (set_pv TxRing ((pv ?v TxRing)\<lparr>reserved := ?S\<rparr>) ?v))"
    unfolding w4 by (rule mix_submit_view [OF assms(1) v3]) (use assms(3,5,7) cnt all in simp_all)
  have v4: "view w4 = set_pv TxRing ((pv (give_back RxRing (length ?D) (give FillRing ?D ?v)) TxRing)\<lparr>reserved := ?S\<rparr>)
      (give_back RxRing (length ?D) (give FillRing ?D ?v))"
    by (simp add: sub give_other give_back_set_pv) (simp add: give_def)
  have "view (mix_submit api TxRing (0 < length ?S) (length ?S) w4) =
      give_back RxRing (length ?S) (give TxRing ?S (give_back RxRing (length ?D) (give FillRing ?D ?v)))"
    by (rule mix_submit_view [OF assms(1) v4]) (use assms(3,6,7) cnt all in simp_all)
  also have "\<dots> = give_back RxRing (length batch) (give TxRing ?S (give FillRing ?D ?v))"
    using all cnt by (simp only: give_back_give give_back_twice)
  finally have v5: "view (mix_submit api TxRing (0 < mix_count SEND ctxs) (mix_count SEND ctxs) w4) =
      give_back RxRing (length batch) (give TxRing ?S (give FillRing ?D ?v))" unfolding cnt .
  have "apply_mix_action api batch ctxs s =
      Inr (s\<lparr>world := mix_submit api TxRing (0 < mix_count SEND ctxs) (mix_count SEND ctxs) w4,
        outstanding_tx := outstanding_tx s + of_nat (mix_count SEND ctxs)\<rparr>)"
    unfolding apply_mix_action_def Let_def assms(8,9) c_bind_simps prod.case w4 w3 cnt by (simp only: verdicts_def)
  then show ?thesis using v5 by blast
qed

theorem mix_action_places_witness:
  "\<exists>w'. apply_mix_action (demo_api SEND) [demo_frame 3] [(2, 1, SEND)] (demo_heart True True []) =
     Inr ((demo_heart True True [])\<lparr>world := w', outstanding_tx := 1\<rparr>) \<and>
   submitted (pv (dview w') TxRing) = [\<lparr>d_addr = 4097, d_len = 2\<rparr>] \<and> taken (cv (dview w') RxRing) = []"
proof -
  let ?w = "world (demo_heart True True [])" and ?c = "[(2 :: u32, 1 :: u32, SEND)]"
  have c: "mix_count DROP ?c = 0" "mix_count SEND ?c = 1" by (simp_all add: mix_count_def DROP_def SEND_def)
  obtain j w2 where w2: "demo_reserve TxRing 1 ?w = (1, j, w2)"
    by (simp add: demo_reserve_def demo_heart_def Let_def)
  have a: "mix_reserve (demo_api SEND) FillRing (mix_count DROP ?c) ?w = Inr (mix_count DROP ?c > 0, 0, ?w)"
    "mix_reserve (demo_api SEND) TxRing (mix_count SEND ?c) ?w = Inr (mix_count SEND ?c > 0, j, w2)"
    by (simp_all add: mix_reserve_def c w2)
  show ?thesis
    using mix_action_places [OF demo_laws _ _ _ _ _ _ a, of "[demo_frame 3]"] c
    by (auto simp: verdicts_def give_def give_back_def tx_entry_def demo_api_def)
qed

text \<open>When the reservation for the frames to send is refused, the batched variant still writes
  their descriptors, into the slots from index 0 on, which nobody reserved, submits none of them
  and yet counts all of them as outstanding.\<close>

theorem mix_action_refused:
  assumes "length ctxs = length batch" and "set (verdicts ctxs) \<subseteq> {SEND}" and "batch \<noteq> []"
    and "prod_reserve api TxRing (of_nat (length batch)) (world s) = (0, idx, w)"
  shows "apply_mix_action api batch ctxs s =
    Inr (s\<lparr>world := place_entries api TxRing 0 (map (tx_entry api) (mix_trim batch ctxs)) w,
      outstanding_tx := outstanding_tx s + of_nat (length batch)\<rparr>)"
proof -
  have ds: "DROP \<noteq> SEND" by (simp add: DROP_def SEND_def)
  have v: "verdicts ctxs = replicate (length batch) SEND"
    using assms(1,2) by (intro replicate_eqI) (auto simp: verdicts_def)
  have "mix_count a ctxs = length (filter (\<lambda>r. r = a) (verdicts ctxs))" for a
    unfolding mix_count_def verdicts_def filter_map by (simp add: comp_def case_prod_unfold)
  then have c: "mix_count DROP ctxs = 0" "mix_count SEND ctxs = length batch" using ds by (simp_all add: v)
  have "mix_place api i j (zip ds (replicate (length ds) SEND)) w = place_entries api TxRing j (map (tx_entry api) ds) w"
    for i j ds and w by (induction ds arbitrary: j w) (use ds in auto)
  from this [of 0 0 "mix_trim batch ctxs" w]
  have "mix_place api 0 0 (zip (mix_trim batch ctxs) (verdicts ctxs)) w =
      place_entries api TxRing 0 (map (tx_entry api) (mix_trim batch ctxs)) w"
    using assms(1) by (simp add: v mix_trim_length)
  then show ?thesis using c assms(3,4)
    by (simp add: apply_mix_action_def Let_def mix_reserve_def mix_submit_def Suc_le_eq flip: verdicts_def)
qed

theorem mix_action_refused_witness:
  "apply_mix_action (demo_api SEND) [demo_frame 3] [(2, 1, SEND)] (demo_heart True False []) =
     Inr ((demo_heart True False [])\<lparr>world := demo_write TxRing 0 \<lparr>d_addr = 4097, d_len = 2\<rparr>
       (world (demo_heart True False [])), outstanding_tx := 1\<rparr>)"
proof -
  have "demo_reserve TxRing 1 (world (demo_heart True False [])) = (0, 0, world (demo_heart True False []))"
    by (simp add: demo_reserve_def demo_heart_def Let_def)
  then show ?thesis
    using mix_action_refused [of "[(2, 1, SEND)]" "[demo_frame 3]" "demo_api SEND" "demo_heart True False []" 0]
    by (simp add: verdicts_def tx_entry_def) (simp add: demo_api_def)
qed

end
