(* ===== verification/Delivery.thy ===== *)
theory Delivery
  imports Interpose DataPath
begin
text \<open>
  The way of a passed packet from the receive ring to the application: the data path of the Servant
  process (\<open>src/heart.c\<close>), the link (\<open>src/interpose_link.c\<close>, \<open>src/vchannel.c\<close>) and the hook of
  \<open>recvfrom\<close> in the application (\<open>src/interpose/interpose.c\<close>), run in any order of whole operations.
\<close>

section \<open>The two processes\<close>

text \<open>
  The Servant process handles one received descriptor, or the application calls \<open>recvfrom\<close>. The
  state is that of the data path, whose channel both processes share, with the packets handed to
  the link and the payloads the application got, both in order.
\<close>

datatype link_op = Packet xdp_desc | Receive

type_synonym 'w link_state = "'w heart \<times> u8 list list \<times> u8 list list"

definition passed_packet :: "'w xsk_api \<Rightarrow> 'w heart \<Rightarrow> xdp_desc \<Rightarrow> u8 list list" where
  "passed_packet api s d =
     (case run_prog api (add_offset api (d_addr d)) (d_len d) (world s) of (ret, n, trim, w) \<Rightarrow>
        if ret = PASS then [umem_bytes api (add_offset api (d_addr d + scast trim)) n w] else [])"

fun link_step :: "config \<Rightarrow> 'w xsk_api \<Rightarrow> vchannel \<Rightarrow> vchannel \<Rightarrow> u8 list \<Rightarrow> u64 \<Rightarrow> link_op \<Rightarrow> 'w link_state \<Rightarrow>
    'w link_state c_result" where
  "link_step cf api vc app buf len (Packet d) (s, sent, got) =
     c_bind (process_packet cf api (Some vc) s d) (\<lambda>s'. Inr (s', sent @ passed_packet api s d, got))"
| "link_step cf api vc app buf len Receive (s, sent, got) =
     c_bind (recvfrom app (chan s) buf len True) (\<lambda>(r, ch). Inr (s\<lparr>chan := ch\<rparr>, sent,
       got @ (case r of RecvLibc \<Rightarrow> [] | RecvChannel n buf' addr \<Rightarrow> [take (nat n) buf'])))"

fun link_run :: "config \<Rightarrow> 'w xsk_api \<Rightarrow> vchannel \<Rightarrow> vchannel \<Rightarrow> u8 list \<Rightarrow> u64 \<Rightarrow> link_op list \<Rightarrow> 'w link_state \<Rightarrow>
    'w link_state c_result" where
  "link_run cf api vc app buf len [] st = Inr st"
| "link_run cf api vc app buf len (x # xs) st =
     c_bind (link_step cf api vc app buf len x st) (link_run cf api vc app buf len xs)"

text \<open>The application keeps up: never more than \<open>cap\<close> packets ahead of its calls.\<close>

fun paced :: "nat \<Rightarrow> nat \<Rightarrow> link_op list \<Rightarrow> bool" where
  "paced cap n [] \<longleftrightarrow> True"
| "paced cap n (Packet d # xs) \<longleftrightarrow> n < cap \<and> paced cap (n + 1) xs"
| "paced cap n (Receive # xs) \<longleftrightarrow> paced cap (n - 1) xs"

fun packets :: "link_op list \<Rightarrow> nat" where
  "packets [] = 0"
| "packets (Packet d # xs) = packets xs + 1"
| "packets (Receive # xs) = packets xs"

section \<open>One step\<close>

lemma sent_by_endpoint: "proc_id v = proc_id v' \<Longrightarrow> vc_sent v = vc_sent v'"
  by (simp add: vc_sent_def fun_eq_iff)

lemma drop_one_chan: "drop_one api d s = Inr s' \<Longrightarrow> chan s' = chan s"
  by (auto simp: drop_one_def c_bind_Inr_iff)

lemma xsk_tx_chan: "xsk_tx api ds n s = Inr (r, s') \<Longrightarrow> chan s' = chan s"
  by (auto simp: xsk_tx_def c_check_def Let_def split: prod.splits if_splits)

text \<open>Any verdict but a pass is carried out without touching the channel.\<close>

lemma other_action:
  assumes laws: "xsk_laws api view" and h: "holds view base vc lf (Suc n) c s" and "action \<noteq> PASS"
  obtains s' where "apply_action cf api vc s d action = Inr s'" and "chan s' = chan s"
    and "holds view base vc lf n c s'"
proof -
  let ?cf = "cf\<lparr>copy_mode := XDP_ZEROCOPY, use_packet_injection := 0\<rparr>"
  have same: "apply_action cf api vc s d action = apply_action ?cf api vc s d action"
    using assms(3) by (simp add: apply_action_def)
  from apply_action_inv [OF laws h, of action d ?cf] assms(3) obtain s' where s': "apply_action ?cf api vc s d action = Inr s'"
    "holds view base vc lf n c s'"
    by (auto simp: run_ok_def XDP_COPY_def XDP_ZEROCOPY_def split: sum.splits)
  have "chan s' = chan s"
    using s'(1) assms(3) by (auto simp: apply_action_def c_bind_Inr_iff split: if_splits dest!: drop_one_chan xsk_tx_chan)
  then show thesis using that s' same by simp
qed

text \<open>A program that passes only whole datagrams which fit a message.\<close>

definition passes_datagrams :: "'w xsk_api \<Rightarrow> bool" where
  "passes_datagrams api \<longleftrightarrow> (\<forall>a l w m t w'. run_prog api a l w = (PASS, m, t, w') \<longrightarrow>
     HDRLEN \<le> unat m \<and> unat m < 1500)"

text \<open>One packet, whatever the verdict: the channel gains the passed packet and nothing else.\<close>

lemma packet_step:
  assumes laws: "xsk_laws api view" and h: "holds view base (Some vc) None (Suc n) c s"
    and inj: "use_packet_injection cf \<noteq> 0"
    and prog: "passes_datagrams api"
    and room: "length (vc_pending (chan s) (1 - proc_id vc)) < unat (ring_size (chan s)) - 1"
  obtains s' where "process_packet cf api (Some vc) s d = Inr s'" and "holds view base (Some vc) None n c s'"
    and "passed_packet api s d = []" and "chan s' = chan s"
  | s' b where "process_packet cf api (Some vc) s d = Inr s'" and "holds view base (Some vc) None n c s'"
    and "passed_packet api s d = [b]" and "HDRLEN \<le> length b" and "length b < 1500"
    and "chan s' = vc_sent vc (chan s) b"
proof -
  obtain ret m trim w where run: "run_prog api (add_offset api (d_addr d)) (d_len d) (world s) = (ret, m, trim, w)"
    by (metis prod_cases4)
  let ?d = "\<lparr>d_addr = d_addr d + scast trim, d_len = m\<rparr>" and ?s = "s\<lparr>world := w\<rparr>"
  have h': "holds view base (Some vc) None (Suc n) c ?s" by (rule holds_same [OF h other_lawD(3) [OF laws run]])
  have pp: "process_packet cf api (Some vc) s d = c_bind (apply_action cf api (Some vc) ?s ?d ret)
      (\<lambda>s. Inr (if ret = SEND then s\<lparr>sent_count := sent_count s + 1\<rparr> else s))"
    by (simp add: process_packet_def run)
  have counted: "holds view base (Some vc) None n c (s'\<lparr>sent_count := k\<rparr>)" if "holds view base (Some vc) None n c s'" for s' k
    using that by (simp add: holds_def heart_inv_def Let_def)
  show thesis
  proof (cases "ret = PASS")
    case False
    from other_action [OF laws h' False] obtain s' where "apply_action cf api (Some vc) ?s ?d ret = Inr s'"
      "chan s' = chan ?s" "holds view base (Some vc) None n c s'" by blast
    then show thesis using that(1) counted False by (auto simp: pp passed_packet_def run)
  next
    case True
    let ?b = "umem_bytes api (add_offset api (d_addr ?d)) m w"
    have len: "length ?b = unat m" by (rule other_lawD(5) [OF laws])
    have m: "HDRLEN \<le> unat m" "unat m < 1500" using prog run True unfolding passes_datagrams_def by blast+
    have wf: "heart_inv view base ?s" "vc_side vc (chan ?s)" "vc_wf (chan ?s)" "taken (cv (view (world ?s)) RxRing) \<noteq> []"
      using h' by (auto simp: holds_def vc_side_def)
    have r: "length (vc_pending (chan ?s) (1 - proc_id vc)) < unat (ring_size (chan ?s)) - 1" using room by simp
    have small: "unat (d_len ?d) < 1500" using m by simp
    from pass_sends [OF laws wf(1,4,2) inj wf(3) r small refl] obtain w' where
      a: "apply_action cf api (Some vc) ?s ?d PASS = Inr (?s\<lparr>chan := vc_sent vc (chan s) ?b, world := w'\<rparr>)" by auto
    have "run_ok cf api None (holds view base (Some vc) None n c) (apply_action cf api (Some vc) ?s ?d PASS)"
      by (rule apply_action_inv [OF laws h']) (use m in simp)
    then have "holds view base (Some vc) None n c (?s\<lparr>chan := vc_sent vc (chan s) ?b, world := w'\<rparr>)" by (simp add: a)
    then show thesis using that(2) [of "?s\<lparr>chan := vc_sent vc (chan s) ?b, world := w'\<rparr>" ?b] True a len m
      by (simp add: pp passed_packet_def run PASS_def SEND_def)
  qed
qed

lemma endpoint_is: "vc_side v ch \<Longrightarrow> proc_id v = proc_id (endpoint a (proc_id v = 1))"
  by (auto simp: vc_side_def endpoint_def)

text \<open>One call of \<open>recvfrom\<close>: the oldest payload, or nothing.\<close>

lemma receive_step:
  assumes one: "one_way a b ch" and app: "proc_id app = proc_id (endpoint a b)" and at: "vc_ch app = a"
    and len: "unat len < 2 ^ 32" "unat len \<le> length buf" "1500 \<le> unat len"
    and big: "\<forall>m \<in> set (vc_pending ch (proc_id app)). HDRLEN \<le> length m"
  obtains "vc_pending ch (proc_id app) = []" and "recvfrom app ch buf len True = Inr (RecvLibc, ch)"
  | msg msgs buf' addr ch' where "vc_pending ch (proc_id app) = msg # msgs" and "vc_pending ch' (proc_id app) = msgs"
    and "recvfrom app ch buf len True = Inr (RecvChannel (int (length msg - HDRLEN)) buf' addr, ch')"
    and "take (length msg - HDRLEN) buf' = drop HDRLEN msg" and "one_way a b ch'" and "ring_size ch' = ring_size ch"
proof (cases "vc_pending ch (proc_id app)")
  case Nil
  note o = one_way_ring [OF one]
  have side: "vc_side app ch" using app at one by (simp add: vc_side_def at_home_def one_way_def endpoint_def)
  have u: "unat (ucast len :: u32) = unat len" using len(1) by (rule unat_ucast_u64)
  have "llring_contents (vc_ring ch (proc_id app)) = []" using Nil by (simp add: vc_pending_def)
  then have "vc_rx_msg app ch buf (ucast len) = Inr (0, buf, ch)"
    using vc_rx_msg_received [OF o(1) side _ o(2), of "ucast len" buf] u len(2) by simp
  then show thesis using that(1) Nil by (simp add: recvfrom_def)
next
  case (Cons msg msgs)
  note o = one_way_ring [OF one]
  have side: "vc_side app ch" using app at one by (simp add: vc_side_def at_home_def one_way_def endpoint_def)
  have ok: "msg_ok msg" using one Cons by (simp add: one_way_def app)
  let ?h = "take HDRLEN msg" and ?b = "drop HDRLEN msg"
  have m: "HDRLEN \<le> length msg" "length msg < 1500"
    using big Cons ok by (auto simp: msg_ok_def MAX_SHARED_OBJ_SIZE_def)
  have first: "vc_pending ch (proc_id app) = (?h @ ?b) # msgs" using Cons by simp
  have "length ?h = HDRLEN" "HDRLEN + length ?b \<le> unat len" using m len(3) by simp_all
  from recvfrom_strips [OF o(1) side o(2) len(1,2) first this] obtain buf' ch' p ps where
    r: "recvfrom app ch buf len True = Inr (RecvChannel (int (length ?b)) buf'
        \<lparr>sin_family = AF_INET, sin_port = take 2 (drop 20 ?h), s_addr = take 4 (drop 12 ?h)\<rparr>, ch')"
      "take (length ?b) buf' = ?b" "vc_pending ch' (proc_id app) = msgs"
      "llring_contents (vc_ring ch (proc_id app)) = p # ps" "ch' = vc_received app ch p" by blast
  have "ch' = vc_received (endpoint a b) ch p" by (simp add: r(5) vc_received_def app)
  then have "one_way a b ch'" "ring_size ch' = ring_size ch"
    using one_way_received [OF one, of p ps] r(4) by (simp_all add: app)
  then show thesis using that(2) Cons r(1-3) by simp
qed

section \<open>Any order of steps\<close>

lemma link_run_delivers:
  assumes laws: "xsk_laws api view" and inj: "use_packet_injection cf \<noteq> 0"
    and prog: "passes_datagrams api"
    and ends: "vc_ch app = a" "proc_id app = proc_id (endpoint a b)" "proc_id vc = proc_id (endpoint a (\<not> b))"
    and len: "unat len < 2 ^ 32" "unat len \<le> length buf" "1500 \<le> unat len"
  shows "holds view base (Some vc) None (packets xs + k) c s \<Longrightarrow> one_way a b (chan s) \<Longrightarrow>
    \<forall>m \<in> set (vc_pending (chan s) (proc_id app)). HDRLEN \<le> length m \<Longrightarrow>
    length (vc_pending (chan s) (proc_id app)) \<le> n \<Longrightarrow> paced (unat (ring_size (chan s)) - 1) n xs \<Longrightarrow>
    map (drop HDRLEN) sent = got @ map (drop HDRLEN) (vc_pending (chan s) (proc_id app)) \<Longrightarrow>
    \<exists>s' sent' got'. link_run cf api vc app buf len xs (s, sent, got) = Inr (s', sent', got') \<and>
      map (drop HDRLEN) sent' = got' @ map (drop HDRLEN) (vc_pending (chan s') (proc_id app)) \<and>
      holds view base (Some vc) None k c s'"
proof (induction xs arbitrary: s sent got n)
  case Nil
  then show ?case by auto
next
  case (Cons x xs)
  have other: "1 - proc_id vc = proc_id app" using ends(2,3) by simp
  show ?case
  proof (cases x)
    case (Packet d)
    have h: "holds view base (Some vc) None (Suc (packets xs + k)) c s" using Cons.prems(1) by (simp add: Packet)
    have n: "n < unat (ring_size (chan s)) - 1" "paced (unat (ring_size (chan s)) - 1) (n + 1) xs"
      using Cons.prems(5) by (simp_all add: Packet)
    have room: "length (vc_pending (chan s) (1 - proc_id vc)) < unat (ring_size (chan s)) - 1"
      using n(1) Cons.prems(4) by (simp add: other)
    show ?thesis
    proof (cases rule: packet_step [OF laws h inj prog room, where d = d, case_names 1 2])
      case (1 s')
      then show ?thesis using Cons.IH [OF 1(2), of "n + 1" sent got] Cons.prems(2-4,6) n(2) by (simp add: Packet)
    next
      case (2 s' m)
      have ok: "msg_ok m" using 2(4,5) by (cases m) (simp_all add: msg_ok_def MAX_SHARED_OBJ_SIZE_def HDRLEN_def)
      have ch: "chan s' = vc_sent (endpoint a (\<not> b)) (chan s) m" using 2(6) sent_by_endpoint [OF ends(3)] by simp
      note o = one_way_sent [OF Cons.prems(2) ok room [unfolded other ends(2)], folded ch, folded ends(2)]
      show ?thesis using Cons.IH [OF 2(2) o(1), of "n + 1" "sent @ [m]" got] Cons.prems(3,4,6) n(2) 2 o
        by (simp add: Packet)
    qed
  next
    case Receive
    have h: "holds view base (Some vc) None (packets xs + k) c s" using Cons.prems(1) by (simp add: Receive)
    have n: "paced (unat (ring_size (chan s)) - 1) (n - 1) xs" using Cons.prems(5) by (simp add: Receive)
    show ?thesis
    proof (cases rule: receive_step [OF Cons.prems(2) ends(2,1) len Cons.prems(3), case_names 1 2])
      case 1
      have "s\<lparr>chan := chan s\<rparr> = s" by simp
      then show ?thesis using Cons.IH [OF h Cons.prems(2,3), of "n - 1" sent got] n 1 Cons.prems(6)
        by (simp add: Receive)
    next
      case (2 msg msgs buf' addr ch')
      have "master_virt_addr ch' = master_virt_addr (chan s)" using 2(5) Cons.prems(2) by (simp add: one_way_def)
      then have h': "holds view base (Some vc) None (packets xs + k) c (s\<lparr>chan := ch'\<rparr>)"
        using h one_way_ring(1) [OF 2(5)] link_fault_cong [of ch' "chan s" "Some vc"] by (simp add: holds_def heart_inv_def Let_def)
      have "nat (int (length msg - HDRLEN)) = length msg - HDRLEN" by (rule nat_int)
      then show ?thesis
        using Cons.IH [OF h', of "n - 1" sent "got @ [drop HDRLEN msg]"] n 2 Cons.prems(3,4,6)
        by (simp add: Receive)
    qed
  qed
qed

section \<open>Properties\<close>

text \<open>From an idle link, with a program that passes only whole datagrams and an application that
  calls \<open>recvfrom\<close> often enough for the ring never to be full, any order of packets and calls runs
  without a fault, and the application gets the payload of every passed packet, in the order in
  which they were received, each exactly once: what it got and what still waits on the link are the
  packets that were passed, without their headers. Packets with other verdicts do not disturb it,
  and no frame is lost.\<close>

theorem passed_packets_arrive:
  assumes "xsk_laws api view" and "heart_inv view base s" and "use_packet_injection cf \<noteq> 0"
    and "passes_datagrams api" and "vc_side vc (chan s)" and "vc_side app (chan s)" and "proc_id app = 1 - proc_id vc"
    and "idle_channel slots (chan s)" and "paced (unat slots - 1) 0 xs"
    and "packets xs \<le> length (taken (cv (view (world s)) RxRing))"
    and "unat len < 2 ^ 32" and "unat len \<le> length buf" and "1500 \<le> unat len"
  shows "\<exists>s' sent got. link_run cf api vc app buf len xs (s, [], []) = Inr (s', sent, got) \<and>
    map (drop HDRLEN) sent = got @ map (drop HDRLEN) (vc_pending (chan s') (proc_id app)) \<and>
    heart_inv view base s'"
proof -
  let ?b = "proc_id app = 1" and ?a = "master_virt_addr (chan s)"
  have at: "vc_ch app = ?a" using assms(6) by (rule vc_side_home)
  have app: "proc_id app = proc_id (endpoint ?a ?b)" by (rule endpoint_is) fact
  have vc: "proc_id vc = proc_id (endpoint ?a (\<not> ?b))" using app assms(7) endpoint_side(2) [of ?a ?b]
    by (simp add: endpoint_def split: if_splits)
  have idle: "vc_wf (chan s)" "ring_size (chan s) = slots" "vc_in_flight (chan s) = []"
    using assms(8) by (simp_all add: idle_channel_def)
  have none: "vc_pending (chan s) (proc_id app) = []"
    using vc_in_flight_side(1) [OF assms(6), of "chan s"] idle(3) by (auto simp: vc_pending_def)
  have "holds view base (Some vc) None (packets xs + 0) 0 s" using assms(2,5,10) idle(1) by (simp add: holds_def vc_side_def)
  from link_run_delivers [OF assms(1,3,4) at app vc assms(11-13) this idle_channel_one_way [OF assms(8)], of 0 "[]" "[]"]
  show ?thesis using none idle(2) assms(9) by (auto simp: holds_def)
qed

text \<open>The witness: one frame, which the program passes as a datagram of 30 bytes.\<close>

definition pass_api :: "demo_world xsk_api" where
  "pass_api = (demo_api PASS)\<lparr>run_prog := (\<lambda>a l w. (PASS, 30, 0, w))\<rparr>"

lemma pass_api_laws: "xsk_laws pass_api dview"
  using demo_laws [of PASS]
  by (simp add: xsk_laws_def pass_api_def reserve_law_def write_law_def submit_law_def peek_law_def desc_law_def
      release_law_def other_law_def)

lemma pass_api_datagrams: "passes_datagrams pass_api"
  by (simp add: passes_datagrams_def pass_api_def HDRLEN_def)

theorem passed_packets_arrive_witness:
  "\<exists>s' sent got. link_run demo_config pass_api (endpoint 4096 False) (endpoint 4096 True) (replicate 1500 0) 1500
     [Packet (demo_frame 60), Receive] (demo_heart True True [], [], []) = Inr (s', sent, got) \<and>
   map (drop HDRLEN) sent = got @ map (drop HDRLEN) (vc_pending (chan s') 1)"
proof -
  have "idle_channel 2 demo_channel" using demo_channel_wf by (simp add: idle_channel_def)
  then show ?thesis
    using passed_packets_arrive [OF pass_api_laws demo_heart_holds _ pass_api_datagrams, where cf = demo_config
        and vc = "endpoint 4096 False" and app = "endpoint 4096 True" and slots = 2
        and xs = "[Packet (demo_frame 60), Receive]" and len = 1500 and buf = "replicate 1500 0", of True True "[]"]
    by (auto simp: endpoint_def vc_side_def at_home_def Suc_le_eq)
qed

end
