(* ===== verification/KernMap.thy ===== *)
theory KernMap
  imports Config
begin
text \<open>
  The table of kernel maps (\<open>src/map.c\<close>, \<open>src/map.h\<close>): the set up from the maps the kernel knows
  and the requested names, the search by name, lookups and updates. The answers of the kernel, of
  \<open>malloc\<close> and of \<open>mmap\<close> are fields of \<open>map_env\<close>.
\<close>

section \<open>The tables\<close>

definition MAX_NR_MAPS :: nat where "MAX_NR_MAPS = 16"
definition BPF_F_MMAPABLE :: u32 where "BPF_F_MMAPABLE = push_bit 10 1"

text \<open>
  The five static arrays. A null name or buffer is \<open>None\<close>, a file descriptor of 0 marks an unused
  slot; of a mapped area the size is kept.
\<close>

record map_tables =
  map_names :: "string option list"
  map_fds :: "int list"
  map_value_size :: "u64 list"
  map_value_pool :: "u8 list option list"
  mmap_area :: "u64 option list"

definition empty_tables :: map_tables where
  "empty_tables =
     \<lparr>map_names = replicate MAX_NR_MAPS None, map_fds = replicate MAX_NR_MAPS 0,
      map_value_size = replicate MAX_NR_MAPS 0, map_value_pool = replicate MAX_NR_MAPS None,
      mmap_area = replicate MAX_NR_MAPS None\<rparr>"

text \<open>
  \<open>struct bpf_map_info\<close>, and what the kernel answers: the maps in the order of
  \<open>bpf_map_get_next_id\<close>, each with its descriptor and its information unless that call fails.
\<close>

record map_info =
  mi_name :: string
  mi_value_size :: u32
  mi_max_entries :: u32
  mi_flags :: u32

definition no_info :: map_info where
  "no_info = \<lparr>mi_name = [], mi_value_size = 0, mi_max_entries = 0, mi_flags = 0\<rparr>"

record map_env =
  kernel_maps :: "(int \<times> map_info option) list"
  malloc_buf :: "u64 \<Rightarrow> u8 list option"
  mmap_ok :: "int \<Rightarrow> u64 \<Rightarrow> bool"
  page_size :: u64

section \<open>Setting up\<close>

definition roundup_page :: "u64 \<Rightarrow> u64 \<Rightarrow> u64" where
  "roundup_page ps sz = ((sz + ps - 1) div ps) * ps"

text \<open>A request \<open>name:index\<close>; without the colon the index is -1.\<close>

fun split_colon :: "string \<Rightarrow> string \<times> string option" where
  "split_colon [] = ([], None)"
| "split_colon (c # cs) =
     (if c = CHR '':'' then ([], Some cs) else case split_colon cs of (n, r) \<Rightarrow> (c # n, r))"

definition get_name_index_requested :: "string \<Rightarrow> string \<times> int" where
  "get_name_index_requested req =
     (case split_colon req of (name, None) \<Rightarrow> (req, -1) | (name, Some s) \<Rightarrow> (name, atoi s))"

text \<open>The loop that skips the used slots; it has no bound.\<close>

function skip_used :: "int list \<Rightarrow> nat \<Rightarrow> nat c_result" where
  "skip_used fds i =
     (if i < length fds then if fds ! i \<noteq> 0 then skip_used fds (i + 1) else Inr i else Inl OutOfBounds)"
  by auto
termination by (relation "measure (\<lambda>(fds, i). length fds - i)") auto

declare skip_used.simps [simp del]

definition copy_slot :: "nat \<Rightarrow> nat \<Rightarrow> map_tables \<Rightarrow> map_tables" where
  "copy_slot from' to t =
     t\<lparr>map_fds := (map_fds t)[to := map_fds t ! from'], map_names := (map_names t)[to := map_names t ! from'],
       map_value_size := (map_value_size t)[to := map_value_size t ! from'],
       map_value_pool := (map_value_pool t)[to := map_value_pool t ! from'],
       mmap_area := (mmap_area t)[to := mmap_area t ! from']\<rparr>"

text \<open>The new entry; the result says whether its buffer could be allocated.\<close>

definition set_slot :: "map_env \<Rightarrow> nat \<Rightarrow> string \<Rightarrow> int \<Rightarrow> map_info \<Rightarrow> map_tables \<Rightarrow> bool \<times> map_tables" where
  "set_slot env i name fd info t =
     (let t = t\<lparr>map_fds := (map_fds t)[i := fd], map_names := (map_names t)[i := Some name],
              map_value_size := (map_value_size t)[i := ucast (mi_value_size info)]\<rparr> in
      case malloc_buf env (ucast (mi_value_size info)) of
        None \<Rightarrow> (False, t)
      | Some buf \<Rightarrow>
          let t = t\<lparr>map_value_pool := (map_value_pool t)[i := Some buf]\<rparr>;
              map_sz = roundup_page (page_size env) (ucast (mi_value_size info) * ucast (mi_max_entries info)) in
          (True, t\<lparr>mmap_area := (mmap_area t)[i :=
             if mi_flags info AND BPF_F_MMAPABLE \<noteq> 0 \<and> mmap_ok env fd map_sz then Some map_sz else None]\<rparr>))"

text \<open>
  The kernel's map \<open>fd\<close> matches the request \<open>(name, req)\<close>: the position, the relocation of a map that
  is already there, the new entry. \<open>last\<close> is \<open>lastGlobalIndex\<close>.
\<close>

definition register_map ::
  "map_env \<Rightarrow> int \<Rightarrow> map_info \<Rightarrow> string \<times> int \<Rightarrow> nat \<Rightarrow> map_tables \<Rightarrow> (bool \<times> nat \<times> map_tables) c_result" where
  "register_map env fd info r last' t =
     (case r of (name, req) \<Rightarrow>
      c_bind (skip_used (map_fds t) last') (\<lambda>last'.
      let cur = (if req = -1 then int last' else req) in
      c_check (0 \<le> cur \<and> nat cur < length (map_fds t)) OutOfBounds (
      let t = (if req \<noteq> -1 \<and> map_fds t ! nat cur \<noteq> 0 then copy_slot (nat cur) last' t else t) in
      case set_slot env (nat cur) name fd info t of (ok, t) \<Rightarrow> Inr (ok, last', t))))"

text \<open>The loop over the requests for one map of the kernel; it stops when an allocation fails.\<close>

fun match_requests ::
  "map_env \<Rightarrow> int \<Rightarrow> map_info \<Rightarrow> (string \<times> int) list \<Rightarrow> nat \<Rightarrow> map_tables \<Rightarrow> (bool \<times> nat \<times> map_tables) c_result" where
  "match_requests env fd info [] last' t = Inr (True, last', t)"
| "match_requests env fd info (r # rs) last' t =
     (if fst r = mi_name info
      then c_bind (register_map env fd info r last' t) (\<lambda>(ok, last', t).
             if ok then match_requests env fd info rs last' t else Inr (False, last', t))
      else match_requests env fd info rs last' t)"

text \<open>The loop over the kernel's maps; a failed query leaves the previous information in place.\<close>

fun scan_maps ::
  "map_env \<Rightarrow> (string \<times> int) list \<Rightarrow> (int \<times> map_info option) list \<Rightarrow> map_info \<Rightarrow> nat \<Rightarrow> map_tables \<Rightarrow>
     (int \<times> map_tables) c_result" where
  "scan_maps env rs [] info last' t = Inr (0, t)"
| "scan_maps env rs ((fd, answer) # ms) info last' t =
     (let info = (case answer of None \<Rightarrow> info | Some i \<Rightarrow> i) in
      c_bind (match_requests env fd info rs last' t) (\<lambda>(ok, last', t).
      if ok then scan_maps env rs ms info last' t else Inr (1, t)))"

definition setup_map_system :: "map_env \<Rightarrow> string list \<Rightarrow> map_tables \<Rightarrow> (int \<times> map_tables) c_result" where
  "setup_map_system env requests t =
     (if length requests > MAX_NR_MAPS then Inr (1, t)
      else scan_maps env (map get_name_index_requested requests) (kernel_maps env) no_info 0 t)"

section \<open>Searching by name\<close>

text \<open>The loops of \<open>_get_map_fd\<close> and \<open>_get_map_fd_and_idx\<close>: position and descriptor, or 0.\<close>

fun find_name :: "string option list \<Rightarrow> int list \<Rightarrow> nat \<Rightarrow> string \<Rightarrow> int \<times> nat option" where
  "find_name (None # ns) fds i name = (0, None)"
| "find_name (Some n # ns) (fd # fds) i name = (if n = name then (fd, Some i) else find_name ns fds (i + 1) name)"
| "find_name _ _ i name = (0, None)"

definition get_map_fd :: "map_tables \<Rightarrow> string \<Rightarrow> int" where
  "get_map_fd t name = fst (find_name (map_names t) (map_fds t) 0 name)"

definition get_map_fd_and_idx :: "map_tables \<Rightarrow> string \<Rightarrow> int \<times> nat option" where
  "get_map_fd_and_idx t name = find_name (map_names t) (map_fds t) 0 name"

section \<open>Lookups and updates\<close>

text \<open>
  What a lookup returns: a null pointer, the buffer of a slot, or a place in its mapped area. The
  kernel's lookup is \<open>bpf_lookup\<close>: the value, or \<open>None\<close> when the call fails.
\<close>

datatype elem_ptr = NullElem | PoolElem nat | MmapElem nat u64

definition key_u32 :: "u8 list \<Rightarrow> u32 c_result" where
  "key_u32 key = c_check (4 \<le> length key) OutOfBounds
     (Inr (ucast (key ! 0) OR push_bit 8 (ucast (key ! 1)) OR push_bit 16 (ucast (key ! 2)) OR
           push_bit 24 (ucast (key ! 3))))"

definition ubpf_map_lookup_elem_kern_fast ::
  "(int \<Rightarrow> u8 list \<Rightarrow> u8 list option) \<Rightarrow> map_tables \<Rightarrow> int \<Rightarrow> u8 list \<Rightarrow> (elem_ptr \<times> map_tables) c_result" where
  "ubpf_map_lookup_elem_kern_fast bpf_lookup t index' key =
     c_check (0 \<le> index' \<and> nat index' < length (mmap_area t)) OutOfBounds (
     let i = nat index' in
     case mmap_area t ! i of
       Some area \<Rightarrow> c_bind (key_u32 key) (\<lambda>k. Inr (MmapElem i (map_value_size t ! i * ucast k), t))
     | None \<Rightarrow> (case map_value_pool t ! i of
         None \<Rightarrow> Inr (NullElem, t)
       | Some buf \<Rightarrow> (case bpf_lookup (map_fds t ! i) key of
           None \<Rightarrow> Inr (NullElem, t)
         | Some val \<Rightarrow> c_check (length val \<le> length buf) OutOfBounds
             (Inr (PoolElem i, t\<lparr>map_value_pool := (map_value_pool t)[i := Some (val @ drop (length val) buf)]\<rparr>)))))"

definition ubpf_map_lookup_elem_kern ::
  "(int \<Rightarrow> u8 list \<Rightarrow> u8 list option) \<Rightarrow> map_tables \<Rightarrow> string \<Rightarrow> u8 list \<Rightarrow> (elem_ptr \<times> map_tables) c_result" where
  "ubpf_map_lookup_elem_kern bpf_lookup t name key =
     (case get_map_fd_and_idx t name of
        (fd, None) \<Rightarrow> Inr (NullElem, t)
      | (fd, Some i) \<Rightarrow>
          if fd = 0 then Inr (NullElem, t)
          else (case mmap_area t ! i of
            Some area \<Rightarrow> c_bind (key_u32 key) (\<lambda>k. Inr (MmapElem i (map_value_size t ! i * ucast k), t))
          | None \<Rightarrow> (case map_value_pool t ! i of
              None \<Rightarrow> Inr (NullElem, t)
            | Some buf \<Rightarrow> (case bpf_lookup fd key of
                None \<Rightarrow> Inr (NullElem, t)
              | Some val \<Rightarrow> c_check (length val \<le> length buf) OutOfBounds
                  (Inr (PoolElem i, t\<lparr>map_value_pool := (map_value_pool t)[i := Some (val @ drop (length val) buf)]\<rparr>))))))"

definition ubpf_map_elem_release :: "elem_ptr \<Rightarrow> map_tables \<Rightarrow> map_tables" where
  "ubpf_map_elem_release p t = t"

definition ubpf_map_update_elem_kern ::
  "(int \<Rightarrow> u8 list \<Rightarrow> u8 list \<Rightarrow> int \<Rightarrow> 'k \<Rightarrow> int \<times> 'k) \<Rightarrow> map_tables \<Rightarrow> string \<Rightarrow> u8 list \<Rightarrow> u8 list \<Rightarrow> int \<Rightarrow>
     'k \<Rightarrow> int \<times> 'k" where
  "ubpf_map_update_elem_kern bpf_update t name key val flag k =
     (let fd = get_map_fd t name in if fd = 0 then (1, k) else bpf_update fd key val flag k)"

section \<open>Slots\<close>

definition tables_wf :: "map_tables \<Rightarrow> bool" where
  "tables_wf t \<longleftrightarrow> length (map_names t) = MAX_NR_MAPS \<and> length (map_fds t) = MAX_NR_MAPS \<and>
     length (map_value_size t) = MAX_NR_MAPS \<and> length (map_value_pool t) = MAX_NR_MAPS \<and>
     length (mmap_area t) = MAX_NR_MAPS"

type_synonym slot_view = "int \<times> string option \<times> u64 \<times> u8 list option \<times> u64 option"

definition slot :: "map_tables \<Rightarrow> nat \<Rightarrow> slot_view" where
  "slot t i = (map_fds t ! i, map_names t ! i, map_value_size t ! i, map_value_pool t ! i, mmap_area t ! i)"

text \<open>Every used slot of \<open>t\<close> is somewhere in \<open>t'\<close>, with all its fields.\<close>

definition keeps :: "map_tables \<Rightarrow> map_tables \<Rightarrow> bool" where
  "keeps t t' \<longleftrightarrow> (\<forall>i < MAX_NR_MAPS. map_fds t ! i \<noteq> 0 \<longrightarrow> (\<exists>j < MAX_NR_MAPS. slot t' j = slot t i))"

definition has_map :: "map_tables \<Rightarrow> int \<Rightarrow> string \<Rightarrow> bool" where
  "has_map t fd name \<longleftrightarrow> (\<exists>j < MAX_NR_MAPS. map_fds t ! j = fd \<and> map_names t ! j = Some name)"

lemma empty_tables_wf: "tables_wf empty_tables"
  by (simp add: tables_wf_def empty_tables_def)

lemma slot_fd: "slot t j = slot t' i \<Longrightarrow> map_fds t ! j = map_fds t' ! i \<and> map_names t ! j = map_names t' ! i"
  by (simp add: slot_def)

lemma keeps_refl [simp]: "keeps t t"
  by (auto simp: keeps_def)

lemma keeps_trans: "keeps t t' \<Longrightarrow> keeps t' t'' \<Longrightarrow> keeps t t''"
  unfolding keeps_def by (metis slot_fd)

lemma keeps_has_map: "keeps t t' \<Longrightarrow> has_map t fd name \<Longrightarrow> fd \<noteq> 0 \<Longrightarrow> has_map t' fd name"
  unfolding keeps_def has_map_def by (metis slot_fd)

lemma skip_used_Inr:
  "skip_used fds i = Inr j \<Longrightarrow> i \<le> j \<and> j < length fds \<and> fds ! j = 0 \<and> (\<forall>k. i \<le> k \<longrightarrow> k < j \<longrightarrow> fds ! k \<noteq> 0)"
proof (induction fds i rule: skip_used.induct)
  case (1 fds i)
  then show ?case
    by (subst (asm) (2) skip_used.simps) (auto split: if_splits simp: Suc_le_eq dest: le_neq_implies_less)
qed

lemma skip_used_Inl: "skip_used fds i = Inl e \<Longrightarrow> e = OutOfBounds \<and> (\<forall>k. i \<le> k \<longrightarrow> k < length fds \<longrightarrow> fds ! k \<noteq> 0)"
proof (induction fds i rule: skip_used.induct)
  case (1 fds i)
  then show ?case
    by (subst (asm) (2) skip_used.simps) (auto split: if_splits simp: Suc_le_eq dest: le_neq_implies_less)
qed

lemma skip_used_first:
  "i \<le> n \<Longrightarrow> n \<le> length fds \<Longrightarrow> (\<forall>k. i \<le> k \<longrightarrow> k < n \<longrightarrow> fds ! k \<noteq> 0) \<Longrightarrow> (n < length fds \<Longrightarrow> fds ! n = 0) \<Longrightarrow>
    skip_used fds i = (if n < length fds then Inr n else Inl OutOfBounds)"
proof (induction fds i rule: skip_used.induct)
  case (1 fds i)
  then show ?case by (subst skip_used.simps) (auto simp: Suc_le_eq dest: le_neq_implies_less)
qed

lemma set_slot_fields:
  assumes "set_slot env i name fd info t = (ok, t')" and "tables_wf t"
  shows "tables_wf t'" and "j \<noteq> i \<Longrightarrow> slot t' j = slot t j"
    and "i < MAX_NR_MAPS \<Longrightarrow> map_fds t' ! i = fd \<and> map_names t' ! i = Some name"
    and "map_fds t' = (map_fds t)[i := fd]" and "map_names t' = (map_names t)[i := Some name]"
  using assms by (auto simp: set_slot_def Let_def tables_wf_def slot_def split: option.splits)

lemma copy_slot_fields:
  assumes "tables_wf t"
  shows "tables_wf (copy_slot i j t)" and "j < MAX_NR_MAPS \<Longrightarrow> slot (copy_slot i j t) j = slot t i"
    and "k \<noteq> j \<Longrightarrow> slot (copy_slot i j t) k = slot t k"
  using assms by (auto simp: copy_slot_def tables_wf_def slot_def)

text \<open>One registration: no used slot is lost, and the map is in the table.\<close>

lemma register_map_keeps:
  assumes wf: "tables_wf t" and reg: "register_map env fd info (name, req) n t = Inr (ok, n', t')"
  shows "tables_wf t' \<and> keeps t t' \<and> has_map t' fd name"
proof -
  obtain cur where cur: "cur = nat (if req = -1 then int n' else req)" by simp
  obtain u where u: "u = (if req \<noteq> -1 \<and> map_fds t ! cur \<noteq> 0 then copy_slot cur n' t else t)" by simp
  have sk: "skip_used (map_fds t) n = Inr n'" and lt: "cur < MAX_NR_MAPS"
    and set: "set_slot env cur name fd info u = (ok, t')"
    using reg wf by (auto simp: register_map_def c_bind_Inr_iff c_check_def Let_def cur u tables_wf_def
        split: if_splits prod.splits)
  note free = skip_used_Inr [OF sk]
  have n': "n' < MAX_NR_MAPS" using free wf by (simp add: tables_wf_def)
  have wfu: "tables_wf u" using wf copy_slot_fields(1) by (simp add: u)
  note t' = set_slot_fields [OF set wfu]
  have "\<exists>j < MAX_NR_MAPS. slot t' j = slot t i" if i: "i < MAX_NR_MAPS" "map_fds t ! i \<noteq> 0" for i
  proof (cases "i = cur")
    case True
    have "req \<noteq> -1" using i(2) free by (auto simp: True cur)
    then have "u = copy_slot cur n' t" using i(2) by (simp add: u True)
    moreover have "n' \<noteq> cur" using i(2) free by (auto simp: True)
    ultimately show ?thesis using n' t'(2) [of n'] copy_slot_fields(2) [OF wf n', of cur] True by auto
  next
    case False
    have "i \<noteq> n'" using i(2) free by auto
    then have "slot u i = slot t i" using copy_slot_fields(3) [OF wf] by (simp add: u)
    then show ?thesis using t'(2) [OF False] i(1) by auto
  qed
  then show ?thesis using t'(1) t'(3) [OF lt] lt by (auto simp: keeps_def has_map_def)
qed

lemma match_requests_keeps:
  "match_requests env fd info rs n t = Inr (ok, n', t') \<Longrightarrow> tables_wf t \<Longrightarrow>
    tables_wf t' \<and> keeps t t' \<and> (ok \<and> fd \<noteq> 0 \<longrightarrow> (\<forall>r\<in>set rs. fst r = mi_name info \<longrightarrow> has_map t' fd (fst r)))"
proof (induction rs arbitrary: n t)
  case (Cons r rs)
  obtain name req where r: "r = (name, req)" by (metis surj_pair)
  show ?case
  proof (cases "name = mi_name info")
    case False
    then show ?thesis using Cons by (auto simp: r)
  next
    case True
    with Cons.prems(1) obtain ok1 n1 t1 where reg: "register_map env fd info (name, req) n t = Inr (ok1, n1, t1)"
      and rest: "(if ok1 then match_requests env fd info rs n1 t1 else Inr (False, n1, t1)) = Inr (ok, n', t')"
      by (auto simp: r c_bind_Inr_iff)
    note k1 = register_map_keeps [OF Cons.prems(2) reg]
    show ?thesis
    proof (cases ok1)
      case ok1: True
      then have "tables_wf t' \<and> keeps t1 t' \<and> (ok \<and> fd \<noteq> 0 \<longrightarrow> (\<forall>r\<in>set rs. fst r = mi_name info \<longrightarrow> has_map t' fd (fst r)))"
        using Cons.IH [of n1 t1] rest k1 by simp
      then show ?thesis using k1 keeps_trans keeps_has_map by (auto simp: r)
    qed (use rest k1 in auto)
  qed
qed simp

lemma scan_maps_keeps:
  "scan_maps env rs ms info n t = Inr (ret, t') \<Longrightarrow> tables_wf t \<Longrightarrow>
    tables_wf t' \<and> keeps t t' \<and> ret \<in> {0, 1} \<and>
    (ret = 0 \<longrightarrow> (\<forall>fd i. (fd, Some i) \<in> set ms \<longrightarrow> fd \<noteq> 0 \<longrightarrow> mi_name i \<in> fst ` set rs \<longrightarrow> has_map t' fd (mi_name i)))"
proof (induction ms arbitrary: info n t)
  case (Cons m ms)
  obtain fd answer where m: "m = (fd, answer)" by (metis surj_pair)
  let ?i = "case answer of None \<Rightarrow> info | Some i \<Rightarrow> i"
  obtain ok n1 t1 where mr: "match_requests env fd ?i rs n t = Inr (ok, n1, t1)"
    and rest: "(if ok then scan_maps env rs ms ?i n1 t1 else Inr (1, t1)) = Inr (ret, t')"
    using Cons.prems(1) by (auto simp: m Let_def c_bind_Inr_iff)
  note k1 = match_requests_keeps [OF mr Cons.prems(2)]
  show ?case
  proof (cases ok)
    case True
    then have IH: "tables_wf t' \<and> keeps t1 t' \<and> ret \<in> {0, 1} \<and> (ret = 0 \<longrightarrow> (\<forall>fd i. (fd, Some i) \<in> set ms \<longrightarrow>
        fd \<noteq> 0 \<longrightarrow> mi_name i \<in> fst ` set rs \<longrightarrow> has_map t' fd (mi_name i)))"
      using Cons.IH [of ?i n1 t1] rest k1 by simp
    have "has_map t' fd (mi_name i)" if "answer = Some i" "fd \<noteq> 0" "mi_name i \<in> fst ` set rs" for i
    proof -
      from that(3) obtain r where "r \<in> set rs" "fst r = mi_name i" by auto
      then have "has_map t1 fd (mi_name i)" using k1 True that(1,2) by auto
      then show ?thesis using IH keeps_has_map that(2) by blast
    qed
    then show ?thesis using IH k1 keeps_trans by (auto simp: m)
  qed (use rest k1 in auto)
qed simp

section \<open>The search\<close>

lemma find_name_here:
  "k < length ns \<Longrightarrow> length fds = length ns \<Longrightarrow> ns ! k = Some name \<Longrightarrow>
    (\<forall>j < k. ns ! j \<noteq> None \<and> ns ! j \<noteq> Some name) \<Longrightarrow> find_name ns fds i name = (fds ! k, Some (i + k))"
proof (induction ns fds i name arbitrary: k rule: find_name.induct)
  case (1 ns fds i name)
  then show ?case by (cases k) auto
next
  case (2 n ns fd fds i name)
  then show ?case by (cases k) force+
qed auto

lemma find_name_hidden:
  "k < length ns \<Longrightarrow> length fds = length ns \<Longrightarrow> ns ! k = None \<Longrightarrow> (\<forall>j < k. ns ! j \<noteq> Some name) \<Longrightarrow>
    find_name ns fds i name = (0, None)"
proof (induction ns fds i name arbitrary: k rule: find_name.induct)
  case (2 n ns fd fds i name)
  then show ?case by (cases k) force+
qed auto

lemma find_name_absent:
  "length fds = length ns \<Longrightarrow> Some name \<notin> set ns \<Longrightarrow> find_name ns fds i name = (0, None)"
  by (induction ns fds i name rule: find_name.induct) auto

text \<open>The used slots are the first \<open>n\<close>, and these are the named ones.\<close>

definition used_prefix :: "nat \<Rightarrow> map_tables \<Rightarrow> bool" where
  "used_prefix n t \<longleftrightarrow> tables_wf t \<and> n \<le> MAX_NR_MAPS \<and>
     (\<forall>i < MAX_NR_MAPS. (map_fds t ! i \<noteq> 0 \<longleftrightarrow> i < n) \<and> (map_names t ! i \<noteq> None \<longleftrightarrow> i < n))"

lemma used_prefix_empty: "used_prefix 0 empty_tables"
  by (simp add: used_prefix_def empty_tables_wf) (simp add: empty_tables_def)

lemma used_prefix_find:
  assumes "used_prefix n t" and "has_map t fd name" and "fd \<noteq> 0"
  shows "get_map_fd t name \<noteq> 0 \<and> has_map t (get_map_fd t name) name"
proof -
  let ?P = "\<lambda>k. k < n \<and> map_names t ! k = Some name"
  from assms(2) obtain j where j: "j < MAX_NR_MAPS" "map_fds t ! j = fd" "map_names t ! j = Some name"
    unfolding has_map_def by blast
  have "j < n" using assms(1) j(1,2) assms(3) unfolding used_prefix_def by blast
  then have "\<exists>j. ?P j" using j(3) by blast
  then obtain k where k: "k < n" "map_names t ! k = Some name" and least: "\<And>i. i < k \<Longrightarrow> \<not> ?P i"
    using exists_least_iff [of ?P] by blast
  have n: "n \<le> MAX_NR_MAPS" "length (map_names t) = MAX_NR_MAPS" "length (map_fds t) = MAX_NR_MAPS"
    using assms(1) by (simp_all add: used_prefix_def tables_wf_def)
  have lt: "k < MAX_NR_MAPS" using k(1) n(1) by linarith
  have "map_names t ! i \<noteq> None \<and> map_names t ! i \<noteq> Some name" if "i < k" for i
  proof -
    have "i < n" "i < MAX_NR_MAPS" using that k(1) lt by linarith+
    then show ?thesis using least [OF that] assms(1) unfolding used_prefix_def by blast
  qed
  then have "find_name (map_names t) (map_fds t) 0 name = (map_fds t ! k, Some (0 + k))"
    using k(2) lt n(2,3) by (intro find_name_here) simp_all
  then have f: "get_map_fd t name = map_fds t ! k" by (simp add: get_map_fd_def)
  have "map_fds t ! k \<noteq> 0" using k(1) lt assms(1) unfolding used_prefix_def by blast
  then show ?thesis unfolding f has_map_def using k(2) lt by blast
qed

text \<open>A registration without a requested position takes the next slot, until there is none.\<close>

lemma register_next:
  assumes p: "used_prefix n t" and m: "m \<le> n" and fd: "fd \<noteq> 0"
  shows "if n < MAX_NR_MAPS
    then \<exists>ok t'. register_map env fd info (name, -1) m t = Inr (ok, n, t') \<and> used_prefix (Suc n) t' \<and>
      (ok \<longleftrightarrow> malloc_buf env (ucast (mi_value_size info)) \<noteq> None)
    else register_map env fd info (name, -1) m t = Inl OutOfBounds"
proof -
  have wf: "tables_wf t" and n: "n \<le> MAX_NR_MAPS" using p by (simp_all add: used_prefix_def)
  have len: "length (map_fds t) = MAX_NR_MAPS" using wf by (simp add: tables_wf_def)
  have "skip_used (map_fds t) m = (if n < length (map_fds t) then Inr n else Inl OutOfBounds)"
    by (rule skip_used_first) (use p m n len in \<open>auto simp: used_prefix_def\<close>)
  note sk = this [unfolded len]
  show ?thesis
  proof (cases "n < MAX_NR_MAPS")
    case True
    obtain ok t' where set: "set_slot env n name fd info t = (ok, t')" by (metis surj_pair)
    have "register_map env fd info (name, -1) m t = Inr (ok, n, t')"
      using sk True len set by (simp add: register_map_def)
    moreover have "used_prefix (Suc n) t'"
      using set_slot_fields(1,4,5) [OF set wf] p True fd
      by (auto simp: used_prefix_def tables_wf_def nth_list_update less_Suc_eq)
    moreover have "ok \<longleftrightarrow> malloc_buf env (ucast (mi_value_size info)) \<noteq> None"
      using set by (auto simp: set_slot_def Let_def split: option.splits)
    ultimately show ?thesis using True by simp
  qed (use sk in \<open>simp add: register_map_def\<close>)
qed

lemma match_requests_next:
  "match_requests env fd info rs m t = Inr (ok, m', t') \<Longrightarrow> \<forall>r\<in>set rs. snd r = -1 \<Longrightarrow> used_prefix n t \<Longrightarrow> m \<le> n \<Longrightarrow>
    fd \<noteq> 0 \<Longrightarrow> \<exists>n'. used_prefix n' t' \<and> m' \<le> n'"
proof (induction rs arbitrary: m t n)
  case (Cons r rs)
  obtain name where r: "r = (name, -1)" using Cons.prems(2) by (cases r) auto
  show ?case
  proof (cases "name = mi_name info")
    case False
    then show ?thesis using Cons by (auto simp: r)
  next
    case True
    note nxt = register_next [OF Cons.prems(3,4,5), of env info name]
    have "n < MAX_NR_MAPS" using nxt Cons.prems(1) True by (auto simp: r split: if_splits)
    with nxt obtain ok1 t1 where reg: "register_map env fd info (name, -1) m t = Inr (ok1, n, t1)"
      and p1: "used_prefix (Suc n) t1" by auto
    show ?thesis
    proof (cases ok1)
      case ok1: True
      then have "match_requests env fd info rs n t1 = Inr (ok, m', t')" using Cons.prems(1) True reg by (simp add: r)
      from Cons.IH [OF this _ p1] show ?thesis using Cons.prems(2,5) by simp
    next
      case False
      then have "m' = n \<and> t' = t1" using Cons.prems(1) True reg by (simp add: r)
      then show ?thesis using p1 by (intro exI [of _ "Suc n"]) simp
    qed
  qed
qed auto

lemma scan_maps_next:
  "scan_maps env rs ms info m t = Inr (ret, t') \<Longrightarrow> \<forall>r\<in>set rs. snd r = -1 \<Longrightarrow> used_prefix n t \<Longrightarrow> m \<le> n \<Longrightarrow>
    \<forall>x\<in>set ms. fst x \<noteq> 0 \<Longrightarrow> \<exists>n'. used_prefix n' t'"
proof (induction ms arbitrary: info m t n)
  case (Cons x ms)
  obtain fd answer where x: "x = (fd, answer)" by (metis surj_pair)
  let ?i = "case answer of None \<Rightarrow> info | Some i \<Rightarrow> i"
  obtain ok m1 t1 where mr: "match_requests env fd ?i rs m t = Inr (ok, m1, t1)"
    and rest: "(if ok then scan_maps env rs ms ?i m1 t1 else Inr (1, t1)) = Inr (ret, t')"
    using Cons.prems(1) by (auto simp: x Let_def c_bind_Inr_iff)
  have "fd \<noteq> 0" using Cons.prems(5) by (simp add: x)
  from match_requests_next [OF mr Cons.prems(2-4) this] obtain n1 where n1: "used_prefix n1 t1" "m1 \<le> n1" by blast
  show ?case
  proof (cases ok)
    case True
    then have "scan_maps env rs ms ?i m1 t1 = Inr (ret, t')" using rest by simp
    from Cons.IH [OF this Cons.prems(2) n1] show ?thesis using Cons.prems(5) by simp
  qed (use rest n1 in auto)
qed auto

lemma split_colon_none: "CHR '':'' \<notin> set req \<Longrightarrow> split_colon req = (req, None)"
  by (induction req) auto

lemma split_colon_some: "CHR '':'' \<notin> set name \<Longrightarrow> split_colon (name @ CHR '':'' # s) = (name, Some s)"
  by (induction name) auto

lemma plain_request: "CHR '':'' \<notin> set req \<Longrightarrow> get_name_index_requested req = (req, -1)"
  by (simp add: get_name_index_requested_def split_colon_none)

section \<open>Kernels for the witnesses\<close>

definition demo_info :: "string \<Rightarrow> map_info" where
  "demo_info name = \<lparr>mi_name = name, mi_value_size = 8, mi_max_entries = 4, mi_flags = 0\<rparr>"

definition demo_env :: "(int \<times> map_info option) list \<Rightarrow> map_env" where
  "demo_env ms = \<lparr>kernel_maps = ms, malloc_buf = (\<lambda>n. Some (replicate (unat n) 0)),
     mmap_ok = (\<lambda>_ _. True), page_size = 4096\<rparr>"

lemma demo_env_simps [simp]:
  "kernel_maps (demo_env ms) = ms" "malloc_buf (demo_env ms) n = Some (replicate (unat n) 0)"
  "mi_name (demo_info name) = name" "mi_value_size (demo_info name) = 8"
  by (simp_all add: demo_env_def demo_info_def)

lemma malloc_always: "malloc_buf (demo_env ms) n \<noteq> None"
  by simp

section \<open>Running out of slots\<close>

text \<open>
  The matches of the kernel's maps with the requests, each of which is one registration, and a request
  for a position outside the table.
\<close>

fun count_matches :: "(string \<times> int) list \<Rightarrow> (int \<times> map_info option) list \<Rightarrow> map_info \<Rightarrow> nat" where
  "count_matches rs [] info = 0"
| "count_matches rs ((fd, answer) # ms) info =
     (let info = (case answer of None \<Rightarrow> info | Some i \<Rightarrow> i) in
      length (filter (\<lambda>r. fst r = mi_name info) rs) + count_matches rs ms info)"

definition bad_position :: "string \<times> int \<Rightarrow> bool" where
  "bad_position r \<longleftrightarrow> snd r \<noteq> -1 \<and> (snd r < 0 \<or> int MAX_NR_MAPS \<le> snd r)"

text \<open>At most \<open>k\<close> slots have been used so far, and all below \<open>n\<close> have.\<close>

definition touched :: "nat \<Rightarrow> nat \<Rightarrow> map_tables \<Rightarrow> bool" where
  "touched k n t \<longleftrightarrow> tables_wf t \<and> (\<exists>U. finite U \<and> card U \<le> k \<and> {..<n} \<subseteq> U \<and>
     (\<forall>i < MAX_NR_MAPS. map_fds t ! i \<noteq> 0 \<longrightarrow> i \<in> U))"

lemma touched_mono: "touched k n t \<Longrightarrow> k \<le> k' \<Longrightarrow> touched k' n t"
  by (meson touched_def le_trans)

lemma register_map_touched:
  assumes t: "touched k n t"
  shows "register_map env fd info r n t = Inl e \<Longrightarrow> bad_position r \<or> MAX_NR_MAPS \<le> k"
    and "register_map env fd info r n t = Inr (ok, n', t') \<Longrightarrow> touched (Suc k) n' t'"
proof -
  obtain name req where r: "r = (name, req)" by (cases r)
  from t obtain U where wf: "tables_wf t" and U: "finite U" "card U \<le> k" "{..<n} \<subseteq> U"
      "\<forall>i < MAX_NR_MAPS. map_fds t ! i \<noteq> 0 \<longrightarrow> i \<in> U" by (auto simp: touched_def)
  have len: "length (map_fds t) = MAX_NR_MAPS" using wf by (simp add: tables_wf_def)
  show "bad_position r \<or> MAX_NR_MAPS \<le> k" if "register_map env fd info r n t = Inl e"
  proof (cases "skip_used (map_fds t) n")
    case (Inl x)
    from skip_used_Inl [OF this] have "{..<MAX_NR_MAPS} \<subseteq> U"
      using U(3,4) len by (auto simp: subset_iff) (meson not_le)
    from card_mono [OF U(1) this] U(2) show ?thesis by simp
  next
    case (Inr m)
    then show ?thesis using that skip_used_Inr [OF Inr] len
      by (auto simp: register_map_def r c_check_def Let_def bad_position_def split: if_splits prod.splits)
  qed
  assume reg: "register_map env fd info r n t = Inr (ok, n', t')"
  obtain cur where cur: "cur = nat (if req = -1 then int n' else req)" by simp
  obtain u where u: "u = (if req \<noteq> -1 \<and> map_fds t ! cur \<noteq> 0 then copy_slot cur n' t else t)" by simp
  have sk: "skip_used (map_fds t) n = Inr n'" and set: "set_slot env cur name fd info u = (ok, t')"
    and lt: "cur < MAX_NR_MAPS"
    using reg len by (auto simp: r register_map_def c_bind_Inr_iff c_check_def Let_def cur u split: if_splits prod.splits)
  note free = skip_used_Inr [OF sk]
  have wfu: "tables_wf u" using wf copy_slot_fields(1) by (simp add: u)
  note t' = set_slot_fields [OF set wfu]
  let ?x = "if req \<noteq> -1 \<and> map_fds t ! cur \<noteq> 0 then n' else cur"
  have "i \<in> insert ?x U" if i: "i < MAX_NR_MAPS" "map_fds t' ! i \<noteq> 0" for i
  proof (cases "i = cur")
    case True
    then show ?thesis using U(4) lt by auto
  next
    case other: False
    then have "map_fds u ! i \<noteq> 0" using i t'(4) by simp
    then have "i = n' \<and> ?x = n' \<or> map_fds t ! i \<noteq> 0"
      by (cases "i = n'") (auto simp: u copy_slot_def split: if_splits)
    then show ?thesis using U(4) i(1) by auto
  qed
  moreover have "{..<n'} \<subseteq> insert ?x U"
    using free U(3,4) len by (auto simp: subset_iff) (meson le_less_linear less_trans)+
  moreover have "card (insert ?x U) \<le> Suc k" using card_insert_le_m1 U(1,2) by (simp add: card_insert_if)
  ultimately show "touched (Suc k) n' t'" using t'(1) U(1) unfolding touched_def
    by (intro conjI exI [of _ "insert ?x U"]) simp_all
qed

lemma match_requests_touched:
  "touched k n t \<Longrightarrow> case match_requests env fd info rs n t of
     Inl e \<Rightarrow> (\<exists>r \<in> set rs. bad_position r) \<or> MAX_NR_MAPS < k + length (filter (\<lambda>r. fst r = mi_name info) rs)
   | Inr (ok, n', t') \<Rightarrow> touched (k + length (filter (\<lambda>r. fst r = mi_name info) rs)) n' t'"
proof (induction rs arbitrary: k n t)
  case (Cons r rs)
  show ?case
  proof (cases "fst r = mi_name info")
    case False
    then show ?thesis using Cons.IH [OF Cons.prems] by (auto split: sum.splits)
  next
    case True
    show ?thesis
    proof (cases "register_map env fd info r n t")
      case (Inl e)
      then show ?thesis using True register_map_touched(1) [OF Cons.prems Inl] by auto
    next
      case (Inr x)
      obtain ok n1 t1 where x: "x = (ok, n1, t1)" by (cases x)
      have s: "touched (Suc k) n1 t1" using register_map_touched(2) [OF Cons.prems] Inr x by blast
      then show ?thesis using True Inr x Cons.IH [OF s] touched_mono [OF s]
        by (auto split: sum.splits)
    qed
  qed
qed simp

lemma scan_maps_overflow:
  "touched k n t \<Longrightarrow> scan_maps env rs ms info n t = Inl e \<Longrightarrow>
    (\<exists>r \<in> set rs. bad_position r) \<or> MAX_NR_MAPS < k + count_matches rs ms info"
proof (induction ms arbitrary: k n t info)
  case (Cons m ms)
  obtain fd answer where m: "m = (fd, answer)" by (cases m)
  let ?i = "case answer of None \<Rightarrow> info | Some i \<Rightarrow> i"
  note one = match_requests_touched [where env = env and fd = fd and info = ?i and rs = rs, OF Cons.prems(1)]
  show ?case
  proof (cases "match_requests env fd ?i rs n t")
    case (Inl x)
    then show ?thesis using one by (auto simp: m Let_def)
  next
    case (Inr x)
    obtain ok n1 t1 where x: "x = (ok, n1, t1)" by (cases x)
    have s: "touched (k + length (filter (\<lambda>r. fst r = mi_name ?i) rs)) n1 t1" using one Inr x by simp
    have "ok" "scan_maps env rs ms ?i n1 t1 = Inl e"
      using Cons.prems(2) Inr x by (auto simp: m Let_def split: if_splits)
    from Cons.IH [OF s this(2)] show ?thesis by (auto simp: m Let_def add.assoc)
  qed
qed simp

lemma setup_maps_overflow:
  assumes "setup_map_system env requests empty_tables = Inl e"
  shows "(\<exists>r \<in> set requests. bad_position (get_name_index_requested r)) \<or>
    MAX_NR_MAPS < count_matches (map get_name_index_requested requests) (kernel_maps env) no_info"
proof -
  have t: "touched 0 0 empty_tables" unfolding touched_def
    by (intro conjI exI [of _ "{}"]) (simp_all add: empty_tables_wf, simp add: empty_tables_def)
  have "scan_maps env (map get_name_index_requested requests) (kernel_maps env) no_info 0 empty_tables = Inl e"
    using assms by (simp add: setup_map_system_def split: if_splits)
  from scan_maps_overflow [OF t this] show ?thesis by (simp only: set_map bex_simps add_0)
qed

section \<open>Properties\<close>

text \<open>C15: the set up keeps the tables at their size and never loses a map: every slot in use before is
  still there with its descriptor, name, value size, buffer and mapped area, possibly relocated.
  When it succeeds every map of the kernel whose name is requested is in the tables.\<close>

theorem setup_keeps_registered:
  assumes "tables_wf t" and "setup_map_system env requests t = Inr (ret, t')"
  shows "tables_wf t' \<and> keeps t t' \<and>
    (ret = 0 \<and> length requests \<le> MAX_NR_MAPS \<longrightarrow> (\<forall>fd i. (fd, Some i) \<in> set (kernel_maps env) \<longrightarrow> fd \<noteq> 0 \<longrightarrow>
       mi_name i \<in> fst ` get_name_index_requested ` set requests \<longrightarrow> has_map t' fd (mi_name i)))"
proof (cases "length requests > MAX_NR_MAPS")
  case False
  then show ?thesis
    using assms scan_maps_keeps [of env "map get_name_index_requested requests" "kernel_maps env" no_info 0 t ret t']
    by (simp add: setup_map_system_def)
qed (use assms in \<open>auto simp: setup_map_system_def\<close>)

lemma setup_one:
  assumes "used_prefix n t" and "n < MAX_NR_MAPS" and "fd \<noteq> 0" and "malloc_buf env (ucast (mi_value_size info)) \<noteq> None"
    and "CHR '':'' \<notin> set (mi_name info)" and "kernel_maps env = [(fd, Some info)]"
  shows "\<exists>t'. setup_map_system env [mi_name info] t = Inr (0, t') \<and> used_prefix (Suc n) t'"
  using register_next [OF assms(1) le0 assms(3), of env info "mi_name info"] assms
  by (auto simp: setup_map_system_def MAX_NR_MAPS_def plain_request)

theorem setup_keeps_registered_witness:
  "\<exists>t'. setup_map_system (demo_env [(7, Some (demo_info ''stats''))]) [''stats''] empty_tables = Inr (0, t') \<and>
     has_map t' 7 ''stats''"
proof -
  obtain t' where t': "setup_map_system (demo_env [(7, Some (demo_info ''stats''))]) [''stats''] empty_tables = Inr (0, t')"
    using setup_one [OF used_prefix_empty _ _ malloc_always, of 7 "demo_info ''stats''"] by (auto simp: MAX_NR_MAPS_def)
  have "mi_name (demo_info ''stats'') \<in> fst ` get_name_index_requested ` set [''stats'']"
    by (simp add: plain_request)
  then have "has_map t' 7 (mi_name (demo_info ''stats''))"
    by (intro setup_keeps_registered [OF empty_tables_wf t', THEN conjunct2, THEN conjunct2, rule_format, of 7 "demo_info ''stats''"])
      (simp_all add: MAX_NR_MAPS_def)
  then show ?thesis using t' by auto
qed

text \<open>The search by name yields the first slot of that name, unless an unnamed slot comes before
  it; then, and when the name is nowhere, it yields descriptor 0. Both variants of the search agree.\<close>

theorem get_map_fd_spec:
  assumes "tables_wf t"
  shows "get_map_fd t name = fst (get_map_fd_and_idx t name) \<and>
    get_map_fd_and_idx t name =
      (let k = length (takeWhile (\<lambda>n. n \<noteq> None \<and> n \<noteq> Some name) (map_names t)) in
       if k < MAX_NR_MAPS \<and> map_names t ! k = Some name then (map_fds t ! k, Some k) else (0, None))"
proof -
  have len: "length (map_names t) = MAX_NR_MAPS" "length (map_fds t) = length (map_names t)"
    using assms by (simp_all add: tables_wf_def)
  let ?Q = "\<lambda>n. n \<noteq> None \<and> n \<noteq> Some name"
  obtain k where k: "k = length (takeWhile ?Q (map_names t))" by simp
  have before: "?Q (map_names t ! j)" if "j < k" for j
  proof -
    have lt: "j < length (takeWhile ?Q (map_names t))" using that k by simp
    then have "takeWhile ?Q (map_names t) ! j \<in> set (takeWhile ?Q (map_names t))" by (rule nth_mem)
    from set_takeWhileD [OF this] show ?thesis unfolding takeWhile_nth [OF lt] by simp
  qed
  have "find_name (map_names t) (map_fds t) 0 name =
      (if k < MAX_NR_MAPS \<and> map_names t ! k = Some name then (map_fds t ! k, Some k) else (0, None))"
  proof (cases "k < MAX_NR_MAPS")
    case True
    have "\<not> ?Q (map_names t ! k)"
      using nth_length_takeWhile [of ?Q "map_names t"] True unfolding k len(1) by blast
    then consider "map_names t ! k = None" | "map_names t ! k = Some name" by blast
    then show ?thesis
    proof cases
      case 1
      then show ?thesis using find_name_hidden [of k "map_names t" "map_fds t" name 0] True len before by auto
    next
      case 2
      then show ?thesis using find_name_here [of k "map_names t" "map_fds t" name 0] True len before by auto
    qed
  next
    case False
    moreover have "k \<le> MAX_NR_MAPS" using length_takeWhile_le [of ?Q "map_names t"] unfolding k len(1) .
    ultimately have "k = length (map_names t)" using len(1) by simp
    then have "Some name \<notin> set (map_names t)" using before unfolding in_set_conv_nth by blast
    then show ?thesis using False find_name_absent [OF len(2)] by simp
  qed
  then show ?thesis unfolding get_map_fd_def get_map_fd_and_idx_def Let_def k by simp
qed

theorem get_map_fd_spec_witness: "get_map_fd empty_tables ''stats'' = 0"
  using get_map_fd_spec [OF empty_tables_wf, of "''stats''"]
  by (simp add: Let_def) (simp add: empty_tables_def MAX_NR_MAPS_def numeral_eq_Suc)

text \<open>C33: without requested positions, on tables filled from the front, every requested map of the
  kernel can be found by its name after a successful set up, with the descriptor of a map of
  that name.\<close>

theorem requested_maps_found:
  assumes "used_prefix n t" and "setup_map_system env requests t = Inr (0, t')" and "length requests \<le> MAX_NR_MAPS"
    and "\<forall>r \<in> set requests. CHR '':'' \<notin> set r" and "\<forall>m \<in> set (kernel_maps env). fst m \<noteq> 0"
    and "(fd, Some info) \<in> set (kernel_maps env)" and "mi_name info \<in> set requests"
  shows "get_map_fd t' (mi_name info) \<noteq> 0 \<and> has_map t' (get_map_fd t' (mi_name info)) (mi_name info)"
proof -
  let ?rs = "map get_name_index_requested requests"
  have scan: "scan_maps env ?rs (kernel_maps env) no_info 0 t = Inr (0, t')"
    using assms(2,3) by (simp add: setup_map_system_def)
  have plain: "\<forall>r \<in> set requests. get_name_index_requested r = (r, -1)" using assms(4) by (simp add: plain_request)
  then have "\<forall>r \<in> set ?rs. snd r = -1" by simp
  from scan_maps_next [OF scan this assms(1) le0 assms(5)] obtain n' where n': "used_prefix n' t'" by blast
  have fd: "fd \<noteq> 0" using assms(5,6) by auto
  have "tables_wf t" using assms(1) by (simp add: used_prefix_def)
  moreover have "mi_name info \<in> fst ` set ?rs"
    using assms(7) plain by (force simp: image_iff)
  ultimately have "has_map t' fd (mi_name info)" using scan_maps_keeps [OF scan] assms(6) fd by blast
  from used_prefix_find [OF n' this fd] show ?thesis .
qed

theorem requested_maps_found_witness:
  "\<exists>t'. setup_map_system (demo_env [(7, Some (demo_info ''stats''))]) [''stats''] empty_tables = Inr (0, t') \<and>
     get_map_fd t' ''stats'' \<noteq> 0"
proof -
  obtain t' where t': "setup_map_system (demo_env [(7, Some (demo_info ''stats''))]) [''stats''] empty_tables = Inr (0, t')"
    using setup_one [OF used_prefix_empty _ _ malloc_always, of 7 "demo_info ''stats''"] by (auto simp: MAX_NR_MAPS_def)
  have "get_map_fd t' (mi_name (demo_info ''stats'')) \<noteq> 0"
    using requested_maps_found [OF used_prefix_empty t', of 7 "demo_info ''stats''"] by (simp add: MAX_NR_MAPS_def)
  then show ?thesis using t' by auto
qed

text \<open>A map for which a position behind the first free slot is requested is stored there, but the
  search by name never reaches it: it stops at the first unnamed slot. Updates by name then
  report failure; only the lookup by index finds the map.\<close>

theorem requested_position_hidden:
  assumes "kernel_maps env = [(fd, Some info)]" and "fd \<noteq> 0" and "CHR '':'' \<notin> set (mi_name info)"
    and "malloc_buf env (ucast (mi_value_size info)) \<noteq> None"
    and "0 < atoi pos" and "atoi pos < int MAX_NR_MAPS"
  shows "\<exists>t. setup_map_system env [mi_name info @ CHR '':'' # pos] empty_tables = Inr (0, t) \<and>
    map_fds t ! nat (atoi pos) = fd \<and> map_names t ! nat (atoi pos) = Some (mi_name info) \<and>
    get_map_fd t (mi_name info) = 0 \<and>
    ubpf_map_update_elem_kern upd t (mi_name info) key val flag w = (1, w)"
proof -
  let ?i = "nat (atoi pos)"
  have i: "0 < ?i" "?i < MAX_NR_MAPS" using assms(5,6) by auto
  obtain ok t where set: "set_slot env ?i (mi_name info) fd info empty_tables = (ok, t)" by (metis surj_pair)
  have ok: "ok" using set assms(4) by (auto simp: set_slot_def Let_def split: option.splits)
  note f = set_slot_fields [OF set empty_tables_wf]
  have e: "map_fds empty_tables ! j = 0" "map_names empty_tables ! j = None" if "j < MAX_NR_MAPS" for j
    using that by (simp_all add: empty_tables_def)
  have len: "length (map_fds empty_tables) = MAX_NR_MAPS" "length (map_names empty_tables) = MAX_NR_MAPS"
    by (simp_all add: empty_tables_def)
  have pos: "0 < MAX_NR_MAPS" by (simp add: MAX_NR_MAPS_def)
  have "skip_used (map_fds empty_tables) 0 = Inr 0"
    using pos e(1) [OF pos] len by (subst skip_used.simps) simp
  then have reg: "register_map env fd info (mi_name info, atoi pos) 0 empty_tables = Inr (ok, 0, t)"
    using i assms(5) e(1) [OF i(2)] len set by (simp add: register_map_def)
  have req: "get_name_index_requested (mi_name info @ CHR '':'' # pos) = (mi_name info, atoi pos)"
    using assms(3) by (simp add: get_name_index_requested_def split_colon_some)
  have "setup_map_system env [mi_name info @ CHR '':'' # pos] empty_tables = Inr (0, t)"
    using reg ok pos assms(1) by (simp add: setup_map_system_def req)
  moreover have "find_name (map_names t) (map_fds t) 0 (mi_name info) = (0, None)"
    by (rule find_name_hidden [of 0]) (use f(4,5) i len e(2) [OF pos] pos in simp_all)
  then have "get_map_fd t (mi_name info) = 0" by (simp add: get_map_fd_def)
  ultimately show ?thesis using f(3) [OF i(2)] by (simp add: ubpf_map_update_elem_kern_def)
qed

theorem requested_position_hidden_witness:
  "\<exists>t. setup_map_system (demo_env [(7, Some (demo_info ''stats''))]) [''stats:3''] empty_tables = Inr (0, t) \<and>
     map_fds t ! 3 = 7 \<and> get_map_fd t ''stats'' = 0"
  using requested_position_hidden [where pos = "''3''" and info = "demo_info ''stats''" and fd = 7
      and env = "demo_env [(7, Some (demo_info ''stats''))]" and upd = "\<lambda>_ _ _ _ w. (0, w)"
      and key = "[]" and val = "[]" and flag = 0 and w = "()"]
  by (auto simp: atoi_int int_text_def digit_val_def MAX_NR_MAPS_def)

text \<open>When the name is found, a lookup by name is the lookup by index at its slot.\<close>

theorem named_lookup_is_fast:
  assumes "tables_wf t" and "get_map_fd_and_idx t name = (fd, Some i)" and "fd \<noteq> 0"
  shows "ubpf_map_lookup_elem_kern bpf t name key = ubpf_map_lookup_elem_kern_fast bpf t (int i) key"
proof -
  let ?k = "length (takeWhile (\<lambda>n. n \<noteq> None \<and> n \<noteq> Some name) (map_names t))"
  have found: "find_name ns fds m name = (fd, Some i) \<Longrightarrow> length fds = length ns \<Longrightarrow> m \<le> i \<and> i - m < length ns \<and> fds ! (i - m) = fd"
    for ns fds m
  proof (induction ns fds m name rule: find_name.induct)
    case (2 n ns fd' fds m name)
    then show ?case by (auto simp: nth_Cons' Suc_le_eq split: if_splits)
  qed auto
  have "i < length (map_names t) \<and> map_fds t ! i = fd"
    using found [of "map_names t" "map_fds t" 0] assms(1,2) by (simp add: get_map_fd_and_idx_def tables_wf_def)
  then show ?thesis using assms
    by (simp add: ubpf_map_lookup_elem_kern_def ubpf_map_lookup_elem_kern_fast_def tables_wf_def
        split: option.splits)
qed

theorem named_lookup_is_fast_witness:
  "\<exists>t. get_map_fd_and_idx t ''stats'' = (7, Some 0) \<and>
     ubpf_map_lookup_elem_kern (\<lambda>fd key. Some [1, 2]) t ''stats'' [0, 0, 0, 0] =
     ubpf_map_lookup_elem_kern_fast (\<lambda>fd key. Some [1, 2]) t 0 [0, 0, 0, 0]"
proof -
  let ?t = "empty_tables\<lparr>map_fds := (map_fds empty_tables)[0 := 7], map_names := (map_names empty_tables)[0 := Some ''stats'']\<rparr>"
  have "tables_wf ?t" using empty_tables_wf by (simp add: tables_wf_def)
  moreover have "get_map_fd_and_idx ?t ''stats'' = (7, Some 0)"
    by (simp add: get_map_fd_and_idx_def empty_tables_def MAX_NR_MAPS_def numeral_eq_Suc)
  ultimately show ?thesis using named_lookup_is_fast [of ?t "''stats''" 7 0] by (intro exI [of _ ?t]) simp
qed

text \<open>A map that is not memory mapped has one buffer for all its values: after a second lookup the
  pointer of the first one shows the value of the second key.\<close>

theorem lookups_share_buffer:
  assumes "i < length (map_value_pool t)" and "length (mmap_area t) = length (map_value_pool t)"
    and "mmap_area t ! i = None" and "map_value_pool t ! i = Some buf"
    and "bpf (map_fds t ! i) k1 = Some v1" and "length v1 = length buf"
    and "bpf (map_fds t ! i) k2 = Some v2" and "length v2 = length buf"
  shows "\<exists>t1 t2. ubpf_map_lookup_elem_kern_fast bpf t (int i) k1 = Inr (PoolElem i, t1) \<and>
    map_value_pool t1 ! i = Some v1 \<and>
    ubpf_map_lookup_elem_kern_fast bpf t1 (int i) k2 = Inr (PoolElem i, t2) \<and> map_value_pool t2 ! i = Some v2"
  using assms by (simp add: ubpf_map_lookup_elem_kern_fast_def)

theorem lookups_share_buffer_witness:
  "\<exists>t1 t2. ubpf_map_lookup_elem_kern_fast (\<lambda>fd key. Some key)
      (empty_tables\<lparr>map_value_pool := (map_value_pool empty_tables)[2 := Some [0]]\<rparr>) 2 [5] = Inr (PoolElem 2, t1) \<and>
    ubpf_map_lookup_elem_kern_fast (\<lambda>fd key. Some key) t1 2 [6] = Inr (PoolElem 2, t2) \<and>
    map_value_pool t2 ! 2 = Some [6]"
  using lookups_share_buffer [of 2 "empty_tables\<lparr>map_value_pool := (map_value_pool empty_tables)[2 := Some [0]]\<rparr>"
      "[0]" "\<lambda>fd key. Some key" "[5]" "[5]" "[6]" "[6]"]
  by (auto simp: empty_tables_def MAX_NR_MAPS_def)

text \<open>Rounding up to whole pages.\<close>

lemma roundup_page_bounds:
  assumes "0 < unat ps" and "unat sz + unat ps \<le> 2 ^ 64"
  shows "unat sz \<le> unat (roundup_page ps sz)" and "unat (roundup_page ps sz) < unat sz + unat ps"
    and "unat ps dvd unat (roundup_page ps sz)"
proof -
  have nz: "ps \<noteq> 0" using assms(1) by auto
  have a: "unat (sz + ps - 1) = unat sz + unat ps - 1"
  proof -
    obtain q where q: "q = ps - 1" by simp
    have uq: "unat q = unat ps - 1" unfolding q by (rule unat_minus_one [OF nz])
    have "unat sz + unat q < 2 ^ 64" using assms uq by linarith
    then have sum: "unat (sz + q) = unat sz + unat q" by (simp add: unat_word_ariths)
    have "sz + ps - 1 = sz + q" by (simp add: q)
    then show ?thesis using sum uq assms(1) by (simp only:)
  qed
  let ?q = "(unat sz + unat ps - 1) div unat ps"
  have q: "?q * unat ps \<le> unat sz + unat ps - 1" by simp
  then have lt: "?q * unat ps < 2 ^ 64" using assms by linarith
  have "unat (roundup_page ps sz) = (?q * unat ps) mod 2 ^ 64"
    by (simp add: roundup_page_def unat_word_ariths a unat_div_distrib mod_mult_left_eq)
  then have r: "unat (roundup_page ps sz) = ?q * unat ps" using lt by simp
  have "unat sz + unat ps - 1 < ?q * unat ps + unat ps"
    using assms(1) by (metis add.commute dividend_less_times_div mult.commute)
  then show "unat sz \<le> unat (roundup_page ps sz)" unfolding r using assms(1) by linarith
  show "unat (roundup_page ps sz) < unat sz + unat ps" unfolding r using q assms(1) by linarith
  show "unat ps dvd unat (roundup_page ps sz)" unfolding r by simp
qed

text \<open>In a memory mapped slot the value of every key below the number of entries lies inside the
  mapped area, but the key is not compared with that number: for a key behind the last page the
  lookup returns a pointer outside the area, where the lookup through the kernel would have
  failed.\<close>

theorem mapped_lookup_bounds:
  assumes "tables_wf t" and "i < MAX_NR_MAPS" and "malloc_buf env (ucast (mi_value_size info)) \<noteq> None"
    and "mi_flags info AND BPF_F_MMAPABLE \<noteq> 0"
    and "mmap_ok env fd (roundup_page (page_size env) (ucast (mi_value_size info) * ucast (mi_max_entries info)))"
    and "0 < unat (page_size env)"
    and "unat (mi_value_size info) * unat (mi_max_entries info) + unat (page_size env) \<le> 2 ^ 64"
    and "key_u32 key = Inr k"
  shows "\<exists>t' area off. set_slot env i name fd info t = (True, t') \<and> mmap_area t' ! i = Some area \<and>
    ubpf_map_lookup_elem_kern_fast bpf t' (int i) key = Inr (MmapElem i off, t') \<and>
    unat off = unat (mi_value_size info) * unat k \<and>
    (unat k < unat (mi_max_entries info) \<longrightarrow> unat off + unat (mi_value_size info) \<le> unat area) \<and>
    (unat (mi_value_size info) * unat (mi_max_entries info) + unat (page_size env) \<le> unat (mi_value_size info) * unat k \<longrightarrow>
       unat area < unat off)"
proof -
  let ?vs = "unat (mi_value_size info)" and ?me = "unat (mi_max_entries info)"
  obtain sz where sz: "sz = (ucast (mi_value_size info) * ucast (mi_max_entries info) :: u64)" by simp
  obtain area where area: "area = roundup_page (page_size env) sz" by simp
  have prod: "unat (ucast a * ucast b :: u64) = unat a * unat b" for a b :: u32
  proof -
    have "unat a * unat b < 2 ^ 32 * 2 ^ 32"
      using unat_u32_bound by (intro mult_strict_mono) simp_all
    moreover have "unat (ucast x :: u64) = unat x" for x :: u32
      using unat_u32_bound [of x] by (simp add: unsigned_ucast_eq take_bit_nat_eq_self)
    ultimately show ?thesis by (simp add: unat_word_ariths)
  qed
  have u: "unat sz = ?vs * ?me" unfolding sz by (rule prod)
  have le: "unat sz + unat (page_size env) \<le> 2 ^ 64" using assms(7) by (simp only: u)
  note r = roundup_page_bounds [OF assms(6) le, folded area]
  obtain t' where t': "set_slot env i name fd info t = (True, t')" "mmap_area t' ! i = Some area"
    "map_value_size t' ! i = ucast (mi_value_size info)" "length (mmap_area t') = MAX_NR_MAPS"
    using assms(1-5) by (auto simp: set_slot_def Let_def tables_wf_def area sz)
  let ?off = "ucast (mi_value_size info) * ucast k :: u64"
  have look: "ubpf_map_lookup_elem_kern_fast bpf t' (int i) key = Inr (MmapElem i ?off, t')"
    using t' assms(2,8) by (simp add: ubpf_map_lookup_elem_kern_fast_def)
  have off: "unat ?off = ?vs * unat k" by (rule prod)
  have "?vs * unat k + ?vs \<le> unat area" if "unat k < ?me"
  proof -
    have "?vs * (unat k + 1) \<le> ?vs * ?me" using that by (intro mult_le_mono2) simp
    then show ?thesis using r(1) u by (simp only: mult_Suc_right distrib_left mult_1_right)
  qed
  moreover have "unat area < ?vs * unat k" if "?vs * ?me + unat (page_size env) \<le> ?vs * unat k"
    using r(2) u that by linarith
  ultimately show ?thesis using t'(1,2) look off by (intro exI [of _ t'] exI [of _ area] exI [of _ ?off]) simp
qed

theorem mapped_lookup_bounds_witness:
  "\<exists>t' area off. mmap_area t' ! 0 = Some area \<and>
     ubpf_map_lookup_elem_kern_fast (\<lambda>_ _. None) t' 0 [0, 4, 0, 0] = Inr (MmapElem 0 off, t') \<and>
     unat off = 8192 \<and> unat area < unat off"
proof -
  let ?info = "(demo_info ''stats'')\<lparr>mi_flags := BPF_F_MMAPABLE\<rparr>"
  have k: "key_u32 [0, 4, 0, 0] = Inr (1024 :: u32)" by (simp add: key_u32_def)
  have i: "0 < MAX_NR_MAPS" by (simp add: MAX_NR_MAPS_def)
  have n: "unat (mi_value_size ?info) * unat (mi_max_entries ?info) = 32" "unat (page_size (demo_env [])) = 4096"
    "mi_flags ?info AND BPF_F_MMAPABLE \<noteq> 0" by (simp_all add: demo_info_def demo_env_def BPF_F_MMAPABLE_def)
  have m: "mmap_ok (demo_env []) x y" for x y by (simp add: demo_env_def)
  show ?thesis
    using mapped_lookup_bounds [where fd = 0 and bpf = "\<lambda>_ _. None" and name = "''stats''", OF empty_tables_wf i malloc_always n(3) m _ _ k] n
    by auto
qed

lemma scan_maps_full:
  assumes "fd \<noteq> 0" and "malloc_buf env (ucast (mi_value_size info)) \<noteq> None"
  shows "used_prefix n t \<Longrightarrow> m \<le> n \<Longrightarrow> MAX_NR_MAPS < n + k \<Longrightarrow>
    scan_maps env [(mi_name info, -1)] (replicate k (fd, Some info)) old m t = Inl OutOfBounds"
proof (induction k arbitrary: n m t old)
  case 0
  then show ?case by (simp add: used_prefix_def)
next
  case (Suc k)
  note nxt = register_next [OF Suc.prems(1,2) assms(1), of env info "mi_name info"]
  show ?case
  proof (cases "n < MAX_NR_MAPS")
    case True
    then obtain t' where "register_map env fd info (mi_name info, -1) m t = Inr (True, n, t')" "used_prefix (Suc n) t'"
      using nxt assms(2) by auto
    then show ?thesis using Suc.IH [of "Suc n" t' n] Suc.prems(3) by simp
  qed (use nxt in simp)
qed

text \<open>The search for a free slot has no bound: a kernel with seventeen maps of a requested name, one
  more than there are slots, makes the set up read behind the descriptor array.\<close>

theorem setup_overflow:
  assumes "kernel_maps env = replicate 17 (fd, Some info)" and "fd \<noteq> 0"
    and "malloc_buf env (ucast (mi_value_size info)) \<noteq> None" and "CHR '':'' \<notin> set (mi_name info)"
  shows "setup_map_system env [mi_name info] empty_tables = Inl OutOfBounds"
proof -
  have "MAX_NR_MAPS < 0 + 17" by (simp add: MAX_NR_MAPS_def)
  from scan_maps_full [OF assms(2,3) used_prefix_empty le0 this]
  show ?thesis using assms(1,4) by (simp add: setup_map_system_def plain_request MAX_NR_MAPS_def)
qed

theorem setup_overflow_witness:
  "setup_map_system (demo_env (replicate 17 (7, Some (demo_info ''m'')))) [''m''] empty_tables = Inl OutOfBounds"
  using setup_overflow [of "demo_env (replicate 17 (7, Some (demo_info ''m'')))" 7 "demo_info ''m''"] by simp

end
