(* ===== verification/Sockets.thy ===== *)
theory Sockets
  imports DataPath KernMap
begin
text \<open>
  The AF_XDP socket (\<open>src/sockets.c\<close>, \<open>src/sockets.h\<close>): loading the kernel's packet program,
  setting up the packet memory, the fill ring and the socket, tearing it down, and entering it into
  the kernel map that redirects to it. The results of the library and system calls are parameters.
\<close>

section \<open>The program in the kernel\<close>

definition XDP_FLAGS_UPDATE_IF_NOEXIST :: int where "XDP_FLAGS_UPDATE_IF_NOEXIST = 1"
definition XDP_USE_NEED_WAKEUP :: int where "XDP_USE_NEED_WAKEUP = 8"
definition XSK_LIBBPF_FLAGS_INHIBIT_PROG_LOAD :: int where "XSK_LIBBPF_FLAGS_INHIBIT_PROG_LOAD = 1"

text \<open>
  The answers of \<open>bpf_get_link_xdp_id\<close> (result and program number), \<open>bpf_prog_load_xattr\<close> (result
  and descriptor) and \<open>bpf_set_link_xdp_fd\<close>.
\<close>

record xdp_env =
  link_xdp_id :: "int \<times> u32"
  prog_load :: "int \<times> int"
  set_link_xdp_fd :: "int \<Rightarrow> int \<Rightarrow> int"

definition xdp_flags :: "config \<Rightarrow> int" where
  "xdp_flags cf = XDP_FLAGS_UPDATE_IF_NOEXIST OR xdp_mode cf"

definition load_xdp_program :: "config \<Rightarrow> xdp_env \<Rightarrow> int" where
  "load_xdp_program cf env =
     (let (ret, prog_id) = link_xdp_id env; (load, prog_fd) = prog_load env in
      if \<not> ret < 0 \<and> prog_id > 0 then 1
      else if load \<noteq> 0 then 1
      else if prog_fd < 0 then 1
      else if set_link_xdp_fd env prog_fd (xdp_flags cf) < 0 then 1
      else 0)"

section \<open>The socket\<close>

text \<open>\<open>struct xsk_umem_config\<close> and \<open>struct xsk_socket_config\<close>.\<close>

record umem_config =
  fill_size :: u32
  comp_size :: u32
  uc_frame_size :: u32
  frame_headroom :: u32
  uc_flags :: u32

record socket_config =
  sc_rx_size :: u32
  sc_tx_size :: u32
  libbpf_flags :: int
  sc_xdp_flags :: int
  bind_flags :: int

text \<open>
  Whether \<open>mmap\<close> of the huge pages and the two allocations succeed, creating the memory and the
  socket with their effect on the rings' state, and \<open>setsockopt\<close> for an option and its value.
\<close>

record 'w sock_env =
  mmap_huge :: "u64 \<Rightarrow> bool"
  calloc_umem :: bool
  calloc_xsk :: bool
  umem_create :: "u64 \<Rightarrow> umem_config \<Rightarrow> 'w \<Rightarrow> int \<times> 'w"
  socket_create :: "string \<Rightarrow> u32 \<Rightarrow> socket_config \<Rightarrow> 'w \<Rightarrow> int \<times> 'w"
  set_sockopt :: "int \<Rightarrow> int \<Rightarrow> int"

definition SO_PREFER_BUSY_POLL :: int where "SO_PREFER_BUSY_POLL = 69"
definition SO_BUSY_POLL :: int where "SO_BUSY_POLL = 46"
definition SO_BUSY_POLL_BUDGET :: int where "SO_BUSY_POLL_BUDGET = 70"

text \<open>The product is computed in 32 bits and then widened.\<close>

definition umem_size :: "config \<Rightarrow> u64" where
  "umem_size cf = ucast (num_frames cf * frame_size cf)"

definition umem_cfg :: "config \<Rightarrow> umem_config" where
  "umem_cfg cf = \<lparr>fill_size = rx_size cf * 2, comp_size = tx_size cf * 2, uc_frame_size = frame_size cf,
     frame_headroom = headroom cf, uc_flags = 0\<rparr>"

definition socket_cfg :: "config \<Rightarrow> socket_config" where
  "socket_cfg cf = \<lparr>sc_rx_size = rx_size cf, sc_tx_size = tx_size cf,
     libbpf_flags = (if custom_kern_prog cf \<noteq> 0 then XSK_LIBBPF_FLAGS_INHIBIT_PROG_LOAD else 0),
     sc_xdp_flags = xdp_flags cf, bind_flags = copy_mode cf OR XDP_USE_NEED_WAKEUP\<rparr>"

text \<open>The entries written to the fill ring, one after the other.\<close>

definition fill_entries :: "config \<Rightarrow> xdp_desc list" where
  "fill_entries cf = map (\<lambda>i. \<lparr>d_addr = ucast (of_nat i * frame_size cf), d_len = 0\<rparr>) [0..<unat (rx_size cf * 2)]"

definition apply_options :: "config \<Rightarrow> 'w sock_env \<Rightarrow> bool" where
  "apply_options cf env \<longleftrightarrow> busy_poll cf = 0 \<or>
     (\<not> set_sockopt env SO_PREFER_BUSY_POLL 1 < 0 \<and>
      \<not> set_sockopt env SO_BUSY_POLL (sint (busy_poll_duration cf)) < 0 \<and>
      \<not> set_sockopt env SO_BUSY_POLL_BUDGET (sint (batch_size cf)) < 0)"

text \<open>The result tells whether a socket is returned or a null pointer.\<close>

definition setup_socket ::
  "config \<Rightarrow> 'w sock_env \<Rightarrow> 'w xsk_api \<Rightarrow> string \<Rightarrow> u32 \<Rightarrow> 'w \<Rightarrow> (bool \<times> 'w) c_result" where
  "setup_socket cf env api if_name queue w =
     (if \<not> mmap_huge env (umem_size cf) then Inr (False, w)
      else c_check (calloc_umem env) (Exit 1) (
      let (ret, w) = umem_create env (umem_size cf) (umem_cfg cf) w in
      c_check (ret = 0) (Exit 1) (
      let (ret, idx, w) = prod_reserve api FillRing (rx_size cf * 2) w in
      c_check (word_of_int ret = rx_size cf * 2) (Exit 1) (
      let w = place_entries api FillRing idx (fill_entries cf) w;
          w = prod_submit api FillRing (rx_size cf * 2) w in
      c_check (calloc_xsk env) (Exit 1) (
      let (ret, w) = socket_create env if_name queue (socket_cfg cf) w in
      c_check (ret = 0) (Exit 1) (Inr (apply_options cf env, w)))))))"

text \<open>What is given back, in order; the pointer to the socket is read first.\<close>

datatype sock_event = SocketDelete | UmemDelete | MunmapUmem u64 | FreeUmem | FreeXsk

definition tear_down_socket :: "config \<Rightarrow> bool \<Rightarrow> sock_event list c_result" where
  "tear_down_socket cf xsk =
     c_check xsk NullDeref (Inr [SocketDelete, UmemDelete, MunmapUmem (umem_size cf), FreeUmem, FreeXsk])"

section \<open>Entering the socket into the kernel map\<close>

definition MAX_QID :: int where "MAX_QID = 63"

text \<open>The four bytes of an \<open>int\<close> in memory.\<close>

definition int_bytes :: "int \<Rightarrow> u8 list" where
  "int_bytes n = (let w = word_of_int n :: u32 in
     [ucast w, ucast (drop_bit 8 w), ucast (drop_bit 16 w), ucast (drop_bit 24 w)])"

definition enter_xsks_into_map ::
  "(int \<Rightarrow> u8 list \<Rightarrow> u8 list \<Rightarrow> int \<Rightarrow> 'k \<Rightarrow> int \<times> 'k) \<Rightarrow> map_tables \<Rightarrow> int \<Rightarrow> int \<Rightarrow> 'k \<Rightarrow> int \<times> 'k" where
  "enter_xsks_into_map bpf_update t xsk_fd queue k =
     (if queue < 0 \<or> queue > MAX_QID then (1, k)
      else ubpf_map_update_elem_kern bpf_update t ''xsks_map'' (int_bytes queue) (int_bytes xsk_fd) 0 k)"

section \<open>The memory and the fill ring\<close>

lemma fill_entries_length [simp]: "length (fill_entries cf) = unat (rx_size cf * 2)"
  by (simp add: fill_entries_def)

text \<open>Creating the memory and the socket does not touch the process's side of the rings.\<close>

definition env_keeps :: "'w sock_env \<Rightarrow> ('w \<Rightarrow> xsk_view) \<Rightarrow> bool" where
  "env_keeps env view \<longleftrightarrow>
     (\<forall>n c w r w'. umem_create env n c w = (r, w') \<longrightarrow> view w' = view w) \<and>
     (\<forall>i q c w r w'. socket_create env i q c w = (r, w') \<longrightarrow> view w' = view w)"

lemma setup_socket_view:
  assumes laws: "xsk_laws api view" and env: "env_keeps env view" and start: "view w = empty_view"
    and run: "setup_socket cf env api if_name queue w = Inr (True, w')"
  shows "view w' = give FillRing (fill_entries cf) empty_view"
proof -
  let ?n = "rx_size cf * 2"
  obtain r1 w1 where c1: "umem_create env (umem_size cf) (umem_cfg cf) w = (r1, w1)" by (metis surj_pair)
  obtain r2 idx w2 where c2: "prod_reserve api FillRing ?n w1 = (r2, idx, w2)" by (metis prod_cases3)
  obtain w3 where w3: "w3 = prod_submit api FillRing ?n (place_entries api FillRing idx (fill_entries cf) w2)" by simp
  obtain r4 w4 where c4: "socket_create env if_name queue (socket_cfg cf) w3 = (r4, w4)" by (metis surj_pair)
  have v1: "view w1 = empty_view" using env c1 start unfolding env_keeps_def by metis
  have v4: "view w4 = view w3" using env c4 unfolding env_keeps_def by blast
  have r2: "word_of_int r2 = ?n" and w': "w' = w4"
    using run c1 c2 c4 by (auto simp: setup_socket_def c_check_def Let_def w3 split: if_splits)
  have idle: "reserved (pv (view w1) FillRing) = []" by (simp add: v1)
  show ?thesis
  proof (cases "?n = 0")
    case True
    have "view w2 = empty_view \<or> (\<exists>ds. length ds = 0 \<and> view w2 = set_pv FillRing
        ((pv (view w1) FillRing)\<lparr>reserved := reserved (pv (view w1) FillRing) @ ds\<rparr>) (view w1))"
      using xsk_lawsD(1) [OF laws] c2 unfolding reserve_law_def Let_def True by (fastforce simp: v1)
    then have "view w2 = empty_view" by (auto simp: v1 set_pv_id)
    moreover have "fill_entries cf = []" by (simp add: fill_entries_def True)
    moreover have "view w3 = set_pv FillRing ((pv (view w2) FillRing)\<lparr>submitted := submitted (pv (view w2) FillRing) @ take 0 [],
        reserved := drop (unat 0) (reserved (pv (view w2) FillRing)), first_reserved := first_reserved (pv (view w2) FillRing) + 0\<rparr>) (view w2)"
      using xsk_lawsD(3) [OF laws] calculation unfolding submit_law_def Let_def w3 True by simp
    ultimately show ?thesis by (simp add: w' v4 give_def set_pv_id)
  next
    case False
    from laws c2 False idle show ?thesis
    proof (cases rule: prod_reserve_cases)
      case 1
      then show ?thesis using r2 False by simp
    next
      case (2 ds)
      have "view w3 = give FillRing (fill_entries cf) (view w1)"
        unfolding w3 2(4) using 2(3) by (intro place_submit_view [OF laws 2(6)]) simp_all
      then show ?thesis by (simp add: w' v4 v1)
    qed
  qed
qed

lemma ucast_u64: "unat (ucast x :: u64) = unat x" for x :: u32
  using unat_u32_bound [of x] by (simp add: unsigned_ucast_eq take_bit_nat_eq_self)

lemma u32_times: "unat a * n < 2 ^ 32 \<Longrightarrow> unat (of_nat n * a) = n * unat a" for a :: u32
proof (cases "unat a = 0")
  case True
  then show "unat (of_nat n * a) = n * unat a" by (simp add: unat_eq_zero)
next
  case False
  assume h: "unat a * n < 2 ^ 32"
  moreover have "n \<le> unat a * n" using False by simp
  ultimately have "unat (of_nat n :: u32) = n" by (intro unat_of_nat_u32) linarith
  then show "unat (of_nat n * a) = n * unat a" using h by (simp add: unat_word_ariths mult.commute)
qed

section \<open>Properties\<close>

text \<open>The entries as numbers.\<close>

lemma fill_entries_nth:
  assumes "i < unat (rx_size cf * 2)"
  shows "unat (d_addr (fill_entries cf ! i)) = (i * unat (frame_size cf)) mod 2 ^ 32" "d_len (fill_entries cf ! i) = 0"
proof -
  have "unat (of_nat i :: u32) = i" using assms unat_u32_bound [of "rx_size cf * 2"] by (intro unat_of_nat_u32) simp
  then show "unat (d_addr (fill_entries cf ! i)) = (i * unat (frame_size cf)) mod 2 ^ 32"
    using assms by (simp add: fill_entries_def ucast_u64 unat_word_ariths)
  show "d_len (fill_entries cf ! i) = 0" using assms by (simp add: fill_entries_def)
qed

text \<open>C17: a set up that returns a socket has given the kernel, through the fill ring, \<open>2 * rx_size\<close>
  entries (modulo \<open>2 ^ 32\<close>): the entry number \<open>i\<close> is the frame at \<open>i * frame_size\<close>, in 32 bits, so these are
  the first frames of the memory in their order. Nothing is given for sending, nothing is reserved or
  taken, and the socket starts with the ledger of frames balanced.\<close>

theorem setup_socket_ledger:
  assumes "xsk_laws api view" and "env_keeps env view" and "view w = empty_view"
    and "setup_socket cf env api if_name queue w = Inr (True, w')"
  shows "length (submitted (pv (view w') FillRing)) = (2 * unat (rx_size cf)) mod 2 ^ 32 \<and>
    (\<forall>i < (2 * unat (rx_size cf)) mod 2 ^ 32.
       unat (d_addr (submitted (pv (view w') FillRing) ! i)) = (i * unat (frame_size cf)) mod 2 ^ 32) \<and>
    submitted (pv (view w') TxRing) = [] \<and> (\<forall>r. reserved (pv (view w') r) = []) \<and>
    (\<forall>r. taken (cv (view w') r) = [] \<and> released (cv (view w') r) = []) \<and>
    heart_inv view ((2 * unat (rx_size cf)) mod 2 ^ 32)
      \<lparr>world = w', outstanding_tx = 0, chan = ch, pkt_count = 0, sent_count = 0, rprt_ts = 0\<rparr>"
proof -
  have n: "unat (rx_size cf * 2) = (2 * unat (rx_size cf)) mod 2 ^ 32" by (simp add: unat_word_ariths mult.commute)
  have "reserved (pv (give FillRing (fill_entries cf) empty_view) r) = []" for r by (cases r) simp_all
  then show ?thesis using setup_socket_view [OF assms] fill_entries_nth(1) [where cf = cf]
    unfolding n [symmetric] by (simp add: heart_inv_def)
qed

definition demo_sock :: "demo_world sock_env" where
  "demo_sock = \<lparr>mmap_huge = (\<lambda>_. True), calloc_umem = True, calloc_xsk = True, umem_create = (\<lambda>_ _ w. (0, w)),
     socket_create = (\<lambda>_ _ _ w. (0, w)), set_sockopt = (\<lambda>_ _. 0)\<rparr>"

lemma demo_sock_keeps: "env_keeps demo_sock dview"
  by (simp add: env_keeps_def demo_sock_def)

definition demo_rings :: demo_world where
  "demo_rings = \<lparr>dview = empty_view, ready = (\<lambda>_. []), room = (\<lambda>_. True)\<rparr>"

definition small_config :: config where
  "small_config = default_config\<lparr>rx_size := 2, tx_size := 2, num_frames := 32\<rparr>"

lemma demo_setup: "\<exists>w'. setup_socket small_config demo_sock (demo_api DROP) ''eth0'' 0 demo_rings = Inr (True, w')"
proof -
  have "unat (rx_size small_config * 2) = 4" "rx_size small_config * 2 = 4" "busy_poll small_config = 0"
    by (simp_all add: small_config_def default_config_def)
  then show ?thesis
    by (simp add: setup_socket_def demo_sock_def demo_reserve_def demo_rings_def Let_def apply_options_def)
qed

theorem setup_socket_ledger_witness:
  "\<exists>w'. setup_socket small_config demo_sock (demo_api DROP) ''eth0'' 0 demo_rings = Inr (True, w') \<and>
     length (submitted (pv (dview w') FillRing)) = 4 \<and> unat (d_addr (submitted (pv (dview w') FillRing) ! 3)) = 6144"
proof -
  obtain w' where w': "setup_socket small_config demo_sock (demo_api DROP) ''eth0'' 0 demo_rings = Inr (True, w')"
    using demo_setup by blast
  have "dview demo_rings = empty_view" by (simp add: demo_rings_def)
  from setup_socket_ledger [OF demo_laws demo_sock_keeps this w'] have "length (submitted (pv (dview w') FillRing)) = 4"
    "unat (d_addr (submitted (pv (dview w') FillRing) ! 3)) = 6144"
    by (simp_all add: small_config_def default_config_def)
  then show ?thesis using w' by blast
qed

text \<open>C36: the memory that is mapped has \<open>num_frames * frame_size\<close> bytes modulo \<open>2 ^ 32\<close>. When that
  product and the number of frames do not wrap, the frames of the fill ring are distinct, start at
  multiples of the frame size and lie inside the memory. When the product wraps, the memory is too
  small for the frames; for a multiple of \<open>2 ^ 32\<close> it has no bytes at all.\<close>

theorem fill_frames_inside:
  assumes "num_frames cf = (rx_size cf + tx_size cf) * 8" and "frame_size cf \<noteq> 0"
    and "(unat (rx_size cf) + unat (tx_size cf)) * 8 < 2 ^ 32"
  shows "unat (umem_size cf) = ((unat (rx_size cf) + unat (tx_size cf)) * 8 * unat (frame_size cf)) mod 2 ^ 32 \<and>
    ((unat (rx_size cf) + unat (tx_size cf)) * 8 * unat (frame_size cf) < 2 ^ 32 \<longrightarrow>
       distinct (map d_addr (fill_entries cf)) \<and>
       (\<forall>d \<in> set (fill_entries cf). unat (frame_size cf) dvd unat (d_addr d) \<and>
          unat (d_addr d) + unat (frame_size cf) \<le> unat (umem_size cf)))"
proof -
  let ?R = "unat (rx_size cf)" and ?T = "unat (tx_size cf)" and ?F = "unat (frame_size cf)"
  have sum: "unat (rx_size cf + tx_size cf) = ?R + ?T" using assms(3) by (simp add: unat_word_ariths)
  have "unat (num_frames cf) = (?R + ?T) * 8"
    using u32_times [of "rx_size cf + tx_size cf" 8] assms(3) unfolding assms(1) sum by (simp add: mult.commute)
  then have nf: "unat (num_frames cf * frame_size cf) = ((?R + ?T) * 8 * ?F) mod 2 ^ 32"
    by (simp only: unat_word_ariths) simp
  then have size: "unat (umem_size cf) = ((?R + ?T) * 8 * ?F) mod 2 ^ 32" by (simp add: umem_size_def ucast_u64)
  have two: "unat (rx_size cf * 2) = 2 * ?R" using assms(3) by (simp add: unat_word_ariths)
  have F: "0 < ?F" using assms(2) by (simp add: unat_gt_0)
  have "distinct (map d_addr (fill_entries cf)) \<and> (\<forall>d \<in> set (fill_entries cf). ?F dvd unat (d_addr d) \<and>
      unat (d_addr d) + ?F \<le> unat (umem_size cf))" if small: "(?R + ?T) * 8 * ?F < 2 ^ 32"
  proof -
    have in': "(i + 1) * ?F \<le> (?R + ?T) * 8 * ?F" if "i < 2 * ?R" for i
    proof (rule mult_le_mono1)
      have "2 * r \<le> (r + t) * 8" for r t :: nat by simp
      then show "i + 1 \<le> (?R + ?T) * 8" using that le_trans Suc_leI by (metis Suc_eq_plus1)
    qed
    have addr: "unat (ucast (of_nat i * frame_size cf) :: u64) = i * ?F" if "i < 2 * ?R" for i
    proof -
      have "i * ?F < 2 ^ 32" using in' [OF that] small F by (simp add: distrib_right)
      then have "unat (of_nat i * frame_size cf) = i * ?F" by (intro u32_times) (simp only: mult.commute)
      then show ?thesis by (simp only: ucast_u64)
    qed
    have "distinct (map d_addr (fill_entries cf))"
    proof (simp add: fill_entries_def two distinct_map comp_def, rule inj_onI)
      fix i j
      assume "i \<in> {0..<2 * ?R}" "j \<in> {0..<2 * ?R}"
        and "ucast (of_nat i * frame_size cf) = (ucast (of_nat j * frame_size cf) :: u64)"
      then have "i * ?F = j * ?F" using addr by (metis atLeastLessThan_iff)
      then show "i = j" using F by simp
    qed
    moreover have "?F dvd unat (d_addr d) \<and> unat (d_addr d) + ?F \<le> unat (umem_size cf)" if d: "d \<in> set (fill_entries cf)" for d
    proof -
      from d obtain i where i: "i < 2 * ?R" "d_addr d = ucast (of_nat i * frame_size cf)"
        by (auto simp: fill_entries_def two)
      then show ?thesis using addr in' [OF i(1)] size small by (simp add: distrib_right)
    qed
    ultimately show ?thesis by blast
  qed
  then show ?thesis using size by blast
qed

theorem fill_frames_inside_witness:
  "distinct (map d_addr (fill_entries (default_config\<lparr>num_frames := 8192\<rparr>))) \<and>
   umem_size (default_config\<lparr>rx_size := 131072, tx_size := 131072, num_frames := 2097152\<rparr>) = 0"
proof -
  have "unat (umem_size (default_config\<lparr>rx_size := 131072, tx_size := 131072, num_frames := 2097152\<rparr>)) = 0"
    using fill_frames_inside [of "default_config\<lparr>rx_size := 131072, tx_size := 131072, num_frames := 2097152\<rparr>"]
    by (simp add: default_config_def)
  then show ?thesis using fill_frames_inside [of "default_config\<lparr>num_frames := 8192\<rparr>"]
    by (simp add: default_config_def unat_eq_zero)
qed

lemma bytes_key: "key_u32 (int_bytes n) = Inr (word_of_int n)"
proof -
  have "(ucast (ucast w :: u8) OR push_bit 8 (ucast (ucast (drop_bit 8 w) :: u8)) OR
      push_bit 16 (ucast (ucast (drop_bit 16 w) :: u8)) OR push_bit 24 (ucast (ucast (drop_bit 24 w) :: u8))) = w" for w :: u32
  proof (rule bit_word_eqI)
    fix n assume n: "n < LENGTH(32)"
    have "n < 8 \<or> 8 \<le> n \<and> n < 16 \<or> 16 \<le> n \<and> n < 24 \<or> 24 \<le> n" by linarith
    then show "bit (ucast (ucast w :: u8) OR push_bit 8 (ucast (ucast (drop_bit 8 w) :: u8)) OR
      push_bit 16 (ucast (ucast (drop_bit 16 w) :: u8)) OR push_bit 24 (ucast (ucast (drop_bit 24 w) :: u8)) :: u32) n \<longleftrightarrow> bit w n"
      using n by (elim disjE) (auto simp: bit_simps)
  qed
  then show ?thesis by (simp add: key_u32_def int_bytes_def Let_def)
qed

text \<open>A queue number from 0 to 63 enters the socket's descriptor under that key into the kernel map
  \<open>xsks_map\<close>, if the map was set up; the key reads back as the queue number. Any other number, and a
  missing map, is answered by 1 and changes nothing.\<close>

theorem enter_xsks_spec:
  "enter_xsks_into_map upd t xsk_fd queue k =
     (if 0 \<le> queue \<and> queue < 64 \<and> get_map_fd t ''xsks_map'' \<noteq> 0
      then upd (get_map_fd t ''xsks_map'') (int_bytes queue) (int_bytes xsk_fd) 0 k else (1, k)) \<and>
   key_u32 (int_bytes queue) = Inr (word_of_int queue)"
  by (auto simp: enter_xsks_into_map_def ubpf_map_update_elem_kern_def MAX_QID_def Let_def bytes_key)

end
