(* ===== verification/Brain.thy ===== *)
theory Brain
  imports Servant_Prelude
begin
text \<open>
  Loading the packet program (\<open>src/brain.c\<close>, \<open>src/brain.h\<close>) and the numbers of the functions the
  programs call (\<open>src/include/servant_engine.h\<close>). The file system and the virtual machine are
  parameters; of \<open>fread\<close> the standard's behaviour is modelled: it reads all that is asked for
  unless the file ends or an error occurs.
\<close>

section \<open>Reading the program\<close>

definition MAX_CODE_SIZE :: nat where "MAX_CODE_SIZE = 1024 * 1024"

text \<open>An open file: its content, the position of a read error if there is one, and the flags.\<close>

record c_file =
  content :: "u8 list"
  error_at :: "nat option"
  pos :: nat
  eof_flag :: bool
  err_flag :: bool

definition readable_end :: "c_file \<Rightarrow> nat" where
  "readable_end f = (case error_at f of None \<Rightarrow> length (content f) | Some e \<Rightarrow> min e (length (content f)))"

text \<open>\<open>fread(p, 1, n, file)\<close>: the bytes read; a short read sets one of the flags.\<close>

definition fread :: "nat \<Rightarrow> c_file \<Rightarrow> u8 list \<times> c_file" where
  "fread n f =
     (let k = min n (readable_end f - pos f);
          failed = (error_at f \<noteq> None \<and> readable_end f < length (content f)) in
      (take k (drop (pos f) (content f)),
       f\<lparr>pos := pos f + k, eof_flag := eof_flag f \<or> (k < n \<and> \<not> failed), err_flag := err_flag f \<or> (k < n \<and> failed)\<rparr>))"

text \<open>The count of \<open>fread\<close>, a \<open>size_t\<close>, in the variable \<open>int rv\<close>.\<close>

definition rv_of :: "nat \<Rightarrow> int" where
  "rv_of n = sint (of_nat n :: u32)"

lemma rv_of_small: "n < 2 ^ 31 \<Longrightarrow> rv_of n = int n"
  using sint_u32_small [of "of_nat n"] unat_of_nat_u32 [of n] by (simp add: rv_of_def)

lemma rv_of_0 [simp]: "rv_of 0 = 0"
  by (simp add: rv_of_def)

lemma rv_of_le: "rv_of n \<le> int n"
proof (cases "n < 2 ^ 31")
  case False
  then have "(2 :: int) ^ 31 \<le> int n" by simp
  then show ?thesis using sint_lt [of "of_nat n :: u32"] by (simp add: rv_of_def)
qed (simp add: rv_of_small)

text \<open>The read loop of \<open>readfile\<close>; \<open>data\<close> is the buffer, \<open>offset\<close> the number of bytes in it.\<close>

function read_loop :: "nat \<Rightarrow> u8 list \<Rightarrow> nat \<Rightarrow> c_file \<Rightarrow> u8 list \<times> nat \<times> c_file" where
  "read_loop maxlen data offset f =
     (let (bytes, f') = fread (maxlen - offset) f in
      if 0 < rv_of (length bytes)
      then read_loop maxlen (take offset data @ bytes @ drop (offset + length bytes) data)
        (offset + nat (rv_of (length bytes))) f'
      else (take offset data @ bytes @ drop (offset + length bytes) data, offset, f'))"
  by auto
termination
proof (relation "measure (\<lambda>(maxlen, data, offset, f). maxlen - offset)")
  fix maxlen offset :: nat and data :: "u8 list" and f x bytes f'
  assume "x = fread (maxlen - offset) f" and "(bytes, f') = x" and "0 < rv_of (length bytes)"
  moreover from this(1,2) have "length bytes \<le> maxlen - offset" by (auto simp: fread_def Let_def)
  ultimately have "maxlen - (offset + nat (rv_of (length bytes))) < maxlen - offset"
    using rv_of_le [of "length bytes"] by linarith
  then show "((maxlen, take offset data @ bytes @ drop (offset + length bytes) data, offset + nat (rv_of (length bytes)), f'),
      (maxlen, data, offset, f)) \<in> measure (\<lambda>(maxlen, data, offset, f). maxlen - offset)" by simp
qed simp

declare read_loop.simps [simp del]

text \<open>\<open>readfile\<close>: the buffer of \<open>maxlen\<close> bytes and the number of bytes read, or a null pointer.\<close>

definition readfile :: "(string \<Rightarrow> c_file option) \<Rightarrow> string \<Rightarrow> nat \<Rightarrow> (u8 list \<times> nat) option" where
  "readfile fopen path maxlen =
     (case fopen path of None \<Rightarrow> None
      | Some f \<Rightarrow> (case read_loop maxlen (replicate maxlen 0) 0 f of (data, offset, f) \<Rightarrow>
          if err_flag f then None else if \<not> eof_flag f then None else Some (data, offset)))"

section \<open>The functions a program can call\<close>

datatype helper =
    Map_lookup_kern | Map_update_kern | Map_elem_release | Map_lookup_kern_fast | Printf | ReadTSC
  | Memmove | Map_lookup_userspace | Map_update_userspace | Time_get_ns | Unwind

definition register_engine_functions :: "(nat \<times> helper) list" where
  "register_engine_functions =
     [(1, Map_lookup_kern), (2, Map_update_kern), (3, Map_elem_release), (10, Map_lookup_kern_fast),
      (4, Printf), (5, ReadTSC), (6, Memmove), (7, Map_lookup_userspace), (8, Map_update_userspace),
      (9, Time_get_ns), (11, Unwind)]"

definition unwind_index :: nat where "unwind_index = 11"

text \<open>The calls that \<open>servant_engine.h\<close> offers to programs, with their numbers.\<close>

definition engine_calls :: "(helper \<times> nat) list" where
  "engine_calls =
     [(Map_lookup_kern, 1), (Map_lookup_kern_fast, 10), (Map_elem_release, 3), (Printf, 4), (ReadTSC, 5),
      (Memmove, 6), (Map_lookup_userspace, 7), (Map_update_userspace, 8), (Time_get_ns, 9)]"

definition ubpf_time_get_ns :: "u64 \<Rightarrow> u64 \<Rightarrow> u64" where
  "ubpf_time_get_ns tv_sec tv_nsec = tv_sec * 1000000000 + tv_nsec"

definition unwind :: "u64 \<Rightarrow> u64" where "unwind i = i"

section \<open>Setting up the engine\<close>

definition ELFMAG :: "u8 list" where "ELFMAG = [0x7f, 0x45, 0x4c, 0x46]"
definition SELFMAG :: nat where "SELFMAG = 4"

text \<open>
  The virtual machine: creating one, registering a function, naming the unwind function, switching
  the bounds check, and loading an ELF file or raw code, with the result of the call.
\<close>

record 'vm vm_env =
  vm_create :: "'vm option"
  vm_register :: "nat \<Rightarrow> helper \<Rightarrow> 'vm \<Rightarrow> 'vm"
  vm_set_unwind :: "nat \<Rightarrow> 'vm \<Rightarrow> 'vm"
  vm_bounds_check :: "bool \<Rightarrow> 'vm \<Rightarrow> 'vm"
  vm_load_elf :: "u8 list \<Rightarrow> 'vm \<Rightarrow> int \<times> 'vm"
  vm_load :: "u8 list \<Rightarrow> 'vm \<Rightarrow> int \<times> 'vm"

definition is_elf :: "u8 list \<Rightarrow> nat \<Rightarrow> bool" where
  "is_elf code code_len \<longleftrightarrow> code_len \<ge> SELFMAG \<and> take SELFMAG code = ELFMAG"

text \<open>The result is 0 with the machine, or 1.\<close>

definition setup_ubpf_engine :: "(string \<Rightarrow> c_file option) \<Rightarrow> 'vm vm_env \<Rightarrow> string \<Rightarrow> int \<times> 'vm option" where
  "setup_ubpf_engine fopen env path =
     (case readfile fopen path MAX_CODE_SIZE of None \<Rightarrow> (1, None)
      | Some (code, code_len) \<Rightarrow>
          (case vm_create env of None \<Rightarrow> (1, None)
           | Some vm \<Rightarrow>
               let vm = fold (\<lambda>(i, h). vm_register env i h) register_engine_functions vm;
                   vm = vm_bounds_check env False (vm_set_unwind env unwind_index vm);
                   (ret, vm) = (if is_elf code code_len then vm_load_elf env (take code_len code) vm
                                else vm_load env (take code_len code) vm) in
               if ret < 0 then (1, None) else (0, Some vm)))"

section \<open>What is read\<close>

text \<open>A file that has been read up to \<open>offset\<close>.\<close>

definition read_upto :: "nat \<Rightarrow> c_file \<Rightarrow> bool" where
  "read_upto n f \<longleftrightarrow> pos f = n \<and> n \<le> length (content f) \<and> error_at f = None \<and> \<not> err_flag f \<and> \<not> eof_flag f"

lemma fread_all:
  assumes "read_upto n f"
  shows "fst (fread k f) = take k (drop n (content f))"
    and "n + k \<le> length (content f) \<Longrightarrow> read_upto (n + k) (snd (fread k f)) \<and> content (snd (fread k f)) = content f"
    and "length (content f) < n + k \<Longrightarrow> eof_flag (snd (fread k f)) \<and> \<not> err_flag (snd (fread k f)) \<and>
      pos (snd (fread k f)) = length (content f) \<and> content (snd (fread k f)) = content f \<and> error_at (snd (fread k f)) = None"
  using assms by (auto simp: fread_def read_upto_def readable_end_def Let_def min_def)

text \<open>From the start the loop makes at most two reads.\<close>

lemma read_loop_done:
  assumes "fst (fread (maxlen - offset) f) = []"
  shows "read_loop maxlen data offset f = (data, offset, snd (fread (maxlen - offset) f))"
  using assms by (subst read_loop.simps) (simp add: case_prod_unfold Let_def)

lemma read_loop_start:
  assumes "read_upto 0 f" and "length data = maxlen" and "maxlen < 2 ^ 31"
  shows "if length (content f) < maxlen
    then \<exists>f'. read_loop maxlen data 0 f = (content f @ drop (length (content f)) data, length (content f), f') \<and>
      eof_flag f' \<and> \<not> err_flag f'
    else \<exists>f'. read_loop maxlen data 0 f = (take maxlen (content f), maxlen, f') \<and> \<not> eof_flag f' \<and> \<not> err_flag f'"
proof -
  let ?len = "length (content f)"
  obtain g where g: "g = snd (fread maxlen f)" by simp
  have r: "fread maxlen f = (take maxlen (content f), g)"
    using fread_all(1) [OF assms(1)] unfolding g by (metis drop0 prod.collapse)
  have r1: "fst (fread maxlen f) = take maxlen (content f)" using fread_all(1) [OF assms(1)] by simp
  show ?thesis
  proof (cases "?len < maxlen")
    case True
    note e = fread_all(3) [OF assms(1), of maxlen, folded g]
    have f1: "eof_flag g" "\<not> err_flag g" "pos g = ?len" "content g = content f" "error_at g = None"
      using e True by simp_all
    let ?f2 = "snd (fread (maxlen - ?len) g)"
    have nil: "fst (fread (maxlen - ?len) g) = []" using f1 by (simp add: fread_def Let_def)
    have f2: "eof_flag ?f2" "\<not> err_flag ?f2" using f1 by (simp_all add: fread_def Let_def)
    show ?thesis
    proof (cases "content f = []")
      case c: True
      have "read_loop maxlen data 0 f = (data, 0, g)" using read_loop_done [of maxlen 0 f data] r1 c by (simp add: r)
      then show ?thesis using True c f1 by simp
    next
      case False
      then have "read_loop maxlen data 0 f = read_loop maxlen (content f @ drop ?len data) ?len g"
        using True assms(3) rv_of_small [of ?len] by (subst read_loop.simps) (simp add: Let_def r)
      also have "\<dots> = (content f @ drop ?len data, ?len, ?f2)" using read_loop_done [OF nil] .
      finally show ?thesis using True f2 by simp
    qed
  next
    case False
    then have f1: "read_upto maxlen g" using fread_all(2) [OF assms(1), of maxlen, folded g] by simp
    have nil: "fst (fread (maxlen - maxlen) g) = []" by (simp add: fread_def Let_def)
    have f2: "\<not> eof_flag (snd (fread 0 g))" "\<not> err_flag (snd (fread 0 g))"
      using f1 by (auto simp: fread_def Let_def read_upto_def)
    show ?thesis
    proof (cases "maxlen = 0")
      case True
      have "read_loop 0 data 0 f = (data, 0, g)" using read_loop_done [of 0 0 f data] r1 True r by simp
      then show ?thesis using True assms(2) f1 False by (simp add: read_upto_def)
    next
      case nz: False
      have "read_loop maxlen data 0 f = read_loop maxlen (take maxlen (content f)) maxlen g"
        using False nz assms(2,3) rv_of_small [of maxlen] by (subst read_loop.simps) (auto simp: Let_def r min_def)
      also have "\<dots> = (take maxlen (content f), maxlen, snd (fread (maxlen - maxlen) g))"
        using read_loop_done [OF nil] .
      finally show ?thesis using False f2 by simp
    qed
  qed
qed

text \<open>A file just opened, without errors.\<close>

definition plain_file :: "u8 list \<Rightarrow> c_file" where
  "plain_file bytes = \<lparr>content = bytes, error_at = None, pos = 0, eof_flag = False, err_flag = False\<rparr>"

lemma readfile_plain:
  assumes "fopen path = Some (plain_file bytes)" and "maxlen < 2 ^ 31"
  shows "readfile fopen path maxlen =
    (if length bytes < maxlen then Some (bytes @ replicate (maxlen - length bytes) 0, length bytes) else None)"
proof -
  have "read_upto 0 (plain_file bytes)" by (simp add: read_upto_def plain_file_def)
  from read_loop_start [OF this, of "replicate maxlen 0" maxlen] assms(2) show ?thesis
    using assms by (auto simp: readfile_def plain_file_def split: if_splits)
qed

text \<open>A read error is never overlooked: the flag stays set.\<close>

lemma read_loop_err: "err_flag f \<Longrightarrow> err_flag (snd (snd (read_loop maxlen data offset f)))"
proof (induction maxlen data offset f rule: read_loop.induct)
  case (1 maxlen data offset f)
  obtain bytes f' where r: "fread (maxlen - offset) f = (bytes, f')" by (metis surj_pair)
  have "err_flag f'" using r "1.prems" by (auto simp: fread_def Let_def)
  then show ?case using "1.IH" [OF r [symmetric] refl] by (subst read_loop.simps) (simp add: r Let_def)
qed

lemma readfile_error:
  assumes "fopen path = Some ((plain_file bytes)\<lparr>error_at := Some e\<rparr>)" and "e < length bytes" and "e < maxlen"
  shows "readfile fopen path maxlen = None"
proof -
  let ?f = "(plain_file bytes)\<lparr>error_at := Some e\<rparr>"
  obtain xs f' where r: "fread maxlen ?f = (xs, f')" by (metis surj_pair)
  have "err_flag f'" using r assms(2,3) by (auto simp: fread_def Let_def readable_end_def plain_file_def)
  then have "err_flag (snd (snd (read_loop maxlen (replicate maxlen 0) 0 ?f)))"
    using read_loop_err by (subst read_loop.simps) (auto simp: r Let_def)
  then show ?thesis using assms(1) by (simp add: readfile_def case_prod_unfold)
qed

section \<open>Properties\<close>

text \<open>C34: the loop that reads a program ends for every file. A file without read errors is read whole, with
  the rest of the buffer zero, exactly when it is shorter than the limit; a file of exactly the
  maximal size, which the message calls allowed, is refused, because the end of the file is not
  noticed. A read error before the limit is reported. The limit fits the \<open>int\<close> in which the loop
  keeps the count of a read; the program calls it with 1 MB.\<close>

theorem readfile_whole:
  assumes "f = plain_file bytes \<or> f = (plain_file bytes)\<lparr>error_at := Some e\<rparr> \<and> e < length bytes \<and> e < maxlen"
    and "fopen path = Some f" and "maxlen < 2 ^ 31"
  shows "readfile fopen path maxlen =
    (if error_at f = None \<and> length bytes < maxlen
     then Some (bytes @ replicate (maxlen - length bytes) 0, length bytes) else None)"
proof (cases "error_at f")
  case None
  then have "f = plain_file bytes" using assms(1) by auto
  then show ?thesis using readfile_plain assms(2,3) None by simp
next
  case (Some x)
  then have "f = (plain_file bytes)\<lparr>error_at := Some e\<rparr>" "e < length bytes" "e < maxlen"
    using assms(1) by (auto simp: plain_file_def)
  then show ?thesis using readfile_error assms(2) Some by simp
qed

theorem readfile_whole_witness:
  "readfile (\<lambda>_. Some (plain_file [1, 2])) ''p'' 3 = Some ([1, 2, 0], 2) \<and>
   readfile (\<lambda>_. Some (plain_file [1, 2])) ''p'' 2 = None"
  using readfile_whole [of "plain_file [1, 2]" "[1, 2]" 0 3 "\<lambda>_. Some (plain_file [1, 2])" "''p''"]
    readfile_whole [of "plain_file [1, 2]" "[1, 2]" 0 2 "\<lambda>_. Some (plain_file [1, 2])" "''p''"]
  by (simp add: plain_file_def)

text \<open>C35: setting up the engine succeeds exactly when the file can be read, a machine can be created and
  the code is accepted. Before the code is loaded, the machine has got the eleven functions, each
  under its number, function 11 is named as the unwind function and the bounds check is off; the
  code is the file's content, and it is taken for an ELF file exactly when it starts with the four
  bytes of the ELF magic number. Every call that the programs' header declares has its number there.\<close>

theorem setup_engine_loads:
  assumes "fopen path = Some (plain_file bytes)" and "length bytes < MAX_CODE_SIZE" and "vm_create env = Some vm"
  shows "setup_ubpf_engine fopen env path =
    (let reg = vm_register env;
         vm = reg 3 Map_elem_release (reg 2 Map_update_kern (reg 1 Map_lookup_kern vm));
         vm = reg 5 ReadTSC (reg 4 Printf (reg 10 Map_lookup_kern_fast vm));
         vm = reg 8 Map_update_userspace (reg 7 Map_lookup_userspace (reg 6 Memmove vm));
         vm = vm_set_unwind env 11 (reg 11 Unwind (reg 9 Time_get_ns vm));
         vm = vm_bounds_check env False vm;
         load = (if take 4 bytes = [0x7f, 0x45, 0x4c, 0x46] then vm_load_elf env bytes vm else vm_load env bytes vm) in
     if fst load < 0 then (1, None) else (0, Some (snd load))) \<and>
    (\<forall>h i. (h, i) \<in> set engine_calls \<longrightarrow> (i, h) \<in> set
       [(1, Map_lookup_kern), (10, Map_lookup_kern_fast), (3, Map_elem_release), (4, Printf), (5, ReadTSC), (6, Memmove),
        (7, Map_lookup_userspace), (8, Map_update_userspace), (9, Time_get_ns)])"
proof -
  let ?code = "bytes @ replicate (MAX_CODE_SIZE - length bytes) 0"
  have "is_elf ?code (length bytes) \<longleftrightarrow> take 4 bytes = [0x7f, 0x45, 0x4c, 0x46]"
  proof -
    have "4 \<le> length bytes" if "take 4 bytes = [0x7f, 0x45, 0x4c, 0x46]"
    proof -
      have "length (take 4 bytes) = 4" unfolding that by simp
      then show ?thesis by simp
    qed
    then show ?thesis by (auto simp: is_elf_def SELFMAG_def ELFMAG_def min_def split: if_splits)
  qed
  moreover have "(h, i) \<in> set engine_calls \<Longrightarrow> (i, h) \<in> set
       [(1, Map_lookup_kern), (10, Map_lookup_kern_fast), (3, Map_elem_release), (4, Printf), (5, ReadTSC), (6, Memmove),
        (7, Map_lookup_userspace), (8, Map_update_userspace), (9, Time_get_ns)]" for h i
    by (auto simp: engine_calls_def)
  ultimately show ?thesis using readfile_plain [of fopen path bytes MAX_CODE_SIZE, OF assms(1)] assms(2,3)
    by (simp add: setup_ubpf_engine_def Let_def register_engine_functions_def unwind_index_def case_prod_unfold MAX_CODE_SIZE_def)
qed

text \<open>A machine that records what happened to it.\<close>

definition demo_vm :: "(nat list \<times> u8 list) vm_env" where
  "demo_vm = \<lparr>vm_create = Some ([], []), vm_register = (\<lambda>i h (is, code). (is @ [i], code)),
     vm_set_unwind = (\<lambda>i vm. vm), vm_bounds_check = (\<lambda>b vm. vm),
     vm_load_elf = (\<lambda>code (is, _). (0, (is, code))), vm_load = (\<lambda>code (is, _). (0, (is, code)))\<rparr>"

theorem setup_engine_loads_witness:
  "setup_ubpf_engine (\<lambda>_. Some (plain_file [5, 6])) demo_vm ''p'' =
     (0, Some ([1, 2, 3, 10, 4, 5, 6, 7, 8, 9, 11], [5, 6]))"
proof -
  have "length [5 :: u8, 6] < MAX_CODE_SIZE" by (simp add: MAX_CODE_SIZE_def)
  moreover have "vm_create demo_vm = Some ([], [])" by (simp add: demo_vm_def)
  ultimately show ?thesis
    using setup_engine_loads [of "\<lambda>_. Some (plain_file [5, 6])" "''p''" "[5, 6]" demo_vm "([], [])"]
    by simp (simp add: demo_vm_def)
qed

text \<open>Every call number of the programs' header is registered with the function it names, once.\<close>

lemma engine_calls_registered:
  "(\<forall>(h, i) \<in> set engine_calls. map_of register_engine_functions i = Some h) \<and>
   distinct (map fst register_engine_functions)"
  by (simp add: engine_calls_def register_engine_functions_def)

end
