(* ===== verification/UdpSocket.thy ===== *)
theory UdpSocket
  imports Servant_Prelude
begin
text \<open>
  The raw socket for passed packets (\<open>src/udp_socket.c\<close>). The results of the system calls are
  inputs, what is closed and sent is an output.
\<close>

text \<open>The static variables: the descriptor and \<open>struct sockaddr_in dest\<close>, both zero at first.\<close>

record udp_state =
  socket_fd :: int
  sin_family :: u16
  sin_port :: u16
  sin_addr :: u32

definition udp_start :: udp_state where
  "udp_start = \<lparr>socket_fd = 0, sin_family = 0, sin_port = 0, sin_addr = 0\<rparr>"

definition AF_INET :: u16 where "AF_INET = 2"

definition htons :: "u16 \<Rightarrow> u16" where "htons w = push_bit 8 w OR drop_bit 8 w"

text \<open>An address in network order, as the machine (little endian) holds it in an integer.\<close>

definition ipv4 :: "u8 \<Rightarrow> u8 \<Rightarrow> u8 \<Rightarrow> u8 \<Rightarrow> u32" where
  "ipv4 a b c d = ucast a OR push_bit 8 (ucast b) OR push_bit 16 (ucast c) OR push_bit 24 (ucast d)"

text \<open>\<open>fd\<close> is what \<open>socket\<close> returns, \<open>aton\<close> the result of \<open>inet_aton\<close>.\<close>

definition setup_udp_socket :: "int \<Rightarrow> int \<Rightarrow> udp_state \<Rightarrow> int \<times> udp_state" where
  "setup_udp_socket fd aton s =
     (if fd < 1 then (-1, s)
      else let s = s\<lparr>sin_family := AF_INET, sin_port := htons 8080\<rparr> in
        if aton = 0 then (-1, s)
        else (0, s\<lparr>sin_addr := ipv4 192 168 1 1, socket_fd := fd\<rparr>))"

text \<open>The descriptor that is closed.\<close>

definition teardown_udp_socket :: "udp_state \<Rightarrow> int \<times> int" where
  "teardown_udp_socket s = (0, socket_fd s)"

text \<open>
  \<open>sendto\<close> is given the descriptor, the bytes, the flags and the address. The packet memory holds
  at least \<open>size\<close> bytes.
\<close>

definition send_udp_socket_msg ::
  "(int \<Rightarrow> u8 list \<Rightarrow> int \<Rightarrow> u16 \<times> u16 \<times> u32 \<Rightarrow> 'w \<Rightarrow> int \<times> 'w) \<Rightarrow> udp_state \<Rightarrow> u8 list \<Rightarrow> u32 \<Rightarrow> 'w \<Rightarrow>
     (int \<times> 'w) c_result" where
  "send_udp_socket_msg sendto s buf size' w =
     c_check (unat size' \<le> length buf) OutOfBounds
       (Inr (sendto (socket_fd s) (take (unat size') buf) 0 (sin_family s, sin_port s, sin_addr s) w))"

lemma htons_twice: "htons (htons w) = w"
proof (rule bit_word_eqI)
  fix n assume "n < LENGTH(16)"
  then show "bit (htons (htons w)) n \<longleftrightarrow> bit w n"
    by (auto simp: htons_def bit_simps)
qed

lemma htons_8080: "htons 8080 = 0x901F"
  by (simp add: htons_def)

text \<open>After a successful set up every message goes out on the new socket, to port 8080 (in network
  order) of the fixed address; after a failed one, which \<open>main\<close> does not notice, messages are sent
  to and the tear down closes descriptor 0, the process's standard input.\<close>

theorem udp_socket_use:
  assumes "unat n \<le> length buf"
  shows "case setup_udp_socket fd aton udp_start of (ret, s) \<Rightarrow>
    (ret = 0 \<longleftrightarrow> 0 < fd \<and> aton \<noteq> 0) \<and> ret \<in> {0, -1} \<and>
    (ret = 0 \<longrightarrow> teardown_udp_socket s = (0, fd) \<and>
       send_udp_socket_msg sendto s buf n w = Inr (sendto fd (take (unat n) buf) 0 (2, 0x901F, ipv4 192 168 1 1) w)) \<and>
    (ret \<noteq> 0 \<longrightarrow> teardown_udp_socket s = (0, 0) \<and>
       (\<exists>a. send_udp_socket_msg sendto s buf n w = Inr (sendto 0 (take (unat n) buf) 0 a w)))"
  using assms
  by (auto simp: setup_udp_socket_def teardown_udp_socket_def send_udp_socket_msg_def udp_start_def AF_INET_def
      htons_8080 Let_def split: if_splits)

theorem udp_socket_use_witness:
  "send_udp_socket_msg (\<lambda>fd b f a w. (int (length b), (fd, a))) (snd (setup_udp_socket 5 1 udp_start)) [1, 2, 3] 2 w =
     Inr (2, (5, (2, 0x901F, ipv4 192 168 1 1)))"
  using udp_socket_use [of 2 "[1, 2, 3]" 5 1 "\<lambda>fd b f a w. (int (length b), (fd, a))" w]
  by (auto simp: case_prod_unfold split: if_splits)

end
