(* ===== verification/UserMaps.thy ===== *)
theory UserMaps
  imports UdpSocket
begin
text \<open>
  The initial content of the maps in user space (\<open>src/userspace_maps.c\<close>). The maps belong to the
  virtual machine; selecting, updating and looking up are the parameter \<open>ubpf_maps\<close>.
\<close>

section \<open>The objects that are stored\<close>

text \<open>
  A 64-bit zero as key or value, \<open>struct vip_definition\<close>, \<open>struct vip_meta\<close> and
  \<open>struct real_definition\<close>; of the address unions the IPv4 member, the rest is zero.
\<close>

datatype map_obj =
    U64 u64
  | VipDefinition (vip: u32) (vip_port: u16) (vip_proto: u8)
  | VipMeta (vip_flags: u32) (vip_num: u32)
  | RealDefinition (real_dst: u32) (real_flags: u8)

record ('m, 'vm) ubpf_maps =
  ubpf_select_map :: "string \<Rightarrow> 'vm \<Rightarrow> 'm option"
  ubpf_update_map :: "'m \<Rightarrow> map_obj \<Rightarrow> map_obj \<Rightarrow> 'vm \<Rightarrow> int \<times> 'vm"
  ubpf_lookup_map :: "'m \<Rightarrow> map_obj \<Rightarrow> 'vm \<Rightarrow> map_obj option"

definition IPPROTO_UDP :: u8 where "IPPROTO_UDP = 17"

text \<open>One selected map with one update; each step is asserted.\<close>

definition put_entry :: "('m, 'vm) ubpf_maps \<Rightarrow> string \<Rightarrow> map_obj \<Rightarrow> map_obj \<Rightarrow> 'vm \<Rightarrow> ('m \<times> 'vm) c_result" where
  "put_entry api name key val vm =
     c_bind (c_opt AssertFail (ubpf_select_map api name vm)) (\<lambda>m.
     case ubpf_update_map api m key val vm of (ret, vm) \<Rightarrow> c_check (ret = 0) AssertFail (Inr (m, vm)))"

definition vipdef :: map_obj where
  "vipdef = VipDefinition (ipv4 192 168 1 1) (htons 8080) IPPROTO_UDP"

definition realdef :: map_obj where
  "realdef = RealDefinition (ipv4 192 168 1 2) 0"

definition configure_katran_maps :: "('m, 'vm) ubpf_maps \<Rightarrow> 'vm \<Rightarrow> 'vm c_result" where
  "configure_katran_maps api vm =
     c_bind (put_entry api ''vip_map'' vipdef (VipMeta 0 0) vm) (\<lambda>(vip_map, vm).
     c_check (ubpf_lookup_map api vip_map vipdef vm \<noteq> None) AssertFail (
     c_bind (put_entry api ''ch_rings'' (U64 0) (U64 0) vm) (\<lambda>(_, vm).
     c_bind (put_entry api ''reals'' (U64 0) realdef vm) (\<lambda>(_, vm). Inr vm))))"

definition launch_userspace_maps_server :: "('m, 'vm) ubpf_maps \<Rightarrow> 'vm \<Rightarrow> (int \<times> 'vm) c_result" where
  "launch_userspace_maps_server api vm = c_bind (configure_katran_maps api vm) (\<lambda>vm. Inr (0, vm))"

section \<open>Maps that keep what they are given\<close>

text \<open>
  The contract of the maps: selecting does not depend on the entries, an accepted update is what a
  lookup then finds, and it leaves the entries of other maps and keys alone.
\<close>

definition maps_law :: "('m, 'vm) ubpf_maps \<Rightarrow> bool" where
  "maps_law api \<longleftrightarrow>
     (\<forall>m k v vm vm'. ubpf_update_map api m k v vm = (0, vm') \<longrightarrow>
        (\<forall>name. ubpf_select_map api name vm' = ubpf_select_map api name vm) \<and>
        ubpf_lookup_map api m k vm' = Some v \<and>
        (\<forall>m' k'. (m', k') \<noteq> (m, k) \<longrightarrow> ubpf_lookup_map api m' k' vm' = ubpf_lookup_map api m' k' vm))"

lemma put_entry_Inr:
  assumes "maps_law api" and "put_entry api name k v vm = Inr (m, vm')"
  shows "ubpf_select_map api name vm = Some m" and "ubpf_select_map api n vm' = ubpf_select_map api n vm"
    and "ubpf_lookup_map api m k vm' = Some v"
    and "(m', k') \<noteq> (m, k) \<Longrightarrow> ubpf_lookup_map api m' k' vm' = ubpf_lookup_map api m' k' vm"
proof -
  have s: "ubpf_select_map api name vm = Some m" and u: "ubpf_update_map api m k v vm = (0, vm')"
    using assms(2) by (auto simp: put_entry_def c_bind_Inr_iff c_opt_def c_check_def split: option.splits prod.splits if_splits)
  then show "ubpf_select_map api name vm = Some m" by simp
  show "ubpf_select_map api n vm' = ubpf_select_map api n vm" "ubpf_lookup_map api m k vm' = Some v"
    "(m', k') \<noteq> (m, k) \<Longrightarrow> ubpf_lookup_map api m' k' vm' = ubpf_lookup_map api m' k' vm"
    using assms(1) u unfolding maps_law_def by blast+
qed

lemma put_entry_missing: "ubpf_select_map api name vm = None \<Longrightarrow> put_entry api name k v vm = Inl AssertFail"
  by (simp add: put_entry_def)

lemma put_entry_Inl: "put_entry api name k v vm = Inl e \<Longrightarrow> e = AssertFail"
  by (auto simp: put_entry_def c_bind_def c_opt_def c_check_def split: option.splits prod.splits if_splits)

lemma put_entry_ok:
  "ubpf_select_map api name vm = Some m \<Longrightarrow> fst (ubpf_update_map api m k v vm) = 0 \<Longrightarrow>
    put_entry api name k v vm = Inr (m, snd (ubpf_update_map api m k v vm))"
  by (simp add: put_entry_def case_prod_unfold)

definition only_asserts :: "'a c_result \<Rightarrow> bool" where
  "only_asserts m \<longleftrightarrow> (\<forall>e. m = Inl e \<longrightarrow> e = AssertFail)"

lemma only_asserts_intros [intro]:
  "only_asserts (Inr x)"
  "only_asserts n \<Longrightarrow> (\<And>x y. only_asserts (g x y)) \<Longrightarrow> only_asserts (c_bind n (\<lambda>(x, y). g x y))"
  "only_asserts m \<Longrightarrow> only_asserts (c_check b AssertFail m)"
  "only_asserts (put_entry api name k v vm)"
  using put_entry_Inl by (auto simp: only_asserts_def c_bind_def c_check_def split: sum.splits)

lemma configure_Inl: "configure_katran_maps api vm = Inl e \<Longrightarrow> e = AssertFail"
proof -
  have "only_asserts (configure_katran_maps api vm)"
    unfolding configure_katran_maps_def by (intro only_asserts_intros)
  then show "configure_katran_maps api vm = Inl e \<Longrightarrow> e = AssertFail" by (simp add: only_asserts_def)
qed

text \<open>A program without one of the three maps does not get past the assertions.\<close>

lemma configure_needs_maps:
  assumes "maps_law api" and "name \<in> {''vip_map'', ''ch_rings'', ''reals''}" and "ubpf_select_map api name vm = None"
  shows "configure_katran_maps api vm = Inl AssertFail"
proof (cases "configure_katran_maps api vm")
  case (Inl e)
  then have "e = AssertFail" by (rule configure_Inl)
  then show ?thesis using Inl by simp
next
  case (Inr vm')
  then obtain m1 vm1 m2 vm2 m3 where
    p: "put_entry api ''vip_map'' vipdef (VipMeta 0 0) vm = Inr (m1, vm1)"
      "put_entry api ''ch_rings'' (U64 0) (U64 0) vm1 = Inr (m2, vm2)"
      "put_entry api ''reals'' (U64 0) realdef vm2 = Inr (m3, vm')"
    by (auto simp: configure_katran_maps_def c_bind_Inr_iff c_check_def split: if_splits)
  have "ubpf_select_map api ''vip_map'' vm \<noteq> None" "ubpf_select_map api ''ch_rings'' vm \<noteq> None"
    "ubpf_select_map api ''reals'' vm \<noteq> None"
    using put_entry_Inr(1,2) [OF assms(1) p(1)] put_entry_Inr(1,2) [OF assms(1) p(2)]
      put_entry_Inr(1) [OF assms(1) p(3)] by simp_all
  then show ?thesis using assms(2,3) by auto
qed

section \<open>Properties\<close>

text \<open>Launching the server fills the virtual service, its ring and the real server into the three maps
  of the load balancer, with both ends' ports and addresses in network order; nothing else is
  changed. For a program that lacks one of these maps it fails an assertion, which ends the process:
  only that one kind of program can be run.\<close>

theorem launch_fills_maps:
  assumes "maps_law api"
  shows "case launch_userspace_maps_server api vm of
      Inl e \<Rightarrow> e = AssertFail
    | Inr (ret, vm') \<Rightarrow> ret = 0 \<and> (\<exists>vips rings reals.
        ubpf_select_map api ''vip_map'' vm = Some vips \<and> ubpf_select_map api ''ch_rings'' vm = Some rings \<and>
        ubpf_select_map api ''reals'' vm = Some reals \<and>
        (vips \<noteq> rings \<and> vips \<noteq> reals \<and> rings \<noteq> reals \<longrightarrow>
           ubpf_lookup_map api vips (VipDefinition (ipv4 192 168 1 1) 0x901F 17) vm' = Some (VipMeta 0 0) \<and>
           ubpf_lookup_map api rings (U64 0) vm' = Some (U64 0) \<and>
           ubpf_lookup_map api reals (U64 0) vm' = Some (RealDefinition (ipv4 192 168 1 2) 0)) \<and>
        (\<forall>m k. m \<notin> {vips, rings, reals} \<longrightarrow> ubpf_lookup_map api m k vm' = ubpf_lookup_map api m k vm))"
proof (cases "configure_katran_maps api vm")
  case (Inl e)
  then have "e = AssertFail" by (rule configure_Inl)
  then show ?thesis using Inl by (simp add: launch_userspace_maps_server_def)
next
  case (Inr vm')
  then obtain m1 vm1 m2 vm2 m3 where
    p: "put_entry api ''vip_map'' vipdef (VipMeta 0 0) vm = Inr (m1, vm1)"
      "put_entry api ''ch_rings'' (U64 0) (U64 0) vm1 = Inr (m2, vm2)"
      "put_entry api ''reals'' (U64 0) realdef vm2 = Inr (m3, vm')"
    by (auto simp: configure_katran_maps_def c_bind_Inr_iff c_check_def split: if_splits)
  note a = put_entry_Inr [OF assms p(1)] and b = put_entry_Inr [OF assms p(2)] and c = put_entry_Inr [OF assms p(3)]
  have v: "vipdef = VipDefinition (ipv4 192 168 1 1) 0x901F 17" "realdef = RealDefinition (ipv4 192 168 1 2) 0"
    by (simp_all add: vipdef_def realdef_def htons_8080 IPPROTO_UDP_def)
  have "ubpf_select_map api ''vip_map'' vm = Some m1" "ubpf_select_map api ''ch_rings'' vm = Some m2"
    "ubpf_select_map api ''reals'' vm = Some m3" using a(1,2) b(1,2) c(1) by simp_all
  then show ?thesis using Inr a(3,4) b(3,4) c(3,4)
    by (simp add: launch_userspace_maps_server_def v)
qed

text \<open>Maps for the witness: each name but one is a map; the entries are kept in a list.\<close>

definition demo_maps :: "string list \<Rightarrow> (string, ((string \<times> map_obj) \<times> map_obj) list) ubpf_maps" where
  "demo_maps names = \<lparr>ubpf_select_map = (\<lambda>n vm. if n \<in> set names then Some n else None),
     ubpf_update_map = (\<lambda>m k v vm. (0, ((m, k), v) # vm)),
     ubpf_lookup_map = (\<lambda>m k vm. map_of vm (m, k))\<rparr>"

lemma demo_maps_law: "maps_law (demo_maps names)"
  by (auto simp: maps_law_def demo_maps_def)

theorem launch_fills_maps_witness:
  "case launch_userspace_maps_server (demo_maps [''vip_map'', ''ch_rings'', ''reals'']) [] of
     Inl e \<Rightarrow> e = AssertFail
   | Inr (ret, vm') \<Rightarrow> ret = 0 \<and> map_of vm' (''reals'', U64 0) = Some (RealDefinition (ipv4 192 168 1 2) 0)"
  using launch_fills_maps [OF demo_maps_law, of "[''vip_map'', ''ch_rings'', ''reals'']" "[]"]
  by (auto simp: demo_maps_def split: sum.splits)

end
