(* ===== verification/Servant.thy ===== *)
theory Servant
  imports Sockets Brain UserMaps
begin
text \<open>
  The program (\<open>src/servant.c\<close>): \<open>main\<close> reads the command line, puts the components together, runs the pump loop and
  tears down what it has set up. The model composes the models of the components as the code
  composes the components; the answers of the system are the record \<open>main_env\<close>, what is set up and
  torn down is a list of events.
\<close>

section \<open>The environment\<close>

record ('w, 'vm, 'm) main_env =
  if_index :: "string \<Rightarrow> u32"
  rlimit_ok :: bool
  set_affinity :: "int \<Rightarrow> int"
  xdp :: xdp_env
  sock :: "'w sock_env"
  rings_api :: "'w xsk_api"
  first_world :: 'w
  map_sys :: map_env
  bpf_update :: "int \<Rightarrow> u8 list \<Rightarrow> u8 list \<Rightarrow> int \<Rightarrow> 'w \<Rightarrow> int \<times> 'w"
  xsk_fd :: int
  link_env :: connect_env
  udp_results :: "int \<times> int"
  raw_sendto :: "int \<Rightarrow> u8 list \<Rightarrow> int \<Rightarrow> u16 \<times> u16 \<times> u32 \<Rightarrow> 'w \<Rightarrow> int \<times> 'w"
  files :: "string \<Rightarrow> c_file option"
  vm_sys :: "'vm vm_env"
  user_maps :: "('m, 'vm) ubpf_maps"
  vm_compiles :: bool
  start_time :: u64
  turns_seen :: "(bool \<times> u64) list"
  ch_field_addr :: u64
  leave_munmap :: int

text \<open>What \<open>main\<close> does, with the results it sees.\<close>

datatype main_event =
    XdpLoad int | SocketUp | MapsUp int | XskEntered int | LinkUp int | UdpUp int | EngineUp int
  | ServerUp | Pumped | EngineDown | LinkDown | UdpDown int | XdpUnlink int | SocketDown

text \<open>The run is over, with the exit status, or still in the pump loop.\<close>

datatype outcome = Returned int "main_event list" | Running "main_event list"

text \<open>The signal handler.\<close>

definition int_exit :: "config \<Rightarrow> config" where "int_exit cf = cf\<lparr>terminate := 1\<rparr>"

definition setRlimit :: "bool \<Rightarrow> unit c_result" where
  "setRlimit ok = c_check ok (Exit 1) (Inr ())"

text \<open>The channel behind the null pointer of a link that is not set up; it is never accessed.\<close>

definition null_channel :: shared_channel where
  "null_channel = \<lparr>master_virt_addr = 0, region_size = 0, connected = 0, ring_size = 0, rings = [],
     count_elements = 0, ring_top = 0, shared_objs = []\<rparr>"

definition default_maps :: "string list" where
  "default_maps = [''xsks_map'', ''map_kcache'', ''map_stats'', ''test_map'', ''data_map'', ''ctl_array'',
     ''reals'', ''server_id_'', ''stats'', ''ch_rings'']"

text \<open>\<open>config.custom_kern_prog && config.custom_kern_path[0] != '-'\<close>\<close>

definition loads_kern_prog :: "config \<Rightarrow> bool c_result" where
  "loads_kern_prog cf =
     (if custom_kern_prog cf = 0 then Inr False
      else case custom_kern_path cf of None \<Rightarrow> Inl NullDeref
        | Some [] \<Rightarrow> Inr True | Some (c # _) \<Rightarrow> Inr (c \<noteq> CHR ''-''))"

section \<open>Tearing down\<close>

text \<open>The label \<open>teardown\<close>; \<open>xsk\<close> tells whether the pointer to the socket is not null.\<close>

definition teardown :: "config \<Rightarrow> ('w, 'vm, 'm) main_env \<Rightarrow> bool \<Rightarrow> main_event list \<Rightarrow> outcome c_result" where
  "teardown cf env xsk evs =
     c_bind (loads_kern_prog cf) (\<lambda>loads.
     let evs = (if loads then evs @ [XdpUnlink (set_link_xdp_fd (xdp env) (-1) (xdp_flags cf))] else evs) in
     c_bind (tear_down_socket cf xsk) (\<lambda>_. Inr (Returned 0 (evs @ [SocketDown]))))"

text \<open>The label \<open>teardown2\<close>. A link whose set up failed has a null channel.\<close>

definition teardown2 ::
  "config \<Rightarrow> ('w, 'vm, 'm) main_env \<Rightarrow> vchannel option \<Rightarrow> shared_channel \<Rightarrow> udp_state \<Rightarrow> main_event list \<Rightarrow>
     outcome c_result" where
  "teardown2 cf env vc ch udp evs =
     (if use_packet_injection cf \<noteq> 0
      then (case vc of None \<Rightarrow> Inl NullDeref
        | Some v \<Rightarrow> (case teardown_interpose_link (ch_field_addr env) (leave_munmap env) v ch of
            (_, _, _) \<Rightarrow> teardown cf env True (evs @ [LinkDown])))
      else (case teardown_udp_socket udp of (_, fd) \<Rightarrow> teardown cf env True (evs @ [UdpDown fd])))"

section \<open>The engine and the pump loop\<close>

text \<open>The data path's calls with the raw socket as it was set up.\<close>

definition with_socket :: "('w, 'vm, 'm) main_env \<Rightarrow> udp_state \<Rightarrow> 'w xsk_api" where
  "with_socket env udp = (rings_api env)\<lparr>udp_send := \<lambda>buf w.
     raw_sendto env (socket_fd udp) buf 0 (sin_family udp, sin_port udp, sin_addr udp) w\<rparr>"

definition run_engine ::
  "config \<Rightarrow> ('w, 'vm, 'm) main_env \<Rightarrow> vchannel option \<Rightarrow> shared_channel \<Rightarrow> udp_state \<Rightarrow> 'w \<Rightarrow> main_event list \<Rightarrow>
     outcome c_result" where
  "run_engine cf env vc ch udp w evs =
     (case setup_ubpf_engine (files env) (vm_sys env) (ebpf_program_path cf) of
        (ret, None) \<Rightarrow> teardown2 cf env vc ch udp (evs @ [EngineUp ret])
      | (ret, Some vm) \<Rightarrow>
          c_bind (launch_userspace_maps_server (user_maps env) vm) (\<lambda>_.
          c_bind (pump_packets cf (with_socket env udp) vc (vm_compiles env) (start_time env) (turns_seen env)
              \<lparr>world = w, outstanding_tx = 0, chan = ch, pkt_count = 0, sent_count = 0, rprt_ts = 0\<rparr>) (\<lambda>(left, s).
          let evs = evs @ [EngineUp ret, ServerUp] in
          if left then teardown2 cf env vc (chan s) udp (evs @ [Pumped, EngineDown]) else Inr (Running evs))))"

text \<open>The way a passed packet takes: over the link or the raw socket; failures are ignored.\<close>

definition run_delivery ::
  "config \<Rightarrow> ('w, 'vm, 'm) main_env \<Rightarrow> 'w \<Rightarrow> main_event list \<Rightarrow> outcome c_result" where
  "run_delivery cf env w evs =
     (if use_packet_injection cf \<noteq> 0
      then c_bind (setup_interpose_link (link_env env)) (\<lambda>(ret, res, _).
        (case res of None \<Rightarrow> run_engine cf env None null_channel udp_start w (evs @ [LinkUp ret])
         | Some (vc, ch) \<Rightarrow> run_engine cf env (Some vc) ch udp_start w (evs @ [LinkUp ret])))
      else (case setup_udp_socket (fst (udp_results env)) (snd (udp_results env)) udp_start of (ret, udp) \<Rightarrow>
        run_engine cf env None null_channel udp w (evs @ [UdpUp ret])))"

section \<open>The main function\<close>

definition run_maps ::
  "config \<Rightarrow> ('w, 'vm, 'm) main_env \<Rightarrow> 'w \<Rightarrow> main_event list \<Rightarrow> outcome c_result" where
  "run_maps cf env w evs =
     c_bind (setup_map_system (map_sys env) (if count_maps cf = 0 then default_maps else maps cf) empty_tables)
       (\<lambda>(ret, t).
       let evs = evs @ [MapsUp ret] in
       if ret \<noteq> 0 then teardown cf env True evs
       else if custom_kern_prog cf \<noteq> 0 then
         (case enter_xsks_into_map (bpf_update env) t (xsk_fd env) (sint (qid cf)) w of (ret, w) \<Rightarrow>
            if ret \<noteq> 0 then teardown cf env True (evs @ [XskEntered ret])
            else run_delivery cf env w (evs @ [XskEntered ret]))
       else run_delivery cf env w evs)"

text \<open>What follows the command line.\<close>

definition run_configured :: "config \<Rightarrow> ('w, 'vm, 'm) main_env \<Rightarrow> outcome c_result" where
  "run_configured cf env =
     c_bind (setRlimit (rlimit_ok env)) (\<lambda>_.
     if core cf \<ge> 0 \<and> set_affinity env (core cf) \<noteq> 0 then Inr (Returned (-1) [])
     else
       c_bind (loads_kern_prog cf) (\<lambda>loads.
       let evs = (if loads then [XdpLoad (load_xdp_program cf (xdp env))] else []) in
       c_bind (setup_socket cf (sock env) (rings_api env) (ifname cf) (qid cf) (first_world env)) (\<lambda>(xsk, w).
       if \<not> xsk then teardown cf env False evs else run_maps cf env w (evs @ [SocketUp]))))"

definition servant_main ::
  "('w, 'vm, 'm) main_env \<Rightarrow> cli_opt list \<Rightarrow> string list \<Rightarrow> outcome c_result" where
  "servant_main env opts rest = c_bind (parse_args (if_index env) opts rest) (\<lambda>cf. run_configured cf env)"

section \<open>What a run returns\<close>

text \<open>Whether the packet program is loaded; the way the tear down ends.\<close>

abbreviation loads :: "config \<Rightarrow> bool" where "loads cf \<equiv> loads_kern_prog cf = Inr True"

definition last_events :: "config \<Rightarrow> ('w, 'vm, 'm) main_env \<Rightarrow> main_event list" where
  "last_events cf env =
     (if loads cf then [XdpUnlink (set_link_xdp_fd (xdp env) (-1) (xdp_flags cf))] else []) @ [SocketDown]"

text \<open>The raw socket as the set up leaves it.\<close>

abbreviation raw_socket :: "('w, 'vm, 'm) main_env \<Rightarrow> int \<times> udp_state" where
  "raw_socket env \<equiv> setup_udp_socket (fst (udp_results env)) (snd (udp_results env)) udp_start"

text \<open>The events of a run from the engine on, and from the set up of the delivery on.\<close>

definition engine_events :: "main_event \<Rightarrow> main_event list \<Rightarrow> bool" where
  "engine_events d evs \<longleftrightarrow>
     evs = [EngineUp 0, ServerUp, Pumped, EngineDown, d] \<or> (\<exists>r. r \<noteq> 0 \<and> evs = [EngineUp r, d])"

definition delivery_events :: "config \<Rightarrow> ('w, 'vm, 'm) main_env \<Rightarrow> main_event list \<Rightarrow> bool" where
  "delivery_events cf env evs \<longleftrightarrow> (\<exists>u rest. evs = u # rest \<and>
     (if use_packet_injection cf \<noteq> 0 then u = LinkUp 0 \<and> engine_events LinkDown rest
      else u = UdpUp (fst (raw_socket env)) \<and> engine_events (UdpDown (socket_fd (snd (raw_socket env)))) rest))"

lemma teardown_returns:
  "teardown cf env xsk evs = c_bind (loads_kern_prog cf) (\<lambda>_.
     if xsk then Inr (Returned 0 (evs @ last_events cf env)) else Inl NullDeref)"
  by (cases "loads_kern_prog cf") (simp_all add: teardown_def tear_down_socket_def last_events_def)

lemma teardown2_returns:
  "teardown2 cf env vc ch udp evs =
     (if use_packet_injection cf \<noteq> 0
      then if vc = None then Inl NullDeref else teardown cf env True (evs @ [LinkDown])
      else teardown cf env True (evs @ [UdpDown (socket_fd udp)]))"
  by (auto simp: teardown2_def teardown_udp_socket_def split: option.split prod.split)

lemma setup_engine_result: "setup_ubpf_engine f v p = (ret, res) \<Longrightarrow> ret = (if res = None then 1 else 0)"
  by (auto simp: setup_ubpf_engine_def Let_def split: option.splits prod.splits if_splits)

lemma run_engine_returns:
  assumes "run_engine cf env vc ch udp w evs = Inr (Returned code evs')"
  shows "code = 0 \<and> (use_packet_injection cf \<noteq> 0 \<longrightarrow> vc \<noteq> None) \<and>
    (\<exists>mid. evs' = evs @ mid @ last_events cf env \<and>
       engine_events (if use_packet_injection cf \<noteq> 0 then LinkDown else UdpDown (socket_fd udp)) mid)"
proof -
  obtain ret res where e: "setup_ubpf_engine (files env) (vm_sys env) (ebpf_program_path cf) = (ret, res)"
    by (metis surj_pair)
  let ?d = "if use_packet_injection cf \<noteq> 0 then LinkDown else UdpDown (socket_fd udp)"
  have down: "evs' = l @ ?d # last_events cf env \<and> code = 0 \<and> (use_packet_injection cf \<noteq> 0 \<longrightarrow> vc \<noteq> None)"
    if "teardown2 cf env vc ch' udp l = Inr (Returned code evs')" for ch' l
    using that by (auto simp: teardown2_returns teardown_returns c_bind_Inr_iff split: if_splits)
  show ?thesis
  proof (cases res)
    case None
    then have "teardown2 cf env vc ch udp (evs @ [EngineUp 1]) = Inr (Returned code evs')"
      using assms e setup_engine_result [OF e] by (simp add: run_engine_def)
    note d = down [OF this]
    moreover have "engine_events ?d [EngineUp 1, ?d]" by (simp add: engine_events_def)
    ultimately show ?thesis by (intro conjI exI [of _ "[EngineUp 1, ?d]"]) simp_all
  next
    case (Some vm)
    then obtain ch' where "teardown2 cf env vc ch' udp (evs @ [EngineUp 0, ServerUp, Pumped, EngineDown]) = Inr (Returned code evs')"
      using assms e setup_engine_result [OF e]
      by (auto simp: run_engine_def c_bind_Inr_iff Let_def split: if_splits)
    note d = down [OF this]
    moreover have "engine_events ?d [EngineUp 0, ServerUp, Pumped, EngineDown, ?d]" by (simp add: engine_events_def)
    ultimately show ?thesis by (intro conjI exI [of _ "[EngineUp 0, ServerUp, Pumped, EngineDown, ?d]"]) simp_all
  qed
qed

lemma setup_link_ret:
  assumes "setup_interpose_link e = Inr (ret, Some x, ev)" shows "ret = 0"
proof -
  obtain r where "connect_shared_channel e interpose_attr = Inr (r, Some x, ev)" "ret = (if r \<noteq> 0 then -1 else 0)"
    using assms by (auto simp: setup_interpose_link_def setup_interpose_vchannel_def c_bind_Inr_iff)
  moreover from connect_outcomes [of interpose_attr e] interpose_attr_ok obtain r' res' ev' where
    "connect_shared_channel e interpose_attr = Inr (r', res', ev')" "r' = 0 \<longleftrightarrow> res' \<noteq> None" by auto
  ultimately show ?thesis by simp
qed

lemma run_delivery_returns:
  assumes "run_delivery cf env w evs = Inr (Returned code evs')"
  shows "code = 0 \<and> (\<exists>mid. evs' = evs @ mid @ last_events cf env \<and> delivery_events cf env mid)"
proof -
  have wrap: "code = 0 \<and> (\<exists>mid. evs' = evs @ mid @ last_events cf env \<and> delivery_events cf env mid)"
    if run: "run_engine cf env vc ch udp w (evs @ [u]) = Inr (Returned code evs')"
    and u: "if use_packet_injection cf \<noteq> 0 then vc \<noteq> None \<longrightarrow> u = LinkUp 0
      else u = UdpUp (fst (raw_socket env)) \<and> udp = snd (raw_socket env)" for vc ch udp u
  proof -
    from run_engine_returns [OF run] obtain mid where "code = 0" "use_packet_injection cf \<noteq> 0 \<longrightarrow> vc \<noteq> None"
      "evs' = evs @ (u # mid) @ last_events cf env"
      "engine_events (if use_packet_injection cf \<noteq> 0 then LinkDown else UdpDown (socket_fd udp)) mid" by auto
    then show ?thesis using u by (intro conjI exI [of _ "u # mid"]) (auto simp: delivery_events_def split: if_splits)
  qed
  show ?thesis
  proof (cases "use_packet_injection cf \<noteq> 0")
    case True
    then obtain ret res ev where l: "setup_interpose_link (link_env env) = Inr (ret, res, ev)"
      and run: "(case res of None \<Rightarrow> run_engine cf env None null_channel udp_start w (evs @ [LinkUp ret])
         | Some (vc, ch) \<Rightarrow> run_engine cf env (Some vc) ch udp_start w (evs @ [LinkUp ret])) = Inr (Returned code evs')"
      using assms by (auto simp: run_delivery_def c_bind_Inr_iff)
    show ?thesis
    proof (cases res)
      case None
      then show ?thesis using wrap run True by simp
    next
      case (Some x)
      then have "ret = 0" using setup_link_ret l by blast
      then show ?thesis using wrap run True Some by (cases x) simp
    qed
  next
    case False
    have "run_engine cf env None null_channel (snd (raw_socket env)) w (evs @ [UdpUp (fst (raw_socket env))]) =
        Inr (Returned code evs')"
      using assms False by (simp add: run_delivery_def case_prod_unfold)
    then show ?thesis by (rule wrap) (use False in simp)
  qed
qed

text \<open>The events between the set up of the maps and the last ones.\<close>

definition middle_events :: "config \<Rightarrow> ('w, 'vm, 'm) main_env \<Rightarrow> main_event list \<Rightarrow> bool" where
  "middle_events cf env l \<longleftrightarrow> l = [] \<or> (\<exists>x. l = [XskEntered x]) \<or> delivery_events cf env l \<or>
     (\<exists>x rest. l = XskEntered x # rest \<and> delivery_events cf env rest)"

lemma run_maps_returns:
  assumes "run_maps cf env w evs = Inr (Returned code evs')"
  shows "code = 0 \<and> (\<exists>r more. evs' = evs @ [MapsUp r] @ more @ last_events cf env \<and> middle_events cf env more)"
proof -
  obtain ret t where m: "setup_map_system (map_sys env) (if count_maps cf = 0 then default_maps else maps cf) empty_tables = Inr (ret, t)"
    using assms by (auto simp: run_maps_def c_bind_Inr_iff)
  obtain x w' where x: "enter_xsks_into_map (bpf_update env) t (xsk_fd env) (sint (qid cf)) w = (x, w')" by (metis surj_pair)
  consider (fail) "ret \<noteq> 0" | (refused) "ret = 0" "custom_kern_prog cf \<noteq> 0" "x \<noteq> 0"
    | (entered) "ret = 0" "custom_kern_prog cf \<noteq> 0" "x = 0" | (plain) "ret = 0" "custom_kern_prog cf = 0" by blast
  then show ?thesis
  proof cases
    case fail
    then have "code = 0" "evs' = evs @ [MapsUp ret] @ [] @ last_events cf env"
      using assms by (simp_all add: run_maps_def m teardown_returns c_bind_Inr_iff)
    then show ?thesis unfolding middle_events_def by blast
  next
    case refused
    then have "code = 0" "evs' = evs @ [MapsUp ret] @ [XskEntered x] @ last_events cf env"
      using assms by (simp_all add: run_maps_def m x teardown_returns c_bind_Inr_iff)
    then show ?thesis unfolding middle_events_def by blast
  next
    case entered
    then have "run_delivery cf env w' (evs @ [MapsUp ret, XskEntered x]) = Inr (Returned code evs')"
      using assms by (simp add: run_maps_def m x)
    from run_delivery_returns [OF this] obtain mid where
      "code = 0" "evs' = evs @ [MapsUp ret] @ (XskEntered x # mid) @ last_events cf env" "delivery_events cf env mid" by auto
    then show ?thesis unfolding middle_events_def by blast
  next
    case plain
    then have "run_delivery cf env w (evs @ [MapsUp ret]) = Inr (Returned code evs')"
      using assms by (simp add: run_maps_def m)
    from run_delivery_returns [OF this] obtain mid where
      "code = 0" "evs' = evs @ [MapsUp ret] @ mid @ last_events cf env" "delivery_events cf env mid" by auto
    then show ?thesis unfolding middle_events_def by blast
  qed
qed

abbreviation load_events :: "config \<Rightarrow> ('w, 'vm, 'm) main_env \<Rightarrow> main_event list" where
  "load_events cf env \<equiv> if loads cf then [XdpLoad (load_xdp_program cf (xdp env))] else []"

lemma run_configured_returns:
  assumes "run_configured cf env = Inr (Returned code evs)"
  shows "code = -1 \<and> evs = [] \<and> 0 \<le> core cf \<and> set_affinity env (core cf) \<noteq> 0 \<or>
    code = 0 \<and> \<not> (0 \<le> core cf \<and> set_affinity env (core cf) \<noteq> 0) \<and>
      (\<exists>r more. evs = load_events cf env @ [SocketUp, MapsUp r] @ more @ last_events cf env \<and> middle_events cf env more)"
proof (cases "0 \<le> core cf \<and> set_affinity env (core cf) \<noteq> 0")
  case True
  then show ?thesis using assms
    by (auto simp: run_configured_def setRlimit_def c_bind_Inr_iff c_check_def split: if_splits)
next
  case False
  obtain l where l: "loads_kern_prog cf = Inr l"
    using assms False unfolding run_configured_def by (auto simp: c_bind_Inr_iff split: if_splits)
  have ev: "(if l then [XdpLoad (load_xdp_program cf (xdp env))] else []) = load_events cf env" by (simp add: l)
  obtain xsk w where x: "(if \<not> xsk then teardown cf env False (load_events cf env)
      else run_maps cf env w (load_events cf env @ [SocketUp])) = Inr (Returned code evs)"
    using assms unfolding run_configured_def Let_def if_not_P [OF False] l c_bind_simps ev
    by (auto simp only: c_bind_Inr_iff split: prod.splits)
  then have "run_maps cf env w (load_events cf env @ [SocketUp]) = Inr (Returned code evs)"
    by (cases xsk) (simp_all add: teardown_returns l)
  from run_maps_returns [OF this] obtain r more where m: "code = 0"
    "evs = (load_events cf env @ [SocketUp]) @ [MapsUp r] @ more @ last_events cf env" "middle_events cf env more"
    by (elim conjE exE)
  have "evs = load_events cf env @ [SocketUp, MapsUp r] @ more @ last_events cf env"
    unfolding m(2) by (simp only: append.simps append_assoc)
  with m(1,3) False show ?thesis by blast
qed

section \<open>The errors a run can end with\<close>

lemma register_map_Inl: "register_map env fd info r n t = Inl e \<Longrightarrow> e = OutOfBounds"
  by (cases r) (auto simp: register_map_def c_bind_def c_check_def Let_def dest: skip_used_Inl
      split: sum.splits if_splits prod.splits)

lemma match_requests_Inl: "match_requests env fd info rs n t = Inl e \<Longrightarrow> e = OutOfBounds"
  by (induction rs arbitrary: n t)
    (auto simp: c_bind_def dest: register_map_Inl split: sum.splits if_splits)

lemma scan_maps_Inl: "scan_maps env rs ms info n t = Inl e \<Longrightarrow> e = OutOfBounds"
  by (induction env rs ms info n t rule: scan_maps.induct)
    (auto simp: c_bind_def Let_def dest: match_requests_Inl split: sum.splits if_splits)

lemma setup_maps_Inl: "setup_map_system env rs t = Inl e \<Longrightarrow> e = OutOfBounds"
  by (auto simp: setup_map_system_def dest: scan_maps_Inl split: if_splits)

lemma setup_socket_Inl: "setup_socket cf env api i q w = Inl e \<Longrightarrow> e = Exit 1"
  by (auto simp: setup_socket_def c_check_def Let_def split: if_splits prod.splits)

lemma setup_socket_null:
  "setup_socket cf env api i q w = Inr (False, w') \<Longrightarrow> \<not> mmap_huge env (umem_size cf) \<or> \<not> apply_options cf env"
  by (auto simp: setup_socket_def c_check_def Let_def split: if_splits prod.splits)

lemma launch_Inl: "launch_userspace_maps_server api vm = Inl e \<Longrightarrow> e = AssertFail"
  by (auto simp: launch_userspace_maps_server_def c_bind_def dest: configure_Inl split: sum.splits)

lemma kern_path_set:
  assumes "parse_args f opts rest = Inr cf" obtains l where "loads_kern_prog cf = Inr l"
proof -
  have one: "parse_opt c o' = Inr c' \<Longrightarrow> (custom_kern_prog c \<noteq> 0 \<longrightarrow> custom_kern_path c \<noteq> None) \<Longrightarrow>
      custom_kern_prog c' \<noteq> 0 \<longrightarrow> custom_kern_path c' \<noteq> None" for c o' c'
    by (cases o') (auto simp: c_bind_Inr_iff c_check_def Let_def split: if_splits)
  have all: "parse_opts c opts = Inr c' \<Longrightarrow> (custom_kern_prog c \<noteq> 0 \<longrightarrow> custom_kern_path c \<noteq> None) \<Longrightarrow>
      custom_kern_prog c' \<noteq> 0 \<longrightarrow> custom_kern_path c' \<noteq> None" for c c'
  proof (induction opts arbitrary: c)
    case (Cons opt opts)
    then obtain c1 where "parse_opt c opt = Inr c1" "parse_opts c1 opts = Inr c'" by (auto simp: c_bind_Inr_iff)
    with Cons.IH one Cons.prems(2) show ?case by blast
  qed simp
  obtain c where c: "parse_opts default_config opts = Inr c" "finish_args f rest c = Inr cf"
    using assms by (auto simp: parse_args_def c_bind_Inr_iff)
  have "custom_kern_prog c \<noteq> 0 \<longrightarrow> custom_kern_path c \<noteq> None"
    by (rule all [OF c(1)]) (simp add: default_config_def)
  moreover have "custom_kern_prog cf = custom_kern_prog c" "custom_kern_path cf = custom_kern_path c"
    using c(2) by (auto simp: finish_args_def c_check_def Let_def split: if_splits)
  ultimately have "\<exists>l. loads_kern_prog cf = Inr l"
    by (cases "custom_kern_path cf") (auto simp: loads_kern_prog_def split: list.splits)
  then show thesis using that by blast
qed

text \<open>What has to be on the command line for each of its errors.\<close>

definition args_blame :: "cli_opt list \<Rightarrow> string list \<Rightarrow> c_error \<Rightarrow> bool" where
  "args_blame opts rest e \<longleftrightarrow> (case e of
     Exit n \<Rightarrow> n = 0 \<and> HELP \<in> set opts \<or> n = 1 \<and> (UNKNOWN \<in> set opts \<or> length rest < 3)
   | OutOfBounds \<Rightarrow> MAX_CONFIG_MAPS < length (filter (\<lambda>opt. case opt of MAP _ \<Rightarrow> True | _ \<Rightarrow> False) opts)
   | BadConversion \<Rightarrow> \<exists>a. FRAME_SIZE a \<in> set opts \<and> (word_of_int (atoi a) :: u32) = 0
   | _ \<Rightarrow> False)"

abbreviation map_count :: "cli_opt list \<Rightarrow> nat" where
  "map_count opts \<equiv> length (filter (\<lambda>opt. case opt of MAP _ \<Rightarrow> True | _ \<Rightarrow> False) opts)"

lemma parse_opts_blamed:
  assumes "parse_opts cf opts = Inl e" and "config_wf cf"
  shows "e = Exit 0 \<and> HELP \<in> set opts \<or> e = Exit 1 \<and> UNKNOWN \<in> set opts \<or>
    e = OutOfBounds \<and> MAX_CONFIG_MAPS < unat (count_maps cf) + map_count opts \<or>
    e = BadConversion \<and> (\<exists>a. FRAME_SIZE a \<in> set opts \<and> (word_of_int (atoi a) :: u32) = 0)"
  using assms
proof (induction opts arbitrary: cf)
  case (Cons opt opts)
  show ?case
  proof (cases "parse_opt cf opt")
    case (Inl x)
    then show ?thesis using Cons.prems(1)
      by (cases opt) (auto simp: c_check_def log2_u32_def Let_def split: if_splits)
  next
    case (Inr cf')
    have wf: "config_wf cf'" using parse_opt_wf [OF Inr Cons.prems(2)] .
    have "unat (count_maps cf') + map_count opts = unat (count_maps cf) + map_count (opt # opts)"
    proof (cases opt)
      case (MAP a)
      then have "unat (count_maps cf) < 10" "count_maps cf' = count_maps cf + 1"
        using Inr by (auto simp: c_check_def MAX_CONFIG_MAPS_def split: if_splits)
      then show ?thesis using MAP by (simp add: unat_word_ariths)
    qed (use Inr in \<open>auto simp: c_bind_Inr_iff Let_def\<close>)
    moreover have "parse_opts cf' opts = Inl e" using Cons.prems(1) Inr by simp
    ultimately show ?thesis using Cons.IH [OF _ wf] by (metis list.set_intros(2))
  qed
qed simp

lemma parse_args_blamed:
  assumes "parse_args f opts rest = Inl e" shows "args_blame opts rest e"
proof (cases "parse_opts default_config opts")
  case (Inl x)
  have z: "count_maps default_config = 0" by (simp add: default_config_def)
  have "x = e" using assms Inl by (simp add: parse_args_def)
  with parse_opts_blamed [OF Inl default_config_wf] show ?thesis
    unfolding z unat_0 add_0 by (elim disjE conjE; hypsubst) (simp_all add: args_blame_def)
next
  case (Inr c)
  have "config_wf c" using parse_opts_wf [OF Inr default_config_wf] .
  then have "e = Exit 1 \<and> length rest < 3" using assms Inr
    by (auto simp: parse_args_def finish_args_def config_wf_def c_check_def Let_def REQUIRED_ARGUMENTS_def split: if_splits)
  then show ?thesis by (simp add: args_blame_def)
qed

text \<open>What the run relies on: the contract of the rings and calls that leave them alone.\<close>

definition main_env_ok :: "('w, 'vm, 'm) main_env \<Rightarrow> ('w \<Rightarrow> xsk_view) \<Rightarrow> bool" where
  "main_env_ok env view \<longleftrightarrow> xsk_laws (rings_api env) view \<and> env_keeps (sock env) view \<and>
     view (first_world env) = empty_view \<and>
     (\<forall>fd b f a w r w'. raw_sendto env fd b f a w = (r, w') \<longrightarrow> view w' = view w) \<and>
     (\<forall>fd k v f w r w'. bpf_update env fd k v f w = (r, w') \<longrightarrow> view w' = view w) \<and>
     vc_wf (region (link_env env)) \<and> 0 \<le> connected (region (link_env env))"

text \<open>The link could not be set up; its region was mapped at another address than its maker's.\<close>

definition link_fails :: "('w, 'vm, 'm) main_env \<Rightarrow> bool" where
  "link_fails env \<longleftrightarrow> (\<exists>ev. setup_interpose_link (link_env env) = Inr (-1, None, ev))"

definition link_moved :: "('w, 'vm, 'm) main_env \<Rightarrow> bool" where
  "link_moved env \<longleftrightarrow> (\<exists>vc ch ev. setup_interpose_link (link_env env) = Inr (0, Some (vc, ch), ev) \<and>
     shm_create (link_env env) \<le> 0 \<and> mmap_remap (link_env env) = Some (vc_ch vc) \<and> vc_ch vc \<noteq> master_virt_addr ch)"

text \<open>A step of the socket's set up that ends the process.\<close>

definition socket_exits :: "config \<Rightarrow> ('w, 'vm, 'm) main_env \<Rightarrow> bool" where
  "socket_exits cf env \<longleftrightarrow> \<not> calloc_umem (sock env) \<or> \<not> calloc_xsk (sock env) \<or>
     (\<exists>w. fst (umem_create (sock env) (umem_size cf) (umem_cfg cf) w) \<noteq> 0) \<or>
     (\<exists>w. word_of_int (fst (prod_reserve (rings_api env) FillRing (rx_size cf * 2) w)) \<noteq> rx_size cf * 2) \<or>
     (\<exists>w. fst (socket_create (sock env) (ifname cf) (qid cf) (socket_cfg cf) w) \<noteq> 0)"

lemma setup_socket_exits:
  "setup_socket cf (sock env) (rings_api env) (ifname cf) (qid cf) w = Inl e \<Longrightarrow> e = Exit 1 \<and> socket_exits cf env"
  unfolding socket_exits_def
  by (auto simp: setup_socket_def c_check_def Let_def split: if_splits prod.splits) (metis fst_conv)+

abbreviation map_requests :: "config \<Rightarrow> string list" where
  "map_requests cf \<equiv> if count_maps cf = 0 then default_maps else maps cf"

text \<open>What has to have gone wrong after the command line for each error.\<close>

definition blame :: "config \<Rightarrow> ('w, 'vm, 'm) main_env \<Rightarrow> c_error \<Rightarrow> bool" where
  "blame cf env e \<longleftrightarrow> (case e of
     Exit n \<Rightarrow> n = 1 \<and> (\<not> rlimit_ok env \<or> socket_exits cf env \<or> copy_mode cf = XDP_COPY \<and> kick_fails (rings_api env))
   | NullDeref \<Rightarrow> \<not> mmap_huge (sock env) (umem_size cf) \<or> \<not> apply_options cf (sock env) \<or>
       use_packet_injection cf \<noteq> 0 \<and> link_fails env
   | WildPointer \<Rightarrow> use_packet_injection cf \<noteq> 0 \<and> link_moved env
   | OutOfBounds \<Rightarrow> (\<exists>r \<in> set (map_requests cf). bad_position (get_name_index_requested r)) \<or>
       MAX_NR_MAPS < count_matches (map get_name_index_requested (map_requests cf)) (kernel_maps (map_sys env)) no_info
   | AssertFail \<Rightarrow> use_packet_injection cf \<noteq> 0 \<and> passes_oversized (rings_api env) \<or>
       (\<exists>vm. setup_ubpf_engine (files env) (vm_sys env) (ebpf_program_path cf) = (0, Some vm) \<and>
          launch_userspace_maps_server (user_maps env) vm = Inl AssertFail)
   | _ \<Rightarrow> False)"

definition blamed :: "config \<Rightarrow> ('w, 'vm, 'm) main_env \<Rightarrow> 'a c_result \<Rightarrow> bool" where
  "blamed cf env m \<longleftrightarrow> (case m of Inl e \<Rightarrow> blame cf env e | Inr _ \<Rightarrow> True)"

lemma blamed_bind: "blamed cf env m \<Longrightarrow> (\<And>x. m = Inr x \<Longrightarrow> blamed cf env (f x)) \<Longrightarrow> blamed cf env (c_bind m f)"
  by (cases m) (auto simp: blamed_def)

lemma blamed_Inr [simp]: "blamed cf env (Inr x)"
  by (simp add: blamed_def)

lemma setup_link_cases:
  assumes "main_env_ok env view"
  obtains "link_fails env" and "\<exists>ev. setup_interpose_link (link_env env) = Inr (-1, None, ev)"
  | vc ch ev where "setup_interpose_link (link_env env) = Inr (0, Some (vc, ch), ev)" and "link_wf (Some vc) ch"
    and "at_home vc ch \<or> link_moved env"
proof -
  have "vc_wf (region (link_env env))" "0 \<le> connected (region (link_env env))"
    using assms by (simp_all add: main_env_ok_def)
  from interpose_attr_ok this show thesis
  proof (cases rule: connect_safe)
    case (1 ev)
    then show thesis using that(1)
      by (simp add: link_fails_def setup_interpose_link_def setup_interpose_vchannel_def)
  next
    case (2 vc ch ev)
    have l: "setup_interpose_link (link_env env) = Inr (0, Some (vc, ch), ev)"
      using 2(1) by (simp add: setup_interpose_link_def setup_interpose_vchannel_def)
    show thesis by (rule that(2) [OF l]) (use 2 l in \<open>auto simp: link_moved_def at_home_def\<close>)
  qed
qed

lemma with_socket_same [simp]:
  "kick_fails (with_socket env udp) = kick_fails (rings_api env)"
  "passes_oversized (with_socket env udp) = passes_oversized (rings_api env)"
  by (simp_all add: kick_fails_def passes_oversized_def with_socket_def)

lemma with_socket_laws:
  assumes "main_env_ok env view" shows "xsk_laws (with_socket env udp) view"
proof -
  let ?a = "with_socket env udp"
  note l = xsk_lawsD [of "rings_api env" view]
  have laws: "xsk_laws (rings_api env) view" using assms by (simp add: main_env_ok_def)
  have "reserve_law ?a view" "write_law ?a view" "submit_law ?a view" "peek_law ?a view" "desc_law ?a view"
    "release_law ?a view"
    using l [OF laws] by (simp_all add: with_socket_def reserve_law_def write_law_def submit_law_def
        peek_law_def desc_law_def release_law_def)
  moreover have "other_law ?a view"
    using l(7) [OF laws] assms unfolding other_law_def with_socket_def main_env_ok_def by simp
  ultimately show ?thesis by (simp add: xsk_laws_def)
qed

lemma teardown_blamed: "loads_kern_prog cf = Inr l \<Longrightarrow> blamed cf env (teardown cf env True evs)"
  by (simp add: teardown_returns)

lemma teardown2_blamed:
  "loads_kern_prog cf = Inr l \<Longrightarrow> (vc = None \<Longrightarrow> use_packet_injection cf \<noteq> 0 \<Longrightarrow> link_fails env) \<Longrightarrow>
    blamed cf env (teardown2 cf env vc ch udp evs)"
  by (auto simp: teardown2_returns teardown_returns blamed_def blame_def)

lemma run_engine_blamed:
  assumes path: "loads_kern_prog cf = Inr l" and ok: "main_env_ok env view" and start: "heart_inv view base
      \<lparr>world = w, outstanding_tx = 0, chan = ch, pkt_count = 0, sent_count = 0, rprt_ts = 0\<rparr>"
    and link: "link_wf vc ch" and null: "vc = None \<Longrightarrow> use_packet_injection cf \<noteq> 0 \<Longrightarrow> link_fails env"
    and home: "\<And>v. vc = Some v \<Longrightarrow> at_home v ch \<or> link_moved env"
  shows "blamed cf env (run_engine cf env vc ch udp w evs)"
proof -
  let ?s = "\<lparr>world = w, outstanding_tx = 0, chan = ch, pkt_count = 0, sent_count = 0, rprt_ts = 0\<rparr>"
  let ?pump = "pump_packets cf (with_socket env udp) vc (vm_compiles env) (start_time env) (turns_seen env) ?s"
  obtain ret res where e: "setup_ubpf_engine (files env) (vm_sys env) (ebpf_program_path cf) = (ret, res)"
    by (metis surj_pair)
  note down = teardown2_blamed [OF path null]
  show ?thesis
  proof (cases res)
    case None
    then show ?thesis using down by (simp add: run_engine_def e)
  next
    case (Some vm)
    have ret: "ret = 0" using setup_engine_result [OF e] Some by simp
    have launch: "blamed cf env (launch_userspace_maps_server (user_maps env) vm)"
    proof (cases "launch_userspace_maps_server (user_maps env) vm")
      case (Inl x)
      then have "x = AssertFail" by (rule launch_Inl)
      then show ?thesis using e Some ret Inl by (simp add: blamed_def blame_def)
    qed simp
    have "holds view base vc (link_fault vc ch) 0 0 ?s" using start link by (simp add: holds_def)
    from pump_packets_inv [OF with_socket_laws [OF ok] this]
    have run: "run_ok cf (with_socket env udp) (link_fault vc ch) (\<lambda>(_, s). holds view base vc (link_fault vc ch) 0 0 s) ?pump" .
    have pump: "blamed cf env ?pump"
    proof (cases ?pump)
      case (Inl x)
      then show ?thesis using run null home
        by (cases vc) (auto simp: run_ok_def blamed_def blame_def link_fault_def split: if_splits)
    qed simp
    show ?thesis
      unfolding run_engine_def e Some prod.case option.case
    proof (rule blamed_bind [OF launch], rule blamed_bind [OF pump])
      fix x y
      show "blamed cf env (case y of (left, s) \<Rightarrow> let evs = evs @ [EngineUp ret, ServerUp] in
          if left then teardown2 cf env vc (chan s) udp (evs @ [Pumped, EngineDown]) else Inr (Running evs))"
        using down by (auto simp: Let_def split: prod.split)
    qed
  qed
qed

lemma run_delivery_blamed:
  assumes path: "loads_kern_prog cf = Inr l" and ok: "main_env_ok env view" and start: "\<And>ch. heart_inv view base
      \<lparr>world = w, outstanding_tx = 0, chan = ch, pkt_count = 0, sent_count = 0, rprt_ts = 0\<rparr>"
  shows "blamed cf env (run_delivery cf env w evs)"
proof (cases "use_packet_injection cf \<noteq> 0")
  case True
  from ok show ?thesis
  proof (cases rule: setup_link_cases)
    case 1
    then show ?thesis using True run_engine_blamed [OF path ok start link_simps(2)]
      by (auto simp: run_delivery_def)
  next
    case (2 vc ch ev)
    then show ?thesis using True run_engine_blamed [OF path ok start 2(2)] by (simp add: run_delivery_def)
  qed
next
  case False
  then show ?thesis using run_engine_blamed [OF path ok start link_simps(2)]
    by (simp add: run_delivery_def split: prod.split)
qed

lemma run_maps_blamed:
  assumes path: "loads_kern_prog cf = Inr l" and ok: "main_env_ok env view" and start: "\<And>ch. heart_inv view base
      \<lparr>world = w, outstanding_tx = 0, chan = ch, pkt_count = 0, sent_count = 0, rprt_ts = 0\<rparr>"
  shows "blamed cf env (run_maps cf env w evs)"
proof -
  let ?m = "setup_map_system (map_sys env) (if count_maps cf = 0 then default_maps else maps cf) empty_tables"
  have m: "blamed cf env ?m"
  proof (cases ?m)
    case (Inl x)
    then have "x = OutOfBounds" by (rule setup_maps_Inl)
    then show ?thesis using Inl setup_maps_overflow [OF Inl] by (simp add: blamed_def blame_def)
  qed simp
  have step: "blamed cf env (let evs = evs @ [MapsUp ret] in
       if ret \<noteq> 0 then teardown cf env True evs
       else if custom_kern_prog cf \<noteq> 0 then
         (case enter_xsks_into_map (bpf_update env) t (xsk_fd env) (sint (qid cf)) w of (ret, w) \<Rightarrow>
            if ret \<noteq> 0 then teardown cf env True (evs @ [XskEntered ret])
            else run_delivery cf env w (evs @ [XskEntered ret]))
       else run_delivery cf env w evs)" for ret t
  proof -
    obtain x w' where e: "enter_xsks_into_map (bpf_update env) t (xsk_fd env) (sint (qid cf)) w = (x, w')"
      by (metis surj_pair)
    have "view w' = view w"
      using e ok by (auto simp: enter_xsks_into_map_def ubpf_map_update_elem_kern_def main_env_ok_def Let_def
          split: if_splits)
    then have "heart_inv view base
        \<lparr>world = w', outstanding_tx = 0, chan = ch, pkt_count = 0, sent_count = 0, rprt_ts = 0\<rparr>" for ch
      using start [of ch] by (simp add: heart_inv_def)
    from run_delivery_blamed [OF path ok this] run_delivery_blamed [OF path ok start]
    show ?thesis by (simp add: e Let_def teardown_blamed [OF path])
  qed
  show ?thesis unfolding run_maps_def by (rule blamed_bind [OF m]) (use step in \<open>simp split: prod.split\<close>)
qed

lemma run_configured_blamed:
  assumes path: "loads_kern_prog cf = Inr l" and ok: "main_env_ok env view"
  shows "blamed cf env (run_configured cf env)"
proof -
  let ?load = "if l then [XdpLoad (load_xdp_program cf (xdp env))] else []"
  let ?run = "\<lambda>(xsk, w). if \<not> xsk then teardown cf env False ?load else run_maps cf env w (?load @ [SocketUp])"
  let ?made = "setup_socket cf (sock env) (rings_api env) (ifname cf) (qid cf) (first_world env)"
  have env: "xsk_laws (rings_api env) view" "env_keeps (sock env) view" "view (first_world env) = empty_view"
    using ok by (simp_all add: main_env_ok_def)
  have lim: "blamed cf env (setRlimit (rlimit_ok env))" by (simp add: setRlimit_def c_check_def blamed_def blame_def)
  have up: "blamed cf env ?made"
    by (auto simp: blamed_def blame_def dest: setup_socket_exits split: sum.split)
  have "blamed cf env (?run x)" if x: "?made = Inr x" for x
  proof -
    obtain xsk w where w: "x = (xsk, w)" by (metis surj_pair)
    show ?thesis
    proof (cases xsk)
      case False
      have "?made = Inr (False, w)" using x w False by simp
      from setup_socket_null [OF this] show ?thesis by (auto simp: w False teardown_returns path blamed_def blame_def)
    next
      case True
      have "?made = Inr (True, w)" using x w True by simp
      from setup_socket_view [OF env this]
      have "heart_inv view (unat (rx_size cf * 2))
          \<lparr>world = w, outstanding_tx = 0, chan = ch, pkt_count = 0, sent_count = 0, rprt_ts = 0\<rparr>" for ch
        by (simp add: heart_inv_def)
      from run_maps_blamed [OF path ok this] show ?thesis by (simp add: w True)
    qed
  qed
  from blamed_bind [OF up this] show ?thesis
    unfolding run_configured_def Let_def path c_bind_simps by (intro blamed_bind [OF lim]) simp
qed

section \<open>Properties\<close>

text \<open>The events of the tear down.\<close>

fun torn_down :: "main_event \<Rightarrow> bool" where
  "torn_down EngineDown = True" | "torn_down LinkDown = True" | "torn_down (UdpDown fd) = True"
| "torn_down (XdpUnlink r) = True" | "torn_down SocketDown = True" | "torn_down _ = False"

lemma middle_torn_down:
  assumes "middle_events cf env l"
  shows "filter torn_down l = (if ServerUp \<in> set l then [EngineDown] else []) @
      (if LinkUp 0 \<in> set l then [LinkDown]
       else if \<exists>r. UdpUp r \<in> set l then [UdpDown (socket_fd (snd (raw_socket env)))] else [])"
    and "\<forall>r. LinkUp r \<in> set l \<longrightarrow> r = 0" and "\<forall>r. UdpUp r \<in> set l \<longrightarrow> r = fst (raw_socket env)"
    and "SocketUp \<notin> set l" and "\<forall>r. XdpLoad r \<notin> set l"
  using assms by (auto simp: middle_events_def delivery_events_def engine_events_def split: if_splits)

text \<open>C12: what a run that returns has torn down. It returns -1 only when the core affinity cannot be
  set, before anything is set up and with nothing torn down. Otherwise the exit status is 0, also when
  a step failed, and the socket was made. Then these are torn down, once each and in this order: the
  engine, if its maps were filled; the link, if it was set up (a run with a link that could not be set
  up does not return), or the raw socket, if setting it up was tried; the packet program on the
  interface, if loading it was tried; the socket. Two of these do not ask for a success: after a
  failed set up of the raw socket the descriptor 0 is closed, which was never opened; and the packet
  program is removed also when another program was found attached and nothing was loaded.\<close>

theorem main_cleans_up:
  assumes "servant_main env opts rest = Inr (Returned code evs)"
  shows "\<exists>cf. parse_args (if_index env) opts rest = Inr cf \<and>
    (code = -1 \<and> evs = [] \<and> 0 \<le> core cf \<and> set_affinity env (core cf) \<noteq> 0 \<or>
     code = 0 \<and> SocketUp \<in> set evs \<and> last evs = SocketDown \<and>
     filter torn_down evs =
       (if ServerUp \<in> set evs then [EngineDown] else []) @
       (if LinkUp 0 \<in> set evs then [LinkDown]
        else if UdpUp 0 \<in> set evs then [UdpDown (fst (udp_results env))]
        else if UdpUp (-1) \<in> set evs then [UdpDown 0] else []) @
       (if XdpLoad (load_xdp_program cf (xdp env)) \<in> set evs
        then [XdpUnlink (set_link_xdp_fd (xdp env) (-1) (xdp_flags cf))] else []) @ [SocketDown] \<and>
     (\<forall>r. LinkUp r \<in> set evs \<longrightarrow> r = 0) \<and> (\<forall>r. UdpUp r \<in> set evs \<longrightarrow> r \<in> {0, -1}))"
proof -
  obtain cf where cf: "parse_args (if_index env) opts rest = Inr cf" "run_configured cf env = Inr (Returned code evs)"
    using assms by (auto simp: servant_main_def c_bind_Inr_iff)
  have udp: "raw_socket env = (0, s) \<Longrightarrow> socket_fd s = fst (udp_results env)"
    "raw_socket env = (-1, s) \<Longrightarrow> socket_fd s = 0" "fst (raw_socket env) \<in> {0, -1}" for s
    by (auto simp: setup_udp_socket_def udp_start_def Let_def split: if_splits)
  from run_configured_returns [OF cf(2)] show ?thesis
  proof (elim disjE conjE exE)
    fix r more
    assume code: "code = 0" and evs: "evs = load_events cf env @ [SocketUp, MapsUp r] @ more @ last_events cf env"
      and more: "middle_events cf env more"
    note mid = middle_torn_down [OF more]
    have up: "LinkUp q \<in> set evs \<longleftrightarrow> LinkUp q \<in> set more" "UdpUp q \<in> set evs \<longleftrightarrow> UdpUp q \<in> set more"
      "ServerUp \<in> set evs \<longleftrightarrow> ServerUp \<in> set more" "XdpLoad (load_xdp_program cf (xdp env)) \<in> set evs \<longleftrightarrow> loads cf" for q
      using mid(5) by (auto simp: evs last_events_def)
    have raw: "(if \<exists>r. UdpUp r \<in> set more then [UdpDown (socket_fd (snd (raw_socket env)))] else []) =
        (if UdpUp 0 \<in> set more then [UdpDown (fst (udp_results env))]
         else if UdpUp (-1) \<in> set more then [UdpDown 0] else [])"
      using mid(3) udp by (cases "raw_socket env") auto
    have "filter torn_down evs = filter torn_down more @ last_events cf env"
      by (simp add: evs last_events_def)
    then show ?thesis using code cf(1) mid(1,2,3) udp(3)
      by (intro exI [of _ cf] conjI disjI2) (use mid(5) in \<open>auto simp: up raw mid(1) last_events_def evs\<close>)
  qed (use cf(1) in blast)
qed

text \<open>A system for the witnesses: no map in the kernel, a two-byte program whose maps are there, the
  rings of the demonstration, and a signal before the first turn.\<close>

definition plain_vm :: "'vm \<Rightarrow> 'vm vm_env" where
  "plain_vm start = \<lparr>vm_create = Some start, vm_register = (\<lambda>_ _ vm. vm), vm_set_unwind = (\<lambda>_ vm. vm),
     vm_bounds_check = (\<lambda>_ vm. vm), vm_load_elf = (\<lambda>_ vm. (0, vm)), vm_load = (\<lambda>_ vm. (0, vm))\<rparr>"

definition demo_main :: "(demo_world, ((string \<times> map_obj) \<times> map_obj) list, string) main_env" where
  "demo_main = \<lparr>if_index = (\<lambda>_. 2), rlimit_ok = True, set_affinity = (\<lambda>_. 0),
     xdp = \<lparr>link_xdp_id = (0, 7), prog_load = (0, 5), set_link_xdp_fd = (\<lambda>_ _. 0)\<rparr>, sock = demo_sock,
     rings_api = demo_api DROP, first_world = demo_rings, map_sys = demo_env [],
     bpf_update = (\<lambda>_ _ _ _ w. (0, w)), xsk_fd = 9, link_env = first_env, udp_results = (4, 1),
     raw_sendto = (\<lambda>_ b _ _ w. (int (length b), w)), files = (\<lambda>_. Some (plain_file [5, 6])),
     vm_sys = plain_vm [], user_maps = demo_maps [''vip_map'', ''ch_rings'', ''reals''],
     vm_compiles = True, start_time = 0, turns_seen = [(True, 0)], ch_field_addr = 0, leave_munmap = 0\<rparr>"

definition demo_opts :: "cli_opt list" where "demo_opts = [RX_SIZE ''2'', TX_SIZE ''2'']"
definition demo_rest :: "string list" where "demo_rest = [''eth0'', ''0'', ''p.o'']"

definition args_config :: config where
  "args_config = small_config\<lparr>ifname := ''eth0'', ifindex := 2, qid := 0, ebpf_program_path := ''p.o''\<rparr>"

lemma demo_parse: "parse_args (if_index demo_main) demo_opts demo_rest = Inr args_config"
proof -
  have n: "atoi ''2'' = 2" "atoi ''0'' = 0" by (simp_all add: atoi_int int_text_def digit_val_def)
  show ?thesis
    by (simp add: parse_args_def finish_args_def demo_opts_def demo_rest_def n REQUIRED_ARGUMENTS_def default_config_def
        XDP_FLAGS_DRV_MODE_def XDP_ZEROCOPY_def args_config_def small_config_def demo_main_def)
qed

lemma args_config_simps [simp]:
  "count_maps args_config = 0" "custom_kern_prog args_config = 0" "use_packet_injection args_config = 0"
  "loads_kern_prog args_config = Inr False" "core args_config = -1"
  by (simp_all add: args_config_def small_config_def default_config_def loads_kern_prog_def)

lemma demo_setup_udp: "\<exists>udp. setup_udp_socket 4 1 udp_start = (0, udp) \<and> socket_fd udp = 4"
  by (simp add: setup_udp_socket_def Let_def)

lemma demo_engine:
  "setup_ubpf_engine (\<lambda>_. Some (plain_file [5, 6])) (plain_vm vm) path = (0, Some vm)"
proof -
  have "fold (\<lambda>(i, h) vm. vm) l vm = vm" for l :: "(nat \<times> helper) list" by (induction l) auto
  then show ?thesis
    by (simp add: setup_ubpf_engine_def readfile_plain [of _ _ "[5, 6]"] MAX_CODE_SIZE_def plain_vm_def Let_def
        case_prod_unfold)
qed

lemma demo_launch: "\<exists>vm. launch_userspace_maps_server (demo_maps [''vip_map'', ''ch_rings'', ''reals'']) [] = Inr (0, vm)"
  by (simp add: launch_userspace_maps_server_def configure_katran_maps_def put_entry_def demo_maps_def)

lemma demo_run_maps: "run_maps args_config demo_main w evs = Inr (Returned 0
   (evs @ [MapsUp 0, UdpUp 0, EngineUp 0, ServerUp, Pumped, EngineDown, UdpDown 4, SocketDown]))"
proof -
  have m: "setup_map_system (map_sys demo_main) default_maps empty_tables = Inr (0, empty_tables)"
    by (simp add: demo_main_def setup_map_system_def default_maps_def MAX_NR_MAPS_def)
  obtain udp where u: "setup_udp_socket (fst (udp_results demo_main)) (snd (udp_results demo_main)) udp_start = (0, udp)"
    "socket_fd udp = 4" using demo_setup_udp by (auto simp: demo_main_def)
  obtain vm where l: "launch_userspace_maps_server (user_maps demo_main) [] = Inr (0, vm)"
    using demo_launch by (auto simp: demo_main_def)
  have e: "setup_ubpf_engine (files demo_main) (vm_sys demo_main) p = (0, Some [])" for p
    by (simp add: demo_main_def demo_engine)
  have "vm_compiles demo_main" "turns_seen demo_main = [(True, 0)]" by (simp_all add: demo_main_def)
  then show ?thesis
    by (simp add: run_maps_def m run_delivery_def u run_engine_def e l pump_packets_def Let_def
        teardown2_returns teardown_returns last_events_def)
qed

lemma demo_main_simps [simp]:
  "rlimit_ok demo_main" "sock demo_main = demo_sock" "rings_api demo_main = demo_api DROP"
  "first_world demo_main = demo_rings" "set_affinity demo_main n = 0" "link_env demo_main = first_env"
  "raw_sendto demo_main fd b f a w = (int (length b), w)" "bpf_update demo_main fd k v f' w = (0, w)"
  by (simp_all add: demo_main_def)

lemma demo_args_setup:
  "\<exists>w'. \<forall>i q. setup_socket args_config demo_sock (demo_api DROP) i q demo_rings = Inr (True, w')"
proof -
  have "unat (rx_size args_config * 2) = 4" "rx_size args_config * 2 = 4" "busy_poll args_config = 0"
    by (simp_all add: args_config_def small_config_def default_config_def)
  then show ?thesis
    by (simp add: setup_socket_def demo_sock_def demo_reserve_def demo_rings_def Let_def apply_options_def)
qed

lemma demo_servant: "servant_main demo_main demo_opts demo_rest = Inr (Returned 0
   [SocketUp, MapsUp 0, UdpUp 0, EngineUp 0, ServerUp, Pumped, EngineDown, UdpDown 4, SocketDown])"
proof -
  obtain w' where "\<forall>i q. setup_socket args_config demo_sock (demo_api DROP) i q demo_rings = Inr (True, w')"
    using demo_args_setup by blast
  then show ?thesis by (simp add: servant_main_def demo_parse run_configured_def setRlimit_def demo_run_maps)
qed

theorem main_cleans_up_witness:
  "servant_main demo_main demo_opts demo_rest = Inr (Returned 0
     [SocketUp, MapsUp 0, UdpUp 0, EngineUp 0, ServerUp, Pumped, EngineDown, UdpDown 4, SocketDown]) \<and>
   filter torn_down [SocketUp, MapsUp 0, UdpUp 0, EngineUp 0, ServerUp, Pumped, EngineDown, UdpDown 4, SocketDown] =
     [EngineDown, UdpDown (fst (udp_results demo_main)), SocketDown]"
  using main_cleans_up [OF demo_servant] demo_servant demo_parse by auto

text \<open>When the packet memory cannot be mapped, or a socket option is refused after the socket was
  made, the clean up dereferences the null pointer to the socket.\<close>

theorem main_null_socket:
  assumes "parse_args (if_index env) opts rest = Inr cf"
    and "rlimit_ok env" and "core cf < 0 \<or> set_affinity env (core cf) = 0"
    and "setup_socket cf (sock env) (rings_api env) (ifname cf) (qid cf) (first_world env) = Inr (False, w)"
  shows "servant_main env opts rest = Inl NullDeref \<and>
    (\<not> mmap_huge (sock env) (umem_size cf) \<or> \<not> apply_options cf (sock env))"
proof -
  obtain l where "loads_kern_prog cf = Inr l" using kern_path_set [OF assms(1)] .
  then show ?thesis using assms setup_socket_null [OF assms(4)]
    by (auto simp: servant_main_def run_configured_def setRlimit_def teardown_returns Let_def)
qed

definition no_pages :: "demo_world sock_env" where "no_pages = demo_sock\<lparr>mmap_huge := (\<lambda>_. False)\<rparr>"

lemma no_pages_setup: "setup_socket args_config no_pages api i q w = Inr (False, w)"
  by (simp add: setup_socket_def no_pages_def demo_sock_def)

lemma no_pages_parse: "parse_args (if_index (demo_main\<lparr>sock := no_pages\<rparr>)) demo_opts demo_rest = Inr args_config"
  using demo_parse by simp

theorem main_null_socket_witness: "servant_main (demo_main\<lparr>sock := no_pages\<rparr>) demo_opts demo_rest = Inl NullDeref"
  using main_null_socket [OF no_pages_parse, of demo_rings] no_pages_setup by simp

text \<open>C2: how the whole program, from its command line on, can end early, when the library's rings keep
  their contract and the region of the link, if it exists when it is attached, is well-formed. It is
  one of these, each with its cause. On the command line: exit 0 after the help option; exit 1 after
  an unknown option or with fewer than three arguments; an eleventh map name stored behind its array;
  the conversion of the logarithm of a frame size of 0. After it: exit 1 when the memory limit is
  refused, when a step of the socket's set up fails, or in copy mode when a wakeup fails; a null
  pointer when there is no socket to clean up or the link was not set up; a wild pointer when the
  link's region is mapped at another address than its maker's; an index behind the map tables, when a
  position outside is requested or the kernel's maps match the requests more than 16 times; and a
  failed assertion, when the program's maps cannot be filled or when it passes a packet of 1500 bytes
  or more over the link. Nothing else goes wrong in any number of turns.\<close>

theorem main_failures:
  assumes "main_env_ok env view" and "servant_main env opts rest = Inl e"
  shows "args_blame opts rest e \<or> (\<exists>cf. parse_args (if_index env) opts rest = Inr cf \<and> blame cf env e)"
proof (cases "parse_args (if_index env) opts rest")
  case (Inl x)
  then show ?thesis using assms(2) parse_args_blamed [OF Inl] by (simp add: servant_main_def)
next
  case (Inr cf)
  obtain l where "loads_kern_prog cf = Inr l" using kern_path_set [OF Inr] .
  from run_configured_blamed [OF this assms(1)] show ?thesis
    using assms(2) Inr by (simp add: servant_main_def blamed_def)
qed

lemma demo_env_ok: "main_env_ok (demo_main\<lparr>sock := no_pages\<rparr>) dview"
  using demo_laws demo_sock_keeps demo_channel_wf
  by (simp add: main_env_ok_def env_keeps_def no_pages_def demo_rings_def first_env_def demo_channel_def [THEN arg_cong, of connected])

theorem main_failures_witness:
  "blame args_config (demo_main\<lparr>sock := no_pages\<rparr>) NullDeref \<and> args_blame [CORE ''1'', HELP] [] (Exit 0)"
proof -
  let ?env = "demo_main\<lparr>sock := no_pages\<rparr>"
  have "servant_main ?env demo_opts demo_rest = Inl NullDeref"
    by (simp add: servant_main_def demo_parse run_configured_def setRlimit_def no_pages_setup teardown_returns)
  from main_failures [OF demo_env_ok this] have "blame args_config ?env NullDeref"
    using demo_parse by (auto simp: args_blame_def)
  moreover have "servant_main ?env [CORE ''1'', HELP] [] = Inl (Exit 0)"
    "parse_args (if_index ?env) [CORE ''1'', HELP] [] = Inl (Exit 0)"
    by (simp_all add: servant_main_def parse_args_def Let_def)
  then have "args_blame [CORE ''1'', HELP] [] (Exit 0)" using main_failures [OF demo_env_ok] by (metis sum.distinct(1))
  ultimately show ?thesis ..
qed

end
