(* ===== verification/PacketBytes.thy ===== *)
theory PacketBytes
  imports Servant_Prelude
begin
text \<open>
  Bytes in packet memory, as the packet programs access them: checked reads and writes at an offset,
  fields of two and four bytes in the machine's order, and the swap of two fields.
\<close>

named_theorems byte_simps \<open>evaluation of reads and writes that stay inside the memory\<close>

section \<open>Reading and writing\<close>

text \<open>An access outside the memory is an error; offsets are differences of pointers.\<close>

definition peek :: "nat \<Rightarrow> int \<Rightarrow> u8 list \<Rightarrow> u8 list c_result" where
  "peek n off m =
     c_check (0 \<le> off \<and> off + int n \<le> int (length m)) OutOfBounds (Inr (take n (drop (nat off) m)))"

definition poke :: "int \<Rightarrow> u8 list \<Rightarrow> u8 list \<Rightarrow> u8 list c_result" where
  "poke off bs m =
     c_check (0 \<le> off \<and> off + int (length bs) \<le> int (length m)) OutOfBounds
       (Inr (take (nat off) m @ bs @ drop (nat off + length bs) m))"

text \<open>The same on naturals, for accesses that are inside.\<close>

definition chunk :: "nat \<Rightarrow> nat \<Rightarrow> u8 list \<Rightarrow> u8 list" where "chunk n a m = take n (drop a m)"

definition overwrite :: "nat \<Rightarrow> u8 list \<Rightarrow> u8 list \<Rightarrow> u8 list" where
  "overwrite a bs m = take a m @ bs @ drop (a + length bs) m"

lemma peek_inside [byte_simps]:
  "0 \<le> off \<Longrightarrow> off + int n \<le> int (length m) \<Longrightarrow> peek n off m = Inr (chunk n (nat off) m)"
  by (simp add: peek_def chunk_def)

lemma poke_inside [byte_simps]:
  "0 \<le> off \<Longrightarrow> off + int (length bs) \<le> int (length m) \<Longrightarrow> poke off bs m = Inr (overwrite (nat off) bs m)"
  by (simp add: poke_def overwrite_def)

lemma nat_int_plus [simp]: "nat (int d + numeral k) = d + numeral k" "nat (numeral k + int d) = d + numeral k"
  by (simp_all add: nat_add_distrib)

lemma peek_outside: "off < 0 \<or> int (length m) < off + int n \<Longrightarrow> peek n off m = Inl OutOfBounds"
  by (auto simp: peek_def c_check_def)

lemma length_chunk [simp]: "a + n \<le> length m \<Longrightarrow> length (chunk n a m) = n"
  by (simp add: chunk_def)

lemma nth_chunk [simp]: "i < n \<Longrightarrow> a + n \<le> length m \<Longrightarrow> chunk n a m ! i = m ! (a + i)"
  by (simp add: chunk_def)

lemma length_overwrite [simp]: "a + length bs \<le> length m \<Longrightarrow> length (overwrite a bs m) = length m"
  by (simp add: overwrite_def)

lemma nth_overwrite:
  "a + length bs \<le> length m \<Longrightarrow> i < length m \<Longrightarrow>
    overwrite a bs m ! i = (if a \<le> i \<and> i < a + length bs then bs ! (i - a) else m ! i)"
  by (auto simp: overwrite_def nth_append)

text \<open>Two slices agree when their bytes do.\<close>

lemma chunk_cong:
  "length m = length m' \<Longrightarrow> (\<And>i. a \<le> i \<Longrightarrow> i < a + n \<Longrightarrow> m ! i = m' ! i) \<Longrightarrow> a + n \<le> length m' \<Longrightarrow>
    chunk n a m = chunk n a m'"
  by (rule nth_equalityI) simp_all

lemma chunk_overwrite_same: "a + length bs \<le> length m \<Longrightarrow> n = length bs \<Longrightarrow> chunk n a (overwrite a bs m) = bs"
  by (simp add: chunk_def overwrite_def)

lemma chunk_overwrite_other:
  "a + length bs \<le> length m \<Longrightarrow> b + n \<le> length m \<Longrightarrow> b + n \<le> a \<or> a + length bs \<le> b \<Longrightarrow>
    chunk n b (overwrite a bs m) = chunk n b m"
  by (rule chunk_cong) (auto simp: nth_overwrite)

section \<open>Fields\<close>

definition load16 :: "u8 list \<Rightarrow> u16" where
  "load16 bs = ucast (bs ! 0) OR push_bit 8 (ucast (bs ! 1))"

definition store16 :: "u16 \<Rightarrow> u8 list" where
  "store16 w = [ucast w, ucast (drop_bit 8 w)]"

definition load32 :: "u8 list \<Rightarrow> u32" where
  "load32 bs = ucast (bs ! 0) OR push_bit 8 (ucast (bs ! 1)) OR push_bit 16 (ucast (bs ! 2)) OR
     push_bit 24 (ucast (bs ! 3))"

definition store32 :: "u32 \<Rightarrow> u8 list" where
  "store32 w = [ucast w, ucast (drop_bit 8 w), ucast (drop_bit 16 w), ucast (drop_bit 24 w)]"

text \<open>A field in network order.\<close>

definition load16_be :: "u8 list \<Rightarrow> u16" where "load16_be bs = load16 (rev (take 2 bs))"
definition store16_be :: "u16 \<Rightarrow> u8 list" where "store16_be w = rev (store16 w)"

lemma length_store [simp]: "length (store16 w) = 2" "length (store32 v) = 4" "length (store16_be w) = 2"
  by (simp_all add: store16_def store32_def store16_be_def)

lemma load16_store16 [simp]: "load16 (store16 w) = w"
proof (rule bit_word_eqI)
  fix n assume "n < LENGTH(16)"
  then show "bit (load16 (store16 w)) n \<longleftrightarrow> bit w n" by (auto simp: load16_def store16_def bit_simps)
qed

lemma store16_load16: "length bs = 2 \<Longrightarrow> store16 (load16 bs) = bs"
proof -
  assume "length bs = 2"
  then obtain a b where bs: "bs = [a, b]" by (metis (no_types) One_nat_def Suc_1 length_0_conv length_Suc_conv)
  have "ucast (ucast a OR push_bit 8 (ucast b) :: u16) = a" by (rule bit_word_eqI) (auto simp: bit_simps)
  moreover have "ucast (drop_bit 8 (ucast a OR push_bit 8 (ucast b) :: u16)) = b"
    by (rule bit_word_eqI) (auto simp: bit_simps dest: bit_imp_le_length)
  ultimately show "store16 (load16 bs) = bs" by (simp add: bs load16_def store16_def)
qed

lemma load16_be_store [simp]: "load16_be (store16_be w) = w"
  by (simp add: load16_be_def store16_be_def)

lemma load32_store32 [simp]: "load32 (store32 w) = w"
proof (rule bit_word_eqI)
  fix n assume n: "n < LENGTH(32)"
  have "n < 8 \<or> 8 \<le> n \<and> n < 16 \<or> 16 \<le> n \<and> n < 24 \<or> 24 \<le> n" by linarith
  then show "bit (load32 (store32 w)) n \<longleftrightarrow> bit w n"
    using n by (elim disjE) (auto simp: load32_def store32_def bit_simps)
qed

section \<open>Swapping two fields\<close>

text \<open>Through a temporary, and byte by byte.\<close>

definition swap_field :: "nat \<Rightarrow> int \<Rightarrow> int \<Rightarrow> u8 list \<Rightarrow> u8 list c_result" where
  "swap_field n a b m =
     c_bind (peek n a m) (\<lambda>tmp. c_bind (peek n b m) (\<lambda>x. c_bind (poke a x m) (poke b tmp)))"

fun swap_loop :: "nat \<Rightarrow> int \<Rightarrow> int \<Rightarrow> u8 list \<Rightarrow> u8 list c_result" where
  "swap_loop 0 a b m = Inr m"
| "swap_loop (Suc n) a b m = c_bind (swap_field 1 a b m) (swap_loop n (a + 1) (b + 1))"

definition swapped :: "nat \<Rightarrow> nat \<Rightarrow> nat \<Rightarrow> u8 list \<Rightarrow> u8 list" where
  "swapped n a b m = overwrite b (chunk n a m) (overwrite a (chunk n b m) m)"

lemma length_swapped [simp]: "a + n \<le> length m \<Longrightarrow> b + n \<le> length m \<Longrightarrow> length (swapped n a b m) = length m"
  by (simp add: swapped_def)

text \<open>The byte that position \<open>i\<close> gets, and the positions that change.\<close>

definition partner :: "nat \<Rightarrow> nat \<Rightarrow> nat \<Rightarrow> nat \<Rightarrow> nat" where
  "partner n a b i = (if a \<le> i \<and> i < a + n then b + (i - a) else if b \<le> i \<and> i < b + n then a + (i - b) else i)"

definition both :: "nat \<Rightarrow> nat \<Rightarrow> nat \<Rightarrow> nat set" where "both n a b = {a..<a + n} \<union> {b..<b + n}"

lemma partner_cases:
  "i \<in> both n a b \<Longrightarrow> partner n a b i \<in> both n a b" "i \<notin> both n a b \<Longrightarrow> partner n a b i = i"
  by (auto simp: both_def partner_def)

lemma partner_twice: "a + n \<le> b \<or> b + n \<le> a \<Longrightarrow> partner n a b (partner n a b i) = i"
  by (auto simp: partner_def)

lemma partner_less: "a + n \<le> l \<Longrightarrow> b + n \<le> l \<Longrightarrow> i < l \<Longrightarrow> partner n a b i < l"
  by (auto simp: partner_def)

lemma nth_swapped:
  "a + n \<le> length m \<Longrightarrow> b + n \<le> length m \<Longrightarrow> a + n \<le> b \<or> b + n \<le> a \<Longrightarrow> i < length m \<Longrightarrow>
    swapped n a b m ! i = m ! partner n a b i"
  by (auto simp: swapped_def nth_overwrite partner_def)

lemma swapped_twice:
  "a + n \<le> length m \<Longrightarrow> b + n \<le> length m \<Longrightarrow> a + n \<le> b \<or> b + n \<le> a \<Longrightarrow> swapped n a b (swapped n a b m) = m"
  by (rule nth_equalityI) (simp_all add: nth_swapped partner_less partner_twice)

lemma swapped_commute:
  assumes "a + n \<le> length m" "b + n \<le> length m" "a + n \<le> b \<or> b + n \<le> a"
    and "c + k \<le> length m" "d + k \<le> length m" "c + k \<le> d \<or> d + k \<le> c"
    and "both n a b \<inter> both k c d = {}"
  shows "swapped n a b (swapped k c d m) = swapped k c d (swapped n a b m)"
proof (rule nth_equalityI)
  fix i assume "i < length (swapped n a b (swapped k c d m))"
  moreover have "partner k c d (partner n a b i) = partner n a b (partner k c d i)"
    using partner_cases [of i n a b] partner_cases [of i k c d] partner_cases [of "partner n a b i" k c d]
      partner_cases [of "partner k c d i" n a b] assms(7)
    by (metis disjoint_iff)
  ultimately show "swapped n a b (swapped k c d m) ! i = swapped k c d (swapped n a b m) ! i"
    using assms(1-6) by (simp add: nth_swapped partner_less)
qed (use assms in simp)

lemma swap_field_inside [byte_simps]:
  "0 \<le> a \<Longrightarrow> a + int n \<le> int (length m) \<Longrightarrow> 0 \<le> b \<Longrightarrow> b + int n \<le> int (length m) \<Longrightarrow>
    swap_field n a b m = Inr (swapped n (nat a) (nat b) m)"
proof -
  assume a: "0 \<le> a" "a + int n \<le> int (length m)" and b: "0 \<le> b" "b + int n \<le> int (length m)"
  then have "nat a + n \<le> length m" "nat b + n \<le> length m" by linarith+
  then show ?thesis using a b by (simp add: swap_field_def swapped_def peek_inside poke_inside)
qed

lemma partner_Suc:
  assumes "a + Suc n \<le> b \<or> b + Suc n \<le> a"
  shows "partner 1 a b (partner n (Suc a) (Suc b) i) = partner (Suc n) a b i"
proof -
  consider "i = a" | "i = b" | "Suc a \<le> i" "i < Suc a + n" | "Suc b \<le> i" "i < Suc b + n"
    | "\<not> (a \<le> i \<and> i < a + Suc n)" "\<not> (b \<le> i \<and> i < b + Suc n)" by linarith
  then show ?thesis
  proof cases
    case 1
    then have "partner n (Suc a) (Suc b) i = a" using assms by (auto simp: partner_def)
    then show ?thesis using 1 by (simp add: partner_def)
  next
    case 2
    then have "partner n (Suc a) (Suc b) i = b" using assms by (auto simp: partner_def)
    then show ?thesis using 2 assms by (auto simp: partner_def)
  next
    case 3
    then have "partner n (Suc a) (Suc b) i = b + (i - a)" by (auto simp: partner_def)
    then show ?thesis using 3 assms by (auto simp: partner_def)
  next
    case 4
    then have "partner n (Suc a) (Suc b) i = a + (i - b)" using assms by (auto simp: partner_def)
    then show ?thesis using 4 assms by (auto simp: partner_def)
  next
    case 5
    then have "partner n (Suc a) (Suc b) i = i" by (auto simp: partner_def)
    then show ?thesis using 5 by (auto simp: partner_def)
  qed
qed

lemma swap_loop_nat:
  "a + n \<le> length m \<Longrightarrow> b + n \<le> length m \<Longrightarrow> a + n \<le> b \<or> b + n \<le> a \<Longrightarrow>
    swap_loop n (int a) (int b) m = Inr (swapped n a b m)"
proof (induction n arbitrary: a b m)
  case 0
  then show ?case by (simp add: swapped_def chunk_def overwrite_def)
next
  case (Suc n)
  have first: "swap_field 1 (int a) (int b) m = Inr (swapped 1 a b m)"
    using Suc.prems swap_field_inside [of "int a" 1 m "int b"] by simp
  have len: "length (swapped 1 a b m) = length m" using Suc.prems by simp
  have "swap_loop n (int (Suc a)) (int (Suc b)) (swapped 1 a b m) = Inr (swapped n (Suc a) (Suc b) (swapped 1 a b m))"
    using Suc.prems len by (intro Suc.IH) auto
  moreover have "swapped n (Suc a) (Suc b) (swapped 1 a b m) = swapped (Suc n) a b m"
  proof (rule nth_equalityI)
    fix i assume "i < length (swapped n (Suc a) (Suc b) (swapped 1 a b m))"
    then have i: "i < length m" using Suc.prems len by simp
    have ends: "Suc a + n \<le> length m" "Suc b + n \<le> length m" "Suc a + n \<le> Suc b \<or> Suc b + n \<le> Suc a"
      "a + 1 \<le> b \<or> b + 1 \<le> a" using Suc.prems by auto
    have "partner 1 a b (partner n (Suc a) (Suc b) i) = partner (Suc n) a b i" by (rule partner_Suc) fact
    moreover have "swapped n (Suc a) (Suc b) (swapped 1 a b m) ! i = swapped 1 a b m ! partner n (Suc a) (Suc b) i"
      by (rule nth_swapped) (use ends i len in simp_all)
    moreover have "swapped 1 a b m ! partner n (Suc a) (Suc b) i = m ! partner 1 a b (partner n (Suc a) (Suc b) i)"
      by (rule nth_swapped) (use ends partner_less [OF ends(1,2) i] in simp_all)
    moreover have "swapped (Suc n) a b m ! i = m ! partner (Suc n) a b i"
      by (rule nth_swapped) (use Suc.prems i in simp_all)
    ultimately show "swapped n (Suc a) (Suc b) (swapped 1 a b m) ! i = swapped (Suc n) a b m ! i" by simp
  qed (use Suc.prems len in simp)
  ultimately show ?case using first by (simp add: add.commute)
qed

lemma swap_loop_inside [byte_simps]:
  assumes "0 \<le> a" "a + int n \<le> int (length m)" "0 \<le> b" "b + int n \<le> int (length m)" "a + int n \<le> b \<or> b + int n \<le> a"
  shows "swap_loop n a b m = Inr (swapped n (nat a) (nat b) m)"
proof -
  have "nat a + n \<le> length m" "nat b + n \<le> length m" "nat a + n \<le> nat b \<or> nat b + n \<le> nat a" using assms by linarith+
  from swap_loop_nat [OF this] show ?thesis using assms by simp
qed

lemma chunk_swapped:
  assumes "a + n \<le> length m" "b + n \<le> length m" "a + n \<le> b \<or> b + n \<le> a"
  shows "chunk n a (swapped n a b m) = chunk n b m" and "chunk n b (swapped n a b m) = chunk n a m"
  by (rule nth_equalityI, use assms in simp, use assms in \<open>auto simp: nth_swapped partner_def\<close>)+
lemma chunk_swapped_other:
  "a + n \<le> length m \<Longrightarrow> b + n \<le> length m \<Longrightarrow> a + n \<le> b \<or> b + n \<le> a \<Longrightarrow> c + k \<le> length m \<Longrightarrow>
    c + k \<le> a \<or> a + n \<le> c \<Longrightarrow> c + k \<le> b \<or> b + n \<le> c \<Longrightarrow> chunk k c (swapped n a b m) = chunk k c m"
  by (rule chunk_cong) (auto simp: nth_swapped partner_def)

section \<open>Parts of fields\<close>

lemma chunk_of_chunk: "k + n \<le> l \<Longrightarrow> chunk n k (chunk l a m) = chunk n (a + k) m"
  by (simp add: chunk_def drop_take ac_simps)

lemma overwrite_twice: "length bs = length cs \<Longrightarrow> a + length cs \<le> length m \<Longrightarrow> overwrite a bs (overwrite a cs m) = overwrite a bs m"
  by (simp add: overwrite_def)

lemma chunk_overwrite_part:
  "b + n \<le> length bs \<Longrightarrow> a + length bs \<le> length m \<Longrightarrow> chunk n (a + b) (overwrite a bs m) = chunk n b bs"
  by (simp add: chunk_def overwrite_def)

lemma chunk_overwritten_part:
  "a + n \<le> length m \<Longrightarrow> b + length bs \<le> n \<Longrightarrow> chunk n a (overwrite (a + b) bs m) = overwrite b bs (chunk n a m)"
  by (rule nth_equalityI) (auto simp: nth_overwrite)

lemma overwrite_chunk: "a + n \<le> length m \<Longrightarrow> overwrite a (chunk n a m) m = m"
  by (rule nth_equalityI) (auto simp: nth_overwrite)

text \<open>Reading in two parts.\<close>

lemma peek_none: "peek n off m = Inr bs \<Longrightarrow> peek 0 (off + int n) m = Inr []"
  by (auto simp: peek_def c_check_def split: if_splits)

lemma length_peek: "peek n off m = Inr bs \<Longrightarrow> length bs = n"
  by (auto simp: peek_def c_check_def split: if_splits)

lemma take_overwrite: "i + length bs \<le> length dst \<Longrightarrow> take (i + length bs) (overwrite i bs dst) = take i dst @ bs"
  by (simp add: overwrite_def)

lemma peek_add: "peek (a + b) off m = c_bind (peek a off m) (\<lambda>x. c_bind (peek b (off + int a) m) (\<lambda>y. Inr (x @ y)))"
proof (cases "0 \<le> off \<and> off + int (a + b) \<le> int (length m)")
  case True
  then have "nat (off + int a) = nat off + a" by linarith
  then show ?thesis using True by (simp add: peek_def take_add drop_drop ac_simps)
next
  case False
  then show ?thesis by (auto simp: peek_def c_check_def)
qed

end
