(* ===== verification/PacketPrograms.thy ===== *)
theory PacketPrograms
  imports PacketBytes Heart
begin
text \<open>
  The packet programs of the repository that run on the engine (\<open>examples/\<close>), as functions on the
  packet's memory and the context that the runtime hands to them (\<open>struct pktctx\<close> of
  \<open>src/include/packet_context.h\<close>). The memory is the area the packet lies in; pointers are offsets.
\<close>

section \<open>The context\<close>

text \<open>
  \<open>struct pktctx\<close>, the memory it points into, and the counter behind the map \<open>tput\<close>, if a lookup finds
  it.
\<close>

record packet =
  mem :: "u8 list"
  pkt_data :: int
  pkt_end :: int
  pkt_len :: u32
  trim_head :: u32
  tput :: "u32 option"

definition ETH_P_IP :: "u8 list" where "ETH_P_IP = [0x08, 0x00]"
definition PROTO_UDP :: u8 where "PROTO_UDP = 17"

definition out_of_pkt :: "packet \<Rightarrow> int \<Rightarrow> nat \<Rightarrow> bool" where
  "out_of_pkt p ptr n \<longleftrightarrow> ptr + int n > pkt_end p"

definition ADJUST_HEAD_INCREASE :: "int \<Rightarrow> packet \<Rightarrow> packet" where
  "ADJUST_HEAD_INCREASE n p = p\<lparr>trim_head := trim_head p - word_of_int n, pkt_data := pkt_data p - n,
     pkt_len := pkt_len p + word_of_int n\<rparr>"

definition bpf_xdp_adjust_tail :: "int \<Rightarrow> packet \<Rightarrow> packet" where
  "bpf_xdp_adjust_tail n p = p\<lparr>pkt_len := pkt_len p + word_of_int n, pkt_end := pkt_end p + n\<rparr>"

definition INC_TPUT :: "packet \<Rightarrow> packet" where
  "INC_TPUT p = p\<lparr>tput := map_option (\<lambda>v. v + 1) (tput p)\<rparr>"

text \<open>The header length field of the IPv4 header at \<open>ip\<close>, in bytes.\<close>

definition ihl_bytes :: "u8 list \<Rightarrow> int" where
  "ihl_bytes b = 4 * int (unat (b ! 0 AND 15))"

section \<open>Echo\<close>

text \<open>\<open>examples/benchmarks/echo.c\<close>: with checks against the end of the packet.\<close>

definition echo :: "packet \<Rightarrow> (int \<times> packet) c_result" where
  "echo p =
     (let eth = pkt_data p in
      if out_of_pkt p eth 14 then Inr (DROP, p)
      else c_bind (peek 2 (eth + 12) (mem p)) (\<lambda>proto.
      if proto \<noteq> ETH_P_IP then Inr (PASS, p)
      else c_bind (swap_loop 6 (eth + 6) eth (mem p)) (\<lambda>m.
      c_bind (peek 2 (eth + 12) m) (\<lambda>proto.
      if proto \<noteq> ETH_P_IP then Inr (SEND, p\<lparr>mem := m\<rparr>)
      else let ip = eth + 14 in
      if out_of_pkt p ip 20 then Inr (DROP, p\<lparr>mem := m\<rparr>)
      else c_bind (swap_field 4 (ip + 12) (ip + 16) m) (\<lambda>m.
      c_bind (peek 1 (ip + 9) m) (\<lambda>protocol.
      if protocol \<noteq> [PROTO_UDP] then Inr (SEND, p\<lparr>mem := m\<rparr>)
      else c_bind (peek 1 ip m) (\<lambda>b.
        let udp = eth + (14 + ihl_bytes b) in
        if out_of_pkt p udp 8 then Inr (DROP, p\<lparr>mem := m\<rparr>)
        else c_bind (swap_field 2 udp (udp + 2) m) (\<lambda>m. Inr (SEND, p\<lparr>mem := m\<rparr>)))))))))"

text \<open>\<open>examples/dump_packet/ubpf.c\<close>: the same without any check; the output is left out.\<close>

definition dump_packet :: "packet \<Rightarrow> (int \<times> packet) c_result" where
  "dump_packet p =
     (let eth = pkt_data p in
      c_bind (swap_loop 6 (eth + 6) eth (mem p)) (\<lambda>m.
      c_bind (peek 2 (eth + 12) m) (\<lambda>proto.
      if proto = ETH_P_IP then
        let ip = eth + 14 in
        c_bind (swap_field 4 (ip + 12) (ip + 16) m) (\<lambda>m.
        c_bind (peek 1 (ip + 9) m) (\<lambda>protocol.
        if protocol = [PROTO_UDP] then
          c_bind (peek 1 ip m) (\<lambda>b.
          let udp = eth + (14 + ihl_bytes b) in
          c_bind (swap_field 2 udp (udp + 2) m) (\<lambda>m. Inr (SEND, p\<lparr>mem := m\<rparr>)))
        else Inr (SEND, p\<lparr>mem := m\<rparr>)))
      else Inr (SEND, p\<lparr>mem := m\<rparr>))))"

section \<open>What echo does\<close>

text \<open>A packet inside its memory, from byte \<open>d\<close> up to \<open>e\<close>.\<close>

definition packet_at :: "nat \<Rightarrow> nat \<Rightarrow> packet \<Rightarrow> bool" where
  "packet_at d e p \<longleftrightarrow> pkt_data p = int d \<and> pkt_end p = int e \<and> d \<le> e \<and> e \<le> length (mem p)"

text \<open>The stages of the reply.\<close>

definition mac_swapped :: "nat \<Rightarrow> u8 list \<Rightarrow> u8 list" where "mac_swapped d m = swapped 6 (d + 6) d m"
definition ip_swapped :: "nat \<Rightarrow> u8 list \<Rightarrow> u8 list" where "ip_swapped d m = swapped 4 (d + 26) (d + 30) m"

definition udp_at :: "nat \<Rightarrow> u8 list \<Rightarrow> nat" where
  "udp_at d m = d + 14 + 4 * unat (m ! (d + 14) AND 15)"

definition ports_swapped :: "nat \<Rightarrow> u8 list \<Rightarrow> u8 list" where
  "ports_swapped u m = swapped 2 u (u + 2) m"

lemma chunk_one: "a < length m \<Longrightarrow> chunk (Suc 0) a m = [m ! a]"
  by (simp add: chunk_def take_Suc_conv_app_nth Cons_nth_drop_Suc [symmetric])

lemma mac_swapped_facts:
  assumes "d + 14 \<le> length m"
  shows "length (mac_swapped d m) = length m"
    and "i < length m \<Longrightarrow> i < d \<or> d + 12 \<le> i \<Longrightarrow> mac_swapped d m ! i = m ! i"
    and "c + k \<le> length m \<Longrightarrow> d + 12 \<le> c \<Longrightarrow> chunk k c (mac_swapped d m) = chunk k c m"
  using assms by (auto simp: mac_swapped_def nth_swapped partner_def chunk_swapped_other)

lemma ip_swapped_facts:
  assumes "d + 34 \<le> length m"
  shows "length (ip_swapped d m) = length m"
    and "i < length m \<Longrightarrow> i < d + 26 \<or> d + 34 \<le> i \<Longrightarrow> ip_swapped d m ! i = m ! i"
  using assms by (auto simp: ip_swapped_def nth_swapped partner_def)

lemma ports_swapped_facts:
  assumes "u + 4 \<le> length m"
  shows "length (ports_swapped u m) = length m"
    and "i < length m \<Longrightarrow> i < u \<or> u + 4 \<le> i \<Longrightarrow> ports_swapped u m ! i = m ! i"
  using assms by (auto simp: ports_swapped_def nth_swapped partner_def)

lemma echo_result:
  assumes p: "packet_at d e p"
  shows "echo p = Inr (
    let m = mem p; m1 = mac_swapped d m; m2 = ip_swapped d m1; u = udp_at d m in
    if e < d + 14 then (DROP, p)
    else if chunk 2 (d + 12) m \<noteq> ETH_P_IP then (PASS, p)
    else if e < d + 34 then (DROP, p\<lparr>mem := m1\<rparr>)
    else if m ! (d + 23) \<noteq> PROTO_UDP then (SEND, p\<lparr>mem := m2\<rparr>)
    else if e < u + 8 then (DROP, p\<lparr>mem := m2\<rparr>)
    else (SEND, p\<lparr>mem := ports_swapped u m2\<rparr>))"
proof (cases "e < d + 14 \<or> chunk 2 (d + 12) (mem p) \<noteq> ETH_P_IP")
  case True
  then show ?thesis using p
    by (auto simp: echo_def out_of_pkt_def packet_at_def Let_def peek_inside)
next
  case False
  let ?m = "mem p" and ?m1 = "mac_swapped d (mem p)"
  have len: "d + 14 \<le> length ?m" using False p by (simp add: packet_at_def)
  have start: "swap_loop 6 (int d + 6) (int d) ?m = Inr ?m1"
    using len by (simp add: swap_loop_inside mac_swapped_def)
  note m1 = mac_swapped_facts [OF len]
  have proto: "peek 2 (int d + 12) ?m = Inr ETH_P_IP" "peek 2 (int d + 12) ?m1 = Inr ETH_P_IP"
    using False len m1 by (simp_all add: peek_inside)
  have at: "pkt_data p = int d" "pkt_end p = int e" using p by (simp_all add: packet_at_def)
  show ?thesis
  proof (cases "e < d + 34")
    case True
    then show ?thesis using False start proto
      by (simp add: echo_def out_of_pkt_def at Let_def)
  next
    case big: False
    let ?m2 = "ip_swapped d ?m1"
    have len2: "d + 34 \<le> length ?m1" using big p m1(1) by (simp add: packet_at_def)
    note m2 = ip_swapped_facts [OF len2]
    have ip: "swap_field 4 (int d + 14 + 12) (int d + 14 + 16) ?m1 = Inr ?m2"
      using len2 by (simp add: swap_field_inside ip_swapped_def)
    have pr: "peek 1 (int d + 14 + 9) ?m2 = Inr [?m ! (d + 23)]" "peek 1 (int d + 14) ?m2 = Inr [?m ! (d + 14)]"
      using len2 m2 m1 by (simp_all add: peek_inside chunk_one)
    have udp: "int d + (14 + ihl_bytes [?m ! (d + 14)]) = int (udp_at d ?m)"
      by (simp add: ihl_bytes_def udp_at_def)
    have ports: "swap_field 2 (int (udp_at d ?m)) (int (udp_at d ?m) + 2) ?m2 = Inr (ports_swapped (udp_at d ?m) ?m2)"
      if "\<not> e < udp_at d ?m + 8"
      using that p m1(1) m2(1) by (simp add: packet_at_def swap_field_inside ports_swapped_def)
    show ?thesis using False big start proto ip pr ports udp
      by (auto simp: echo_def out_of_pkt_def at Let_def)
  qed
qed

text \<open>A packet that echo answers, and the memory of the answer.\<close>

definition reply_mem :: "nat \<Rightarrow> u8 list \<Rightarrow> u8 list" where
  "reply_mem d m = (let m2 = ip_swapped d (mac_swapped d m) in
     if m ! (d + 23) = PROTO_UDP then ports_swapped (udp_at d m) m2 else m2)"

lemma echo_sends:
  assumes "packet_at d e p" and "echo p = Inr (SEND, p')"
  shows "p' = p\<lparr>mem := reply_mem d (mem p)\<rparr>" and "d + 34 \<le> e" and "chunk 2 (d + 12) (mem p) = ETH_P_IP"
    and "mem p ! (d + 23) = PROTO_UDP \<Longrightarrow> udp_at d (mem p) + 8 \<le> e"
  using assms echo_result [OF assms(1)]
  by (auto simp: Let_def reply_mem_def DROP_def SEND_def PASS_def split: if_splits)

lemma echo_answers:
  assumes "packet_at d e p" and "d + 34 \<le> e" and "chunk 2 (d + 12) (mem p) = ETH_P_IP"
    and "mem p ! (d + 23) = PROTO_UDP \<Longrightarrow> udp_at d (mem p) + 8 \<le> e"
  shows "echo p = Inr (SEND, p\<lparr>mem := reply_mem d (mem p)\<rparr>)"
  using assms by (auto simp: echo_result [OF assms(1)] Let_def reply_mem_def)

text \<open>The three swaps of a regular header are disjoint, so doing them again undoes them.\<close>

lemma reply_facts:
  assumes len: "d + 34 \<le> length m" and udp: "m ! (d + 23) = PROTO_UDP \<Longrightarrow> udp_at d m + 4 \<le> length m"
    and ihl: "m ! (d + 23) = PROTO_UDP \<Longrightarrow> 5 \<le> unat (m ! (d + 14) AND 15)"
  shows "length (reply_mem d m) = length m"
    and "i < length m \<Longrightarrow> d + 12 \<le> i \<Longrightarrow> i < d + 26 \<Longrightarrow> reply_mem d m ! i = m ! i"
    and "reply_mem d (reply_mem d m) = m"
proof -
  have d14: "d + 14 \<le> length m" using len by simp
  note m1 = mac_swapped_facts [OF d14]
  have len1: "d + 34 \<le> length (mac_swapped d m)" using len m1(1) by simp
  note m2 = ip_swapped_facts [OF len1]
  let ?u = "udp_at d m" and ?m2 = "ip_swapped d (mac_swapped d m)"
  have l2: "length ?m2 = length m" by (simp add: m1 m2)
  have far: "d + 34 \<le> ?u" if "m ! (d + 23) = PROTO_UDP" using ihl [OF that] by (simp add: udp_at_def)
  have ports: "length (ports_swapped ?u ?m2) = length m"
    "\<And>i. i < length m \<Longrightarrow> i < ?u \<Longrightarrow> ports_swapped ?u ?m2 ! i = ?m2 ! i" if "m ! (d + 23) = PROTO_UDP"
    using ports_swapped_facts [of ?u ?m2] udp [OF that] l2 by simp_all
  show l: "length (reply_mem d m) = length m" using ports l2 by (simp add: reply_mem_def Let_def)
  have keep: "reply_mem d m ! i = m ! i" if i: "i < length m" "d + 12 \<le> i" "i < d + 26" for i
    using i ports far m1 m2 by (auto simp: reply_mem_def Let_def)
  then show "i < length m \<Longrightarrow> d + 12 \<le> i \<Longrightarrow> i < d + 26 \<Longrightarrow> reply_mem d m ! i = m ! i" by simp
  have same: "reply_mem d m ! (d + 23) = m ! (d + 23)" "udp_at d (reply_mem d m) = ?u"
    using keep [of "d + 23"] keep [of "d + 14"] len by (simp_all add: udp_at_def)
  have sw: "swapped 4 (d + 26) (d + 30) (swapped 6 (d + 6) d x) = swapped 6 (d + 6) d (swapped 4 (d + 26) (d + 30) x)"
    if "length x = length m" for x
    by (rule swapped_commute) (use len that in \<open>auto simp: both_def\<close>)
  have tw: "swapped 6 (d + 6) d (swapped 6 (d + 6) d x) = x"
    "swapped 4 (d + 26) (d + 30) (swapped 4 (d + 26) (d + 30) x) = x" if "length x = length m" for x
    by (rule swapped_twice, use len that in auto)+
  have two: "ip_swapped d (mac_swapped d (ip_swapped d (mac_swapped d x))) = x" if x: "length x = length m" for x
  proof -
    have "length (swapped 6 (d + 6) d x) = length m" using x len by simp
    then show ?thesis unfolding ip_swapped_def mac_swapped_def
      by (simp add: sw [symmetric] x) (simp add: tw x)
  qed
  show "reply_mem d (reply_mem d m) = m"
  proof (cases "m ! (d + 23) = PROTO_UDP")
    case False
    then have "reply_mem d (reply_mem d m) = ip_swapped d (mac_swapped d (ip_swapped d (mac_swapped d m)))"
      using same by (simp add: reply_mem_def Let_def)
    then show ?thesis by (simp add: two)
  next
    case True
    note u = udp [OF True] far [OF True]
    have p6: "mac_swapped d (ports_swapped ?u x) = ports_swapped ?u (mac_swapped d x)"
      and p4: "ip_swapped d (ports_swapped ?u x) = ports_swapped ?u (ip_swapped d x)"
      if "length x = length m" for x unfolding ports_swapped_def mac_swapped_def ip_swapped_def
      by (rule swapped_commute, use len u that in \<open>auto simp: both_def\<close>)+
    have "reply_mem d (reply_mem d m) = ports_swapped ?u (ip_swapped d (mac_swapped d (ports_swapped ?u ?m2)))"
      using same True by (simp add: reply_mem_def Let_def)
    also have "\<dots> = ports_swapped ?u (ports_swapped ?u (ip_swapped d (mac_swapped d ?m2)))"
      using p6 [OF l2] p4 [of "mac_swapped d ?m2"] mac_swapped_facts(1) [of d ?m2] l2 len by simp
    also have "\<dots> = m"
    proof -
      have "ports_swapped ?u (ports_swapped ?u m) = m"
        unfolding ports_swapped_def by (rule swapped_twice) (use u in auto)
      then show ?thesis by (simp add: two)
    qed
    finally show ?thesis .
  qed
qed
text \<open>The ways echo ends.\<close>

lemma echo_cases:
  assumes p: "packet_at d e p" and run: "echo p = Inr (r, p')"
  obtains (short) "r = DROP" "p' = p" | (other) "r = PASS" "p' = p"
  | (mac) "r = DROP" "p' = p\<lparr>mem := mac_swapped d (mem p)\<rparr>" "d + 14 \<le> e"
  | (ip) "r \<in> {DROP, SEND}" "p' = p\<lparr>mem := ip_swapped d (mac_swapped d (mem p))\<rparr>" "d + 34 \<le> e"
  | (udp) "r = SEND" "p' = p\<lparr>mem := ports_swapped (udp_at d (mem p)) (ip_swapped d (mac_swapped d (mem p)))\<rparr>"
      "d + 34 \<le> e" "udp_at d (mem p) + 8 \<le> e"
proof -
  note run' = run [unfolded echo_result [OF p] Let_def]
  consider "e < d + 14" | "\<not> e < d + 14" "chunk 2 (d + 12) (mem p) \<noteq> ETH_P_IP"
    | "\<not> e < d + 14" "chunk 2 (d + 12) (mem p) = ETH_P_IP" "e < d + 34"
    | "\<not> e < d + 14" "chunk 2 (d + 12) (mem p) = ETH_P_IP" "\<not> e < d + 34"
        "mem p ! (d + 23) \<noteq> PROTO_UDP \<or> e < udp_at d (mem p) + 8"
    | "\<not> e < d + 14" "chunk 2 (d + 12) (mem p) = ETH_P_IP" "\<not> e < d + 34"
        "mem p ! (d + 23) = PROTO_UDP" "\<not> e < udp_at d (mem p) + 8" by blast
  then show thesis
  proof cases
    case 1
    then show thesis using run' by (intro short) simp_all
  next
    case 2
    then show thesis using run' by (intro other) simp_all
  next
    case 3
    then show thesis using run' by (intro mac) simp_all
  next
    case 4
    then show thesis using run' by (intro ip) (simp_all split: if_split_asm)
  next
    case 5
    then show thesis using run' by (intro udp) simp_all
  qed
qed

text \<open>No stage changes the size of the memory, or a byte outside the packet.\<close>

lemma stages_outside:
  assumes le: "d \<le> e" "e \<le> length m"
  shows "d + 14 \<le> e \<Longrightarrow> length (mac_swapped d m) = length m"
    and "d + 34 \<le> e \<Longrightarrow> length (ip_swapped d m) = length m"
    and "udp_at d x + 8 \<le> e \<Longrightarrow> length (ports_swapped (udp_at d x) m) = length m"
    and "d + 14 \<le> e \<Longrightarrow> i < length m \<Longrightarrow> i < d \<or> e \<le> i \<Longrightarrow> mac_swapped d m ! i = m ! i"
    and "d + 34 \<le> e \<Longrightarrow> i < length m \<Longrightarrow> i < d \<or> e \<le> i \<Longrightarrow> ip_swapped d m ! i = m ! i"
    and "udp_at d x + 8 \<le> e \<Longrightarrow> i < length m \<Longrightarrow> i < d \<or> e \<le> i \<Longrightarrow> ports_swapped (udp_at d x) m ! i = m ! i"
proof -
  have u: "d \<le> udp_at d x" by (simp add: udp_at_def)
  show "d + 14 \<le> e \<Longrightarrow> length (mac_swapped d m) = length m"
    and "d + 34 \<le> e \<Longrightarrow> length (ip_swapped d m) = length m"
    and "udp_at d x + 8 \<le> e \<Longrightarrow> length (ports_swapped (udp_at d x) m) = length m"
    using le by (simp_all add: mac_swapped_facts ip_swapped_facts ports_swapped_facts)
  show "d + 14 \<le> e \<Longrightarrow> i < length m \<Longrightarrow> i < d \<or> e \<le> i \<Longrightarrow> mac_swapped d m ! i = m ! i"
    using le by (intro mac_swapped_facts(2)) auto
  show "d + 34 \<le> e \<Longrightarrow> i < length m \<Longrightarrow> i < d \<or> e \<le> i \<Longrightarrow> ip_swapped d m ! i = m ! i"
    using le by (intro ip_swapped_facts(2)) auto
  show "udp_at d x + 8 \<le> e \<Longrightarrow> i < length m \<Longrightarrow> i < d \<or> e \<le> i \<Longrightarrow> ports_swapped (udp_at d x) m ! i = m ! i"
    using le u by (intro ports_swapped_facts(2)) auto
qed

lemma echo_inside:
  assumes "packet_at d e p"
  shows "\<exists>r p'. echo p = Inr (r, p') \<and> r \<in> {PASS, DROP, SEND} \<and> p' = p\<lparr>mem := mem p'\<rparr> \<and>
    length (mem p') = length (mem p) \<and>
    (\<forall>i < length (mem p). i < d \<or> e \<le> i \<longrightarrow> mem p' ! i = mem p ! i) \<and> (r = PASS \<longrightarrow> p' = p)"
proof -
  have le: "d \<le> e" "e \<le> length (mem p)" using assms by (simp_all add: packet_at_def)
  let ?m1 = "mac_swapped d (mem p)" and ?m2 = "ip_swapped d (mac_swapped d (mem p))"
  let ?m3 = "ports_swapped (udp_at d (mem p)) ?m2"
  let ?keeps = "\<lambda>m. length m = length (mem p) \<and> (\<forall>i < length (mem p). i < d \<or> e \<le> i \<longrightarrow> m ! i = mem p ! i)"
  have k1: "?keeps ?m1" if "d + 14 \<le> e" using stages_outside [OF le] that by simp
  have k2: "?keeps ?m2" if "d + 34 \<le> e" using stages_outside [of d e ?m1] that k1 le by simp
  have k3: "?keeps ?m3" if "d + 34 \<le> e" "udp_at d (mem p) + 8 \<le> e"
    using stages_outside [of d e ?m2] that k2 le by simp
  obtain r p' where run: "echo p = Inr (r, p')" using echo_result [OF assms] by (metis surj_pair)
  from assms run have "(r \<in> {PASS, DROP, SEND} \<and> p' = p\<lparr>mem := mem p'\<rparr> \<and> (r = PASS \<longrightarrow> p' = p)) \<and> ?keeps (mem p')"
  proof (cases rule: echo_cases)
    case mac
    then show ?thesis using k1 by (simp add: PASS_def DROP_def)
  next
    case ip
    then have "r \<noteq> PASS" by (auto simp: PASS_def DROP_def SEND_def)
    then show ?thesis using ip k2 by simp
  next
    case udp
    then show ?thesis using k3 by (simp add: PASS_def SEND_def)
  qed simp_all
  then show ?thesis using run by blast
qed

section \<open>Properties of echo and dump\<close>

text \<open>For any packet inside its memory, echo runs without a fault, returns one of the three verdicts
  and changes nothing but bytes of the packet; a packet that is not IPv4 is passed unchanged.\<close>

theorem echo_stays_inside:
  assumes "packet_at d e p"
  shows "\<exists>r p'. echo p = Inr (r, p') \<and> r \<in> {PASS, DROP, SEND} \<and> p' = p\<lparr>mem := mem p'\<rparr> \<and>
    length (mem p') = length (mem p) \<and>
    (\<forall>i < length (mem p). i < d \<or> e \<le> i \<longrightarrow> mem p' ! i = mem p ! i) \<and> (r = PASS \<longrightarrow> p' = p)"
  by (rule echo_inside [OF assms])

definition demo_packet :: packet where
  "demo_packet = \<lparr>mem = [1, 1, 1, 1, 1, 1, 2, 2, 2, 2, 2, 2, 8, 0, 0x45, 0, 0, 40, 0, 0, 0, 0, 64, 17, 0, 0,
      10, 0, 0, 1, 10, 0, 0, 2, 0, 7, 0, 9, 0, 12, 0, 0, 104, 105], pkt_data = 0, pkt_end = 44, pkt_len = 44,
      trim_head = 0, tput = Some 5\<rparr>"

lemma demo_packet_at: "packet_at 0 44 demo_packet"
  by (simp add: packet_at_def demo_packet_def)

theorem echo_stays_inside_witness: "\<exists>r p'. echo demo_packet = Inr (r, p') \<and> length (mem p') = 44"
  using echo_stays_inside [OF demo_packet_at] by (auto simp: demo_packet_def)

lemma reply_fields:
  assumes len: "d + 34 \<le> length m" and udp: "m ! (d + 23) = PROTO_UDP \<Longrightarrow> udp_at d m + 4 \<le> length m"
    and ihl: "m ! (d + 23) = PROTO_UDP \<Longrightarrow> 5 \<le> unat (m ! (d + 14) AND 15)"
  shows "chunk 6 d (reply_mem d m) = chunk 6 (d + 6) m" and "chunk 6 (d + 6) (reply_mem d m) = chunk 6 d m"
    and "chunk 4 (d + 26) (reply_mem d m) = chunk 4 (d + 30) m"
    and "chunk 4 (d + 30) (reply_mem d m) = chunk 4 (d + 26) m"
    and "m ! (d + 23) = PROTO_UDP \<Longrightarrow> chunk 2 (udp_at d m) (reply_mem d m) = chunk 2 (udp_at d m + 2) m"
    and "m ! (d + 23) = PROTO_UDP \<Longrightarrow> chunk 2 (udp_at d m + 2) (reply_mem d m) = chunk 2 (udp_at d m) m"
proof -
  let ?u = "udp_at d m" and ?m1 = "mac_swapped d m" and ?m2 = "ip_swapped d (mac_swapped d m)"
  have l1: "length ?m1 = length m" using len by (simp add: mac_swapped_facts)
  have l2: "length ?m2 = length m" using len l1 by (simp add: ip_swapped_facts)
  have far: "d + 34 \<le> ?u" if "m ! (d + 23) = PROTO_UDP" using ihl [OF that] by (simp add: udp_at_def)
  have e1: "chunk 6 d ?m1 = chunk 6 (d + 6) m" "chunk 6 (d + 6) ?m1 = chunk 6 d m"
    unfolding mac_swapped_def using len by (auto intro!: chunk_swapped)
  have o1: "chunk k c ?m1 = chunk k c m" if "d + 12 \<le> c" "c + k \<le> length m" for c k
    using mac_swapped_facts(3) [of d m c k] that len by simp
  have e2: "chunk 4 (d + 26) ?m2 = chunk 4 (d + 30) ?m1" "chunk 4 (d + 30) ?m2 = chunk 4 (d + 26) ?m1"
    unfolding ip_swapped_def using len l1 by (auto intro!: chunk_swapped)
  have o2: "chunk k c ?m2 = chunk k c ?m1" if "c + k \<le> d + 26 \<or> d + 34 \<le> c" "c + k \<le> length m" for c k
    unfolding ip_swapped_def by (rule chunk_swapped_other) (use len l1 that in auto)
  have o3: "chunk k c (ports_swapped ?u ?m2) = chunk k c ?m2" if "c + k \<le> d + 34" "m ! (d + 23) = PROTO_UDP" for c k
    unfolding ports_swapped_def by (rule chunk_swapped_other) (use len l2 that far udp in auto)
  have e3: "chunk 2 ?u (ports_swapped ?u ?m2) = chunk 2 (?u + 2) ?m2"
    "chunk 2 (?u + 2) (ports_swapped ?u ?m2) = chunk 2 ?u ?m2" if "m ! (d + 23) = PROTO_UDP"
    unfolding ports_swapped_def using udp [OF that] l2 by (auto intro!: chunk_swapped)
  show "chunk 6 d (reply_mem d m) = chunk 6 (d + 6) m" "chunk 6 (d + 6) (reply_mem d m) = chunk 6 d m"
    "chunk 4 (d + 26) (reply_mem d m) = chunk 4 (d + 30) m" "chunk 4 (d + 30) (reply_mem d m) = chunk 4 (d + 26) m"
    using len by (simp_all add: reply_mem_def Let_def e1 e2 o1 o2 o3)
  show "chunk 2 ?u (reply_mem d m) = chunk 2 (?u + 2) m" "chunk 2 (?u + 2) (reply_mem d m) = chunk 2 ?u m"
    if "m ! (d + 23) = PROTO_UDP"
    using that len udp [OF that] far [OF that] by (simp_all add: reply_mem_def Let_def e3 o2 o1 del: add_2_eq_Suc')
qed

text \<open>The bytes outside the exchanged fields.\<close>

lemma reply_others:
  assumes len: "d + 34 \<le> length m" and udp: "m ! (d + 23) = PROTO_UDP \<Longrightarrow> udp_at d m + 4 \<le> length m"
    and i: "i < length m" "i < d \<or> d + 12 \<le> i" "i < d + 26 \<or> d + 34 \<le> i"
    and p: "m ! (d + 23) = PROTO_UDP \<Longrightarrow> i < udp_at d m \<or> udp_at d m + 4 \<le> i"
  shows "reply_mem d m ! i = m ! i"
proof -
  have l: "d + 14 \<le> length m" "length (mac_swapped d m) = length m" using len by (simp_all add: mac_swapped_facts(1))
  then have l2: "length (ip_swapped d (mac_swapped d m)) = length m" using len by (simp add: ip_swapped_facts(1))
  have "ip_swapped d (mac_swapped d m) ! i = m ! i"
    using ip_swapped_facts(2) [of d "mac_swapped d m" i] mac_swapped_facts(2) [OF l(1), of i] len l(2) i by simp
  then show ?thesis using ports_swapped_facts(2) [of "udp_at d m" "ip_swapped d (mac_swapped d m)" i] udp p l2 i(1)
    by (simp add: reply_mem_def Let_def)
qed

text \<open>C20: a packet that echo sends back has the two hardware addresses, the two IP addresses and, for
  UDP, the two ports exchanged; every other byte of the memory, in the packet and outside of it, the
  context and the counter are as before. Sending the answer through echo again restores the packet.
  For a UDP packet this assumes that its header length field has a legal value, at least 5; the
  program does not check that.\<close>

theorem echo_reply:
  assumes "packet_at d e p" and "echo p = Inr (SEND, p')"
    and "mem p ! (d + 23) = PROTO_UDP \<longrightarrow> 5 \<le> unat (mem p ! (d + 14) AND 15)"
  shows "echo p' = Inr (SEND, p) \<and> p' = p\<lparr>mem := mem p'\<rparr> \<and> length (mem p') = length (mem p) \<and>
    chunk 6 d (mem p') = chunk 6 (d + 6) (mem p) \<and> chunk 6 (d + 6) (mem p') = chunk 6 d (mem p) \<and>
    chunk 14 (d + 12) (mem p') = chunk 14 (d + 12) (mem p) \<and>
    chunk 4 (d + 26) (mem p') = chunk 4 (d + 30) (mem p) \<and> chunk 4 (d + 30) (mem p') = chunk 4 (d + 26) (mem p) \<and>
    (mem p ! (d + 23) = PROTO_UDP \<longrightarrow> (let u = udp_at d (mem p) in
       chunk 2 u (mem p') = chunk 2 (u + 2) (mem p) \<and> chunk 2 (u + 2) (mem p') = chunk 2 u (mem p))) \<and>
    (\<forall>i < length (mem p). (i < d \<or> d + 12 \<le> i) \<and> (i < d + 26 \<or> d + 34 \<le> i) \<and>
       (mem p ! (d + 23) = PROTO_UDP \<longrightarrow> i < udp_at d (mem p) \<or> udp_at d (mem p) + 4 \<le> i) \<longrightarrow>
       mem p' ! i = mem p ! i)"
proof -
  let ?m = "mem p" and ?u = "udp_at d (mem p)"
  note s = echo_sends [OF assms(1,2)]
  have le: "e \<le> length ?m" "d + 34 \<le> length ?m" and at: "pkt_data p = int d" "pkt_end p = int e"
    using assms(1) s(2) by (simp_all add: packet_at_def)
  have udp: "?u + 4 \<le> length ?m" "5 \<le> unat (?m ! (d + 14) AND 15)" if "?m ! (d + 23) = PROTO_UDP"
    using s(4) [OF that] le assms(3) that by simp_all
  note r = reply_facts [OF le(2), of, OF udp]
  have p': "mem p' = reply_mem d ?m" by (simp add: s(1))
  have again: "packet_at d e p'" using assms(1) r(1) by (simp add: s(1) packet_at_def)
  have same: "chunk k c (reply_mem d ?m) = chunk k c ?m" if "d + 12 \<le> c" "c + k \<le> d + 26" for k c
    by (rule chunk_cong) (use that r le in auto)
  have "echo p' = Inr (SEND, p'\<lparr>mem := reply_mem d (mem p')\<rparr>)"
  proof (rule echo_answers [OF again s(2)])
    show "chunk 2 (d + 12) (mem p') = ETH_P_IP" using s(3) same by (simp add: p')
    assume "mem p' ! (d + 23) = PROTO_UDP"
    then show "udp_at d (mem p') + 8 \<le> e" using r(2) [of "d + 23"] r(2) [of "d + 14"] s(4) le
      by (simp add: p' udp_at_def)
  qed
  then have sent_back: "echo p' = Inr (SEND, p)" by (simp add: s(1) r(3))
  note fields = reply_fields [OF le(2) udp]
  have others: "\<forall>i < length ?m. (i < d \<or> d + 12 \<le> i) \<and> (i < d + 26 \<or> d + 34 \<le> i) \<and>
      (?m ! (d + 23) = PROTO_UDP \<longrightarrow> i < ?u \<or> ?u + 4 \<le> i) \<longrightarrow> mem p' ! i = ?m ! i"
    unfolding p' by (intro allI impI) (rule reply_others [OF le(2) udp(1)], auto)
  have "p' = p\<lparr>mem := mem p'\<rparr>" by (simp add: s(1))
  then show ?thesis using sent_back same fields others r(1) by (simp add: p' Let_def)
qed

theorem echo_reply_witness: "\<exists>p'. echo demo_packet = Inr (SEND, p') \<and> echo p' = Inr (SEND, demo_packet) \<and>
    chunk 4 26 (mem p') = [10, 0, 0, 2]"
proof -
  have "echo demo_packet = Inr (SEND, demo_packet\<lparr>mem := reply_mem 0 (mem demo_packet)\<rparr>)"
    by (rule echo_answers [OF demo_packet_at]) (simp_all add: demo_packet_def chunk_def ETH_P_IP_def udp_at_def)
  from echo_reply [OF demo_packet_at this] this show ?thesis by (auto simp: demo_packet_def chunk_def)
qed

text \<open>A swap succeeds only inside the memory; its only error is the access outside.\<close>

lemma peek_cases: "peek n off m = Inl OutOfBounds \<or> (\<exists>bs. peek n off m = Inr bs) \<and> 0 \<le> off \<and> off + int n \<le> int (length m)"
  by (auto simp: peek_def c_check_def)

lemma swap_field_cases:
  "swap_field n a b m = Inl OutOfBounds \<or>
   (\<exists>m'. swap_field n a b m = Inr m' \<and> length m' = length m) \<and> a + int n \<le> int (length m) \<and> b + int n \<le> int (length m)"
proof (cases "0 \<le> a \<and> a + int n \<le> int (length m) \<and> 0 \<le> b \<and> b + int n \<le> int (length m)")
  case True
  then have "nat a + n \<le> length m" "nat b + n \<le> length m" by linarith+
  then show ?thesis using True swap_field_inside [of a n m b] by simp
next
  case False
  then show ?thesis by (auto simp: swap_field_def peek_def c_check_def)
qed

lemma swap_loop_outside: "0 < n \<Longrightarrow> int (length m) < a + int n \<Longrightarrow> swap_loop n a b m = Inl OutOfBounds"
proof (induction n arbitrary: a b m)
  case (Suc n)
  from swap_field_cases [of 1 a b m] show ?case
  proof
    assume "(\<exists>m'. swap_field 1 a b m = Inr m' \<and> length m' = length m) \<and> a + int 1 \<le> int (length m) \<and> b + int 1 \<le> int (length m)"
    then obtain m' where m': "swap_field 1 a b m = Inr m'" "length m' = length m" "a + 1 \<le> int (length m)" by auto
    then have "0 < n" using Suc.prems by (cases n) auto
    then have "swap_loop n (a + 1) (b + 1) m' = Inl OutOfBounds" using Suc.prems m' by (intro Suc.IH) auto
    then show ?thesis by (simp add: m' del: One_nat_def)
  qed simp
qed simp

text \<open>On every packet that echo answers, the dump program does the same. It has none of the checks:
  memory that ends before the two hardware addresses is accessed outside, and of a packet that is
  shorter than these addresses, the bytes behind it are changed.\<close>

theorem dump_unchecked:
  assumes "packet_at d e p"
  shows "(\<forall>p'. echo p = Inr (SEND, p') \<longrightarrow> dump_packet p = Inr (SEND, p')) \<and>
    (length (mem p) < d + 12 \<longrightarrow> dump_packet p = Inl OutOfBounds) \<and>
    (d + 14 \<le> length (mem p) \<and> chunk 2 (d + 12) (mem p) \<noteq> ETH_P_IP \<longrightarrow>
       dump_packet p = Inr (SEND, p\<lparr>mem := mac_swapped d (mem p)\<rparr>))"
proof (intro conjI allI impI)
  have at: "pkt_data p = int d" "pkt_end p = int e" and le: "d \<le> e" "e \<le> length (mem p)"
    using assms by (simp_all add: packet_at_def)
  let ?m = "mem p" and ?m1 = "mac_swapped d (mem p)"
  have start: "swap_loop 6 (int d + 6) (int d) ?m = Inr ?m1" "peek 2 (int d + 12) ?m1 = Inr (chunk 2 (d + 12) ?m)"
    if "d + 14 \<le> length ?m"
    using that mac_swapped_facts [of d ?m] by (simp_all add: swap_loop_inside mac_swapped_def peek_inside)
  show "dump_packet p = Inl OutOfBounds" if "length ?m < d + 12"
    using that by (simp add: dump_packet_def at Let_def swap_loop_outside)
  show "dump_packet p = Inr (SEND, p\<lparr>mem := ?m1\<rparr>)"
    if "d + 14 \<le> length ?m \<and> chunk 2 (d + 12) ?m \<noteq> ETH_P_IP"
    using that start by (simp add: dump_packet_def at Let_def)
  fix p' assume "echo p = Inr (SEND, p')"
  note s = echo_sends [OF assms this]
  let ?m2 = "ip_swapped d ?m1"
  have len: "d + 34 \<le> length ?m" using s(2) le by simp
  then have d14: "d + 14 \<le> length ?m" by simp
  note m1 = mac_swapped_facts [OF d14]
  have len2: "d + 34 \<le> length ?m1" using len m1(1) by simp
  note m2 = ip_swapped_facts [OF len2]
  have ip: "swap_field 4 (int d + 14 + 12) (int d + 14 + 16) ?m1 = Inr ?m2"
    using len2 by (simp add: swap_field_inside ip_swapped_def)
  have pr: "peek 1 (int d + 14 + 9) ?m2 = Inr [?m ! (d + 23)]" "peek 1 (int d + 14) ?m2 = Inr [?m ! (d + 14)]"
    using len2 m2 m1 by (simp_all add: peek_inside chunk_one)
  have udp: "ihl_bytes [?m ! (d + 14)] = int (udp_at d ?m) - int d - 14"
    by (simp add: ihl_bytes_def udp_at_def)
  have ports: "swap_field 2 (int (udp_at d ?m)) (int (udp_at d ?m) + 2) ?m2 = Inr (ports_swapped (udp_at d ?m) ?m2)"
    if "?m ! (d + 23) = PROTO_UDP"
    using s(4) [OF that] le m1(1) m2(1) by (simp add: swap_field_inside ports_swapped_def)
  show "dump_packet p = Inr (SEND, p')"
    using start [OF d14] s(3) ip pr ports udp
    by (simp add: dump_packet_def at Let_def s(1) reply_mem_def add.commute [of "int (udp_at d ?m)"])
qed

theorem dump_unchecked_witness:
  "dump_packet (demo_packet\<lparr>pkt_end := 0, mem := take 11 (mem demo_packet)\<rparr>) = Inl OutOfBounds"
  using dump_unchecked [of 0 0 "demo_packet\<lparr>pkt_end := 0, mem := take 11 (mem demo_packet)\<rparr>"]
  by (simp add: packet_at_def demo_packet_def)

end
