(* ===== verification/Benchmarks.thy ===== *)
theory Benchmarks
  imports PacketPrograms
begin
text \<open>
  The benchmark programs of \<open>examples/benchmarks/\<close> in their variant for the engine: growing a packet at its
  head and its tail, copying memory, a loop of arithmetic, the state behind a packet, a hash map, and
  the parser of a load balancer.
\<close>

section \<open>Growing a packet\<close>

text \<open>\<open>adjust_pkt_size.c\<close>: eight headers are put in front, each with a copy of the Ethernet header.\<close>

definition FURTHER_PROCESSING :: int where "FURTHER_PROCESSING = 128"

definition swap_mac :: "int \<Rightarrow> u8 list \<Rightarrow> u8 list c_result" where
  "swap_mac eth m = swap_field 6 eth (eth + 6) m"

definition copy_bytes :: "nat \<Rightarrow> int \<Rightarrow> int \<Rightarrow> u8 list \<Rightarrow> u8 list c_result" where
  "copy_bytes n dst src m = c_bind (peek n src m) (\<lambda>bs. poke dst bs m)"

definition push_header :: "packet \<Rightarrow> (int \<times> packet) c_result" where
  "push_header p =
     (let p = ADJUST_HEAD_INCREASE 20 p; new_eth = pkt_data p; old_eth = new_eth + 20 in
      if out_of_pkt p new_eth 14 \<or> out_of_pkt p old_eth 14 then Inr (DROP, p)
      else c_bind (copy_bytes 14 new_eth old_eth (mem p)) (\<lambda>m. Inr (FURTHER_PROCESSING, p\<lparr>mem := m\<rparr>)))"

fun push_headers :: "nat \<Rightarrow> packet \<Rightarrow> (int \<times> packet) c_result" where
  "push_headers 0 p = Inr (FURTHER_PROCESSING, p)"
| "push_headers (Suc n) p = c_bind (push_header p) (\<lambda>(ret, p).
     if ret \<noteq> FURTHER_PROCESSING then Inr (ret, p) else push_headers n p)"

definition adjust_pkt_size :: "packet \<Rightarrow> (int \<times> packet) c_result" where
  "adjust_pkt_size p =
     c_bind (push_headers 8 p) (\<lambda>(ret, p).
     if ret \<noteq> FURTHER_PROCESSING then Inr (ret, p)
     else let eth = pkt_data p in
       if out_of_pkt p eth 14 then Inr (DROP, p)
       else c_bind (swap_mac eth (mem p)) (\<lambda>m.
         c_bind (poke (eth + 12) ETH_P_IP m) (\<lambda>m. Inr (DROP, INC_TPUT (p\<lparr>mem := m\<rparr>)))))"

text \<open>
  \<open>test_inc_pkt_head.c\<close>: the head moves by 32 bytes and the packet is parsed from there; the
  payload is extended behind the length that the UDP header gives, a signed 16-bit number.
\<close>

fun fill_payload :: "nat \<Rightarrow> nat \<Rightarrow> int \<Rightarrow> u8 list \<Rightarrow> u8 list c_result" where
  "fill_payload 0 k a m = Inr m"
| "fill_payload (Suc n) k a m =
     c_bind (poke (a + int k) [of_nat (k mod 10) + 0x30] m) (fill_payload n (Suc k) a)"

definition INCSIZE :: nat where "INCSIZE = 32"

definition test_inc_pkt_head :: "packet \<Rightarrow> (int \<times> packet) c_result" where
  "test_inc_pkt_head p =
     (let p = ADJUST_HEAD_INCREASE (int INCSIZE) p; eth = pkt_data p; ip = eth + 14 in
      if out_of_pkt p eth 14 then Inr (DROP, p)
      else c_bind (swap_mac eth (mem p)) (\<lambda>m.
      c_bind (poke (eth + 12) ETH_P_IP m) (\<lambda>m.
      if out_of_pkt p ip 20 then Inr (DROP, p\<lparr>mem := m\<rparr>)
      else c_bind (swap_field 4 (ip + 12) (ip + 16) m) (\<lambda>m.
      c_bind (peek 1 (ip + 9) m) (\<lambda>protocol.
      if protocol \<noteq> [PROTO_UDP] then Inr (DROP, INC_TPUT (p\<lparr>mem := m\<rparr>))
      else c_bind (peek 1 ip m) (\<lambda>b.
        let udp = eth + (14 + ihl_bytes b) in
        if out_of_pkt p udp 8 then Inr (DROP, p\<lparr>mem := m\<rparr>)
        else c_bind (swap_field 2 udp (udp + 2) m) (\<lambda>m.
          c_bind (peek 2 (udp + 4) m) (\<lambda>l.
          let curlen = load16_be l; payload_extra = udp + 8 + sint curlen in
          c_bind (poke (udp + 4) (store16_be (curlen + of_nat INCSIZE)) m) (\<lambda>m.
          c_bind (poke (ip + 2) (store16_be (word_of_int (pkt_end p - ip))) m) (\<lambda>m.
          c_bind (fill_payload INCSIZE 0 payload_extra m) (\<lambda>m.
          Inr (DROP, INC_TPUT (p\<lparr>mem := m\<rparr>)))))))))))))"

text \<open>\<open>payload.c\<close>: the packet grows at its tail and the text overwrites the payload from its start.\<close>

definition PAYLOAD_SIZE :: nat where "PAYLOAD_SIZE = 64"

definition payload_text :: "u8 list" where
  "payload_text = map of_char ''Lorem ipsum dolor sit amet, consectetur adipiscing elit,sed do eiusmod tempor incididunt ut labore et dolore magnaaliqua. Ut tellus elementum sagittis vitae. Eros donec ac odiotempor orci dapibus ultrices in. Egestas erat imperdiet sedeuismod nisi port''"

definition payload :: "packet \<Rightarrow> (int \<times> packet) c_result" where
  "payload p =
     (let p = bpf_xdp_adjust_tail (int PAYLOAD_SIZE) p; payload = pkt_data p + 14 + 20 + 8 in
      if payload + int PAYLOAD_SIZE > pkt_end p then Inr (DROP, p)
      else c_bind (poke payload (take PAYLOAD_SIZE payload_text) (mem p)) (\<lambda>m. Inr (DROP, p\<lparr>mem := m\<rparr>)))"

section \<open>Copying and computing\<close>

text \<open>\<open>memcpy.c\<close>: the IP header goes over the UDP header and back, the field in between counts.\<close>

fun copy_rounds :: "nat \<Rightarrow> int \<Rightarrow> int \<Rightarrow> u8 list \<Rightarrow> u8 list c_result" where
  "copy_rounds 0 ip udp m = Inr m"
| "copy_rounds (Suc n) ip udp m =
     c_bind (copy_bytes 20 udp ip m) (\<lambda>m.
     c_bind (peek 2 (udp + 4) m) (\<lambda>l.
     c_bind (poke (udp + 4) (store16 (load16 l + 1)) m) (\<lambda>m.
     c_bind (copy_bytes 20 ip udp m) (copy_rounds n ip udp))))"

definition memcpy_prog :: "packet \<Rightarrow> (int \<times> packet) c_result" where
  "memcpy_prog p =
     (let eth = pkt_data p; ip = eth + 14; udp = ip + 20 in
      if out_of_pkt p udp 8 then Inr (DROP, p)
      else if udp + 20 > pkt_end p then Inr (DROP, p)
      else c_bind (copy_rounds 64 ip udp (mem p)) (\<lambda>m.
        c_bind (swap_loop 6 (eth + 6) eth m) (\<lambda>m. Inr (SEND, p\<lparr>mem := m\<rparr>))))"

text \<open>\<open>loop.c\<close>: arithmetic on the type-of-service byte.\<close>

fun loop_rounds :: "nat \<Rightarrow> u32 \<Rightarrow> u32" where
  "loop_rounds 0 c = c"
| "loop_rounds (Suc n) c =
     (let c = c + 1 in loop_rounds n (if c mod 7 = 0 then (c AND 0xff) * 2 else c))"

definition loop_prog :: "packet \<Rightarrow> (int \<times> packet) c_result" where
  "loop_prog p =
     (let eth = pkt_data p; ip = eth + 14 in
      if out_of_pkt p eth 14 \<or> out_of_pkt p ip 20 then Inr (DROP, p)
      else c_bind (peek 1 (ip + 1) (mem p)) (\<lambda>tos.
        let c = loop_rounds 64 (ucast (tos ! 0) + 1) in
        c_bind (poke (ip + 1) [ucast c] (mem p)) (\<lambda>m. Inr (DROP, p\<lparr>mem := m\<rparr>))))"

text \<open>
  \<open>state_overhead.c\<close>: the state behind the packet is copied to a local object, in words of eight bytes and
  then byte by byte. The counter is a \<open>short\<close>, which holds all sizes below \<open>2 ^ 15\<close>.
\<close>

function mymemcpy_bytes :: "u8 list \<Rightarrow> int \<Rightarrow> nat \<Rightarrow> nat \<Rightarrow> u8 list \<Rightarrow> u8 list c_result" where
  "mymemcpy_bytes m src n i dst =
     (if i < n then c_bind (peek 1 (src + int i) m) (\<lambda>b.
        c_bind (poke (int i) b dst) (mymemcpy_bytes m src n (i + 1)))
      else Inr dst)"
  by pat_completeness auto
termination by (relation "measure (\<lambda>(m, src, n, i, dst). n - i)") auto

function mymemcpy_words :: "u8 list \<Rightarrow> int \<Rightarrow> nat \<Rightarrow> nat \<Rightarrow> u8 list \<Rightarrow> u8 list c_result" where
  "mymemcpy_words m src n i dst =
     (if i + 8 \<le> n then c_bind (peek 8 (src + int i) m) (\<lambda>b.
        c_bind (poke (int i) b dst) (mymemcpy_words m src n (i + 8)))
      else mymemcpy_bytes m src n i dst)"
  by pat_completeness auto
termination by (relation "measure (\<lambda>(m, src, n, i, dst). n - i)") auto

declare mymemcpy_bytes.simps [simp del] mymemcpy_words.simps [simp del]

definition mymemcpy :: "u8 list \<Rightarrow> u8 list \<Rightarrow> int \<Rightarrow> nat \<Rightarrow> u8 list c_result" where
  "mymemcpy dst m src n = mymemcpy_words m src n 0 dst"

definition COPY_STATE :: nat where "COPY_STATE = 32"

definition state_overhead :: "packet \<Rightarrow> (int \<times> packet) c_result" where
  "state_overhead p =
     c_bind (mymemcpy (replicate COPY_STATE 0) (mem p) (pkt_end p - int COPY_STATE) COPY_STATE)
       (\<lambda>state. Inr (DROP, INC_TPUT p))"

text \<open>
  \<open>memmove.c\<close>: a table of squares is overwritten by 200 bytes of the packet, four times, and goes
  back into the packet with the packet's length.
\<close>

definition squares :: "nat \<Rightarrow> u8 list" where "squares n = map (\<lambda>i. of_nat (i * i)) [0..<n]"

fun memmove_rounds :: "nat \<Rightarrow> int \<Rightarrow> u8 list \<Rightarrow> u8 list \<Rightarrow> u8 list c_result" where
  "memmove_rounds 0 start m dst = Inr dst"
| "memmove_rounds (Suc n) start m dst =
     c_bind (poke 0 (squares 200) dst) (\<lambda>dst.
     c_bind (peek 200 start m) (\<lambda>bs. c_bind (poke 0 bs dst) (memmove_rounds n start m)))"

definition memmove_prog :: "packet \<Rightarrow> (int \<times> packet) c_result" where
  "memmove_prog p =
     (let start = pkt_data p; len = (word_of_int (pkt_end p - pkt_data p) :: u16) in
      c_bind (memmove_rounds 4 start (mem p) (replicate 200 0)) (\<lambda>dst.
      c_bind (peek (unat len) 0 dst) (\<lambda>bs.
      c_bind (poke start bs (mem p)) (\<lambda>m. Inr (0, p\<lparr>mem := m\<rparr>)))))"

section \<open>A hash map\<close>

text \<open>
  \<open>hash_map.c\<close>: 32 keys are looked up and the first four bytes of each value are incremented. Keys and
  values are eight bytes; the map is its entries.
\<close>

definition keyobj :: "nat \<Rightarrow> u8 list" where "keyobj i = store32 (of_nat i) @ replicate 4 0"

definition incremented :: "u8 list \<Rightarrow> u8 list" where
  "incremented v = store32 (load32 v + 1) @ drop 4 v"

fun hash_rounds :: "nat \<Rightarrow> nat \<Rightarrow> (u8 list \<rightharpoonup> u8 list) \<Rightarrow> (u8 list \<rightharpoonup> u8 list)" where
  "hash_rounds 0 i mp = mp"
| "hash_rounds (Suc n) i mp =
     (case mp (keyobj i) of None \<Rightarrow> mp | Some v \<Rightarrow> hash_rounds n (Suc i) (mp(keyobj i \<mapsto> incremented v)))"

definition hash_map :: "(u8 list \<rightharpoonup> u8 list) \<Rightarrow> int \<times> (u8 list \<rightharpoonup> u8 list)" where
  "hash_map mp = (DROP, hash_rounds 32 0 mp)"

section \<open>Batches\<close>

text \<open>\<open>batch_processing_entry\<close>: the program on the packets of a batch, one after the other.\<close>

fun batch_processing_entry :: "(packet \<Rightarrow> (int \<times> packet) c_result) \<Rightarrow> packet list \<Rightarrow> (int \<times> packet) list c_result" where
  "batch_processing_entry bpf_prog [] = Inr []"
| "batch_processing_entry bpf_prog (p # ps) =
     c_bind (bpf_prog p) (\<lambda>r. c_bind (batch_processing_entry bpf_prog ps) (\<lambda>rs. Inr (r # rs)))"

section \<open>The runtime's view of a changed packet\<close>

text \<open>
  What the runtime reads from the context after the program: the length and the bytes to skip. They
  describe the packet when they agree with the two pointers.
\<close>

definition agrees :: "nat \<Rightarrow> packet \<Rightarrow> bool" where
  "agrees a p \<longleftrightarrow> pkt_data p = int a + sint (trim_head p) \<and> pkt_end p = pkt_data p + int (unat (pkt_len p))"

text \<open>After \<open>k\<close> further headers of 20 bytes.\<close>

definition grown :: "nat \<Rightarrow> packet \<Rightarrow> packet" where
  "grown k p = p\<lparr>trim_head := trim_head p - of_nat (20 * k), pkt_data := pkt_data p - int (20 * k),
     pkt_len := pkt_len p + of_nat (20 * k)\<rparr>"

lemma push_header_step:
  assumes e: "packet_at d e p" and room: "20 \<le> d" and eth: "d + 14 \<le> e"
  shows "push_header p = Inr (FURTHER_PROCESSING,
    (grown 1 p)\<lparr>mem := overwrite (d - 20) (chunk 14 d (mem p)) (mem p)\<rparr>)"
proof -
  have at: "pkt_data p = int d" "pkt_end p = int e" and le: "e \<le> length (mem p)"
    using e by (simp_all add: packet_at_def)
  have n: "int d - 20 = int (d - 20)" using room by simp
  have src: "peek 14 (int d) (mem p) = Inr (chunk 14 d (mem p))"
    using peek_inside [of "int d" 14 "mem p"] le eth by simp
  have nn: "nat (int d - 20) = d - 20" using room by simp
  have dst: "poke (int (d - 20)) (chunk 14 d (mem p)) (mem p) = Inr (overwrite (d - 20) (chunk 14 d (mem p)) (mem p))"
    using poke_inside [of "int (d - 20)" "chunk 14 d (mem p)" "mem p"] le eth room by (simp add: nn)
  show ?thesis using room eth src dst
    by (simp add: push_header_def ADJUST_HEAD_INCREASE_def at Let_def out_of_pkt_def copy_bytes_def n [symmetric] grown_def)
qed

lemma push_headers_result:
  "packet_at d e p \<Longrightarrow> 20 * k \<le> d \<Longrightarrow> d + 14 \<le> e \<Longrightarrow>
   \<exists>m. push_headers k p = Inr (FURTHER_PROCESSING, (grown k p)\<lparr>mem := m\<rparr>) \<and> length m = length (mem p) \<and>
     chunk 14 (d - 20 * k) m = chunk 14 d (mem p) \<and>
     (\<forall>i < length m. i < d - 20 * k \<or> d \<le> i \<longrightarrow> m ! i = mem p ! i)"
proof (induction k arbitrary: d p)
  case 0
  then show ?case by (intro exI [of _ "mem p"]) (simp add: grown_def)
next
  case (Suc k)
  let ?m = "overwrite (d - 20) (chunk 14 d (mem p)) (mem p)" and ?d = "d - 20"
  let ?p = "(grown 1 p)\<lparr>mem := ?m\<rparr>"
  have le: "d \<le> e" "e \<le> length (mem p)" using Suc.prems(1) by (simp_all add: packet_at_def)
  have c: "length (chunk 14 d (mem p)) = 14" using le Suc.prems(3) by simp
  have room: "20 \<le> d" using Suc.prems(2) by simp
  have step: "push_header p = Inr (FURTHER_PROCESSING, ?p)"
    using push_header_step [OF Suc.prems(1) room Suc.prems(3)] .
  have len: "length ?m = length (mem p)" using c le room Suc.prems(3) by simp
  have "packet_at ?d e ?p" using Suc.prems(1) room len le by (simp add: packet_at_def grown_def)
  moreover have "20 * k \<le> ?d" "?d + 14 \<le> e" using Suc.prems(2,3) by simp_all
  ultimately obtain m where m: "push_headers k ?p = Inr (FURTHER_PROCESSING, (grown k ?p)\<lparr>mem := m\<rparr>)"
    "length m = length ?m" "chunk 14 (?d - 20 * k) m = chunk 14 ?d ?m"
    "\<forall>i < length m. i < ?d - 20 * k \<or> ?d \<le> i \<longrightarrow> m ! i = ?m ! i" using Suc.IH [of ?d ?p] by auto
  have new: "chunk 14 ?d ?m = chunk 14 d (mem p)"
    using c le room Suc.prems(3) by (intro chunk_overwrite_same) simp_all
  have keep: "?m ! i = mem p ! i" if "i < length m" "i < ?d \<or> d \<le> i" for i
    using that c le room m(2) len Suc.prems(3) by (auto simp: nth_overwrite)
  have g: "(grown k ?p)\<lparr>mem := m\<rparr> = (grown (Suc k) p)\<lparr>mem := m\<rparr>"
    by (simp add: grown_def algebra_simps)
  have "push_headers (Suc k) p = Inr (FURTHER_PROCESSING, (grown (Suc k) p)\<lparr>mem := m\<rparr>)"
    unfolding push_headers.simps step c_bind_simps prod.case m(1) g by simp
  moreover have "?d - 20 * k = d - 20 * Suc k" by simp
  moreover have "\<forall>i < length m. i < d - 20 * Suc k \<or> d \<le> i \<longrightarrow> m ! i = mem p ! i"
  proof (intro allI impI)
    fix i assume i: "i < length m" "i < d - 20 * Suc k \<or> d \<le> i"
    then have "m ! i = ?m ! i" using m(4) by auto
    moreover have "?m ! i = mem p ! i" using i by (intro keep) auto
    ultimately show "m ! i = mem p ! i" by simp
  qed
  ultimately show ?case using m(2,3) len new by (intro exI [of _ m]) simp
qed

lemma push_headers_short:
  "packet_at d e p \<Longrightarrow> d < 20 * k \<Longrightarrow> d + 14 \<le> e \<Longrightarrow> push_headers k p = Inl OutOfBounds"
proof (induction k arbitrary: d p)
  case (Suc k)
  have at: "pkt_data p = int d" "pkt_end p = int e" and le: "d \<le> e" "e \<le> length (mem p)"
    using Suc.prems(1) by (simp_all add: packet_at_def)
  show ?case
  proof (cases "20 \<le> d")
    case True
    let ?m = "overwrite (d - 20) (chunk 14 d (mem p)) (mem p)"
    have "length ?m = length (mem p)" using le Suc.prems(3) by simp
    then have "packet_at (d - 20) e ((grown 1 p)\<lparr>mem := ?m\<rparr>)"
      using True Suc.prems(1) le by (simp add: packet_at_def grown_def)
    then have "push_headers k ((grown 1 p)\<lparr>mem := ?m\<rparr>) = Inl OutOfBounds"
      using Suc.prems True by (intro Suc.IH [of "d - 20"]) auto
    then show ?thesis unfolding push_headers.simps push_header_step [OF Suc.prems(1) True Suc.prems(3)] by simp
  next
    case False
    have "peek 14 (int d) (mem p) = Inr (chunk 14 d (mem p))"
      using peek_inside [of "int d" 14 "mem p"] le Suc.prems(3) by simp
    moreover have "poke (int d - 20) (chunk 14 d (mem p)) (mem p) = Inl OutOfBounds"
      using False by (simp add: poke_def)
    ultimately show ?thesis using Suc.prems(3)
      by (simp add: push_header_def ADJUST_HEAD_INCREASE_def at Let_def out_of_pkt_def copy_bytes_def)
  qed
qed simp

text \<open>The Ethernet header after the exchange of the addresses and with the new type.\<close>

definition headed :: "nat \<Rightarrow> u8 list \<Rightarrow> u8 list" where
  "headed d m = overwrite (d + 12) ETH_P_IP (swapped 6 d (d + 6) m)"

lemma headed_facts:
  assumes "d + 14 \<le> length m"
  shows "length (headed d m) = length m"
    and "chunk 6 d (headed d m) = chunk 6 (d + 6) m" and "chunk 6 (d + 6) (headed d m) = chunk 6 d m"
    and "chunk 2 (d + 12) (headed d m) = ETH_P_IP"
    and "i < length m \<Longrightarrow> i < d \<or> d + 14 \<le> i \<Longrightarrow> headed d m ! i = m ! i"
proof -
  let ?m1 = "swapped 6 d (d + 6) m"
  have l: "length ?m1 = length m" using assms by simp
  show "length (headed d m) = length m" using assms by (simp add: headed_def ETH_P_IP_def)
  have "chunk 6 d (headed d m) = chunk 6 d ?m1" "chunk 6 (d + 6) (headed d m) = chunk 6 (d + 6) ?m1"
    unfolding headed_def by (rule chunk_overwrite_other, use assms l in \<open>simp_all add: ETH_P_IP_def\<close>)+
  then show "chunk 6 d (headed d m) = chunk 6 (d + 6) m" "chunk 6 (d + 6) (headed d m) = chunk 6 d m"
    using chunk_swapped [of d 6 m "d + 6"] assms by simp_all
  show "chunk 2 (d + 12) (headed d m) = ETH_P_IP"
    unfolding headed_def by (rule chunk_overwrite_same) (use assms l in \<open>simp_all add: ETH_P_IP_def\<close>)
  assume i: "i < length m" "i < d \<or> d + 14 \<le> i"
  have "headed d m ! i = ?m1 ! i" unfolding headed_def
    using i assms l by (subst nth_overwrite) (auto simp: ETH_P_IP_def)
  also have "\<dots> = m ! i" using i assms by (subst nth_swapped) (auto simp: partner_def)
  finally show "headed d m ! i = m ! i" .
qed

lemma swap_mac_typed:
  "d + 14 \<le> length m \<Longrightarrow> c_bind (swap_mac (int d) m) (poke (int d + 12) ETH_P_IP) = Inr (headed d m)"
  by (simp add: swap_mac_def swap_field_inside poke_inside headed_def ETH_P_IP_def)

text \<open>C21: growing a packet by eight headers in a frame with 160 bytes of room: the packet that the
  runtime sees starts 160 bytes earlier and ends where it did, its Ethernet header has the original
  addresses exchanged and the type IPv4, and the original bytes are all still there. Without the room,
  the program writes before the memory.\<close>

theorem adjust_grows:
  assumes "packet_at d e p" and "agrees a p" and "trim_head p = 0" and "d + 14 \<le> e" and "unat (pkt_len p) + 160 < 2 ^ 32"
  shows "(160 \<le> d \<longrightarrow> (\<exists>p'. adjust_pkt_size p = Inr (DROP, p') \<and> packet_at (d - 160) e p' \<and> agrees a p' \<and>
      chunk 6 (d - 160) (mem p') = chunk 6 (d + 6) (mem p) \<and> chunk 6 (d - 154) (mem p') = chunk 6 d (mem p) \<and>
      chunk 2 (d - 148) (mem p') = ETH_P_IP \<and> tput p' = map_option (\<lambda>v. v + 1) (tput p) \<and>
      length (mem p') = length (mem p) \<and>
      (\<forall>i < length (mem p). i < d - 160 \<or> d \<le> i \<longrightarrow> mem p' ! i = mem p ! i))) \<and>
    (d < 160 \<longrightarrow> adjust_pkt_size p = Inl OutOfBounds)"
proof (intro conjI impI)
  have at: "pkt_data p = int d" "pkt_end p = int e" and le: "d \<le> e" "e \<le> length (mem p)"
    using assms(1) by (simp_all add: packet_at_def)
  show "adjust_pkt_size p = Inl OutOfBounds" if "d < 160"
    using push_headers_short [OF assms(1) _ assms(4), of 8] that by (simp add: adjust_pkt_size_def)
  assume room: "160 \<le> d"
  then have "20 * 8 \<le> d" by simp
  from push_headers_result [OF assms(1) this assms(4)] obtain m where
    m: "push_headers 8 p = Inr (FURTHER_PROCESSING, (grown 8 p)\<lparr>mem := m\<rparr>)" "length m = length (mem p)"
      "chunk 14 (d - 160) m = chunk 14 d (mem p)" "\<forall>i < length m. i < d - 160 \<or> d \<le> i \<longrightarrow> m ! i = mem p ! i" by auto
  from room obtain f where d: "d = f + 160" by (metis le_add_diff_inverse2)
  let ?m2 = "headed f m"
  let ?p = "INC_TPUT ((grown 8 p)\<lparr>mem := ?m2\<rparr>)"
  have l: "f + 14 \<le> length m" using le assms(4) m(2) by (simp add: d)
  have run: "adjust_pkt_size p = Inr (DROP, ?p)"
    using assms(4) c_bind_assoc [of "swap_mac (int f) m" "poke (int f + 12) ETH_P_IP", symmetric]
    by (simp add: adjust_pkt_size_def m(1) Let_def out_of_pkt_def grown_def at d swap_mac_typed [OF l])
  have f: "mem ?p = ?m2" "pkt_data ?p = int f" "pkt_end ?p = int e" "trim_head ?p = - 160"
    "pkt_len ?p = pkt_len p + 160" "tput ?p = map_option (\<lambda>v. v + 1) (tput p)"
    using assms(3) at by (simp_all add: INC_TPUT_def grown_def d)
  note h = headed_facts [OF l]
  have len: "length ?m2 = length (mem p)" using h(1) m(2) by simp
  have "chunk 6 k (chunk 14 f m) = chunk 6 k (chunk 14 d (mem p))" for k using m(3) by (simp add: d)
  then have "chunk 6 (f + 0) m = chunk 6 (d + 0) (mem p)" "chunk 6 (f + 6) m = chunk 6 (d + 6) (mem p)"
    using chunk_of_chunk [of 0 6 14 f m] chunk_of_chunk [of 6 6 14 f m]
      chunk_of_chunk [of 0 6 14 d "mem p"] chunk_of_chunk [of 6 6 14 d "mem p"] by simp_all
  then have macs: "chunk 6 f ?m2 = chunk 6 (d + 6) (mem p)" "chunk 6 (f + 6) ?m2 = chunk 6 d (mem p)"
    using h(2,3) by simp_all
  have keep: "?m2 ! i = mem p ! i" if i: "i < length (mem p)" "i < f \<or> d \<le> i" for i
    using h(5) [of i] m(2,4) i d by auto
  note ipv4_type = h(4)
  have "unat (pkt_len p + 160) = unat (pkt_len p) + 160" using assms(5) by (simp add: unat_word_ariths)
  moreover have "sint (- 160 :: u32) = - 160" by simp
  ultimately have "agrees a ?p" using assms(2,3) at f(2-5) by (simp add: agrees_def d)
  moreover have "packet_at f e ?p" using le len f(1-3) by (simp add: packet_at_def d)
  moreover have "f = d - 160" "f + 6 = d - 154" "f + 12 = d - 148" by (simp_all add: d)
  ultimately show "\<exists>p'. adjust_pkt_size p = Inr (DROP, p') \<and> packet_at (d - 160) e p' \<and> agrees a p' \<and>
      chunk 6 (d - 160) (mem p') = chunk 6 (d + 6) (mem p) \<and> chunk 6 (d - 154) (mem p') = chunk 6 d (mem p) \<and>
      chunk 2 (d - 148) (mem p') = ETH_P_IP \<and> tput p' = map_option (\<lambda>v. v + 1) (tput p) \<and>
      length (mem p') = length (mem p) \<and>
      (\<forall>i < length (mem p). i < d - 160 \<or> d \<le> i \<longrightarrow> mem p' ! i = mem p ! i)"
    using run macs ipv4_type keep len f(1,6) by (intro exI [of _ ?p]) simp
qed

theorem adjust_grows_witness:
  "adjust_pkt_size (demo_packet\<lparr>mem := replicate 14 1, pkt_end := 14, pkt_len := 14, trim_head := 0\<rparr>) = Inl OutOfBounds \<and>
   (\<exists>p'. adjust_pkt_size (demo_packet\<lparr>mem := replicate 160 0 @ replicate 14 1, pkt_data := 160, pkt_end := 174, pkt_len := 14\<rparr>) =
     Inr (DROP, p') \<and> packet_at 0 174 p')"
  using adjust_grows [of 0 14 "demo_packet\<lparr>mem := replicate 14 1, pkt_end := 14, pkt_len := 14, trim_head := 0\<rparr>" 0]
    adjust_grows [of 160 174 "demo_packet\<lparr>mem := replicate 160 0 @ replicate 14 1, pkt_data := 160, pkt_end := 174, pkt_len := 14\<rparr>" 160]
  by (auto simp: packet_at_def agrees_def demo_packet_def)

section \<open>Copies\<close>

text \<open>A local object that is filled up to byte \<open>i\<close>.\<close>

lemma fill_step:
  assumes "length dst = n" and "i + k \<le> n"
    and "\<And>bs. peek k (src + int i) m = Inr bs \<Longrightarrow> next (overwrite i bs dst) =
      c_bind (peek (n - (i + k)) (src + int (i + k)) m) (\<lambda>ys. Inr (take (i + k) (overwrite i bs dst) @ ys))"
  shows "c_bind (peek k (src + int i) m) (\<lambda>b. c_bind (poke (int i) b dst) next) =
    c_bind (peek (n - i) (src + int i) m) (\<lambda>ys. Inr (take i dst @ ys))"
proof (cases "peek k (src + int i) m")
  case (Inl e)
  have "n - i = k + (n - (i + k))" using assms(2) by simp
  then show ?thesis by (simp add: Inl peek_add)
next
  case (Inr bs)
  then have len: "length bs = k" by (rule length_peek)
  then have po: "poke (int i) bs dst = Inr (overwrite i bs dst)" using assms(1,2) by (simp add: poke_inside)
  have split: "n - i = k + (n - (i + k))" using assms(2) by simp
  have t: "take (i + k) (overwrite i bs dst) = take i dst @ bs" using take_overwrite [of i bs dst] assms(1,2) len by simp
  show ?thesis unfolding split peek_add Inr by (simp add: po assms(3) [OF Inr] t c_bind_assoc add.assoc)
qed

lemma mymemcpy_bytes_result:
  "length dst = n \<Longrightarrow> i \<le> n \<Longrightarrow>
    mymemcpy_bytes m src n i dst =
      (if i = n then Inr dst else c_bind (peek (n - i) (src + int i) m) (\<lambda>ys. Inr (take i dst @ ys)))"
proof (induction m src n i dst rule: mymemcpy_bytes.induct)
  case (1 m src n i dst)
  show ?case
  proof (cases "i < n")
    case True
    have "mymemcpy_bytes m src n i dst =
        c_bind (peek 1 (src + int i) m) (\<lambda>b. c_bind (poke (int i) b dst) (mymemcpy_bytes m src n (i + 1)))"
      using True by (simp add: mymemcpy_bytes.simps [of m src n i])
    also have "\<dots> = c_bind (peek (n - i) (src + int i) m) (\<lambda>ys. Inr (take i dst @ ys))"
    proof (rule fill_step)
      fix bs assume b: "peek 1 (src + int i) m = Inr bs"
      then have l: "length (overwrite i bs dst) = n" using True 1(2) length_peek [OF b] by simp
      from 1(1) [OF True] l True have "mymemcpy_bytes m src n (i + 1) (overwrite i bs dst) =
          (if i + 1 = n then Inr (overwrite i bs dst) else c_bind (peek (n - (i + 1)) (src + int (i + 1)) m)
            (\<lambda>ys. Inr (take (i + 1) (overwrite i bs dst) @ ys)))" by simp
      then show "mymemcpy_bytes m src n (i + 1) (overwrite i bs dst) =
        c_bind (peek (n - (i + 1)) (src + int (i + 1)) m) (\<lambda>ys. Inr (take (i + 1) (overwrite i bs dst) @ ys))"
        using l peek_none [OF b] by (auto simp: ac_simps)
    qed (use True 1(2) in simp_all)
    finally show ?thesis using True by simp
  next
    case False
    then show ?thesis using 1(3) mymemcpy_bytes.simps [of m src n i dst] by simp
  qed
qed

lemma mymemcpy_words_result:
  "length dst = n \<Longrightarrow> i \<le> n \<Longrightarrow>
    mymemcpy_words m src n i dst =
      (if i = n then Inr dst else c_bind (peek (n - i) (src + int i) m) (\<lambda>ys. Inr (take i dst @ ys)))"
proof (induction m src n i dst rule: mymemcpy_words.induct)
  case (1 m src n i dst)
  show ?case
  proof (cases "i + 8 \<le> n")
    case True
    have "mymemcpy_words m src n i dst =
        c_bind (peek 8 (src + int i) m) (\<lambda>b. c_bind (poke (int i) b dst) (mymemcpy_words m src n (i + 8)))"
      using True by (simp add: mymemcpy_words.simps [of m src n i])
    also have "\<dots> = c_bind (peek (n - i) (src + int i) m) (\<lambda>ys. Inr (take i dst @ ys))"
    proof (rule fill_step)
      fix bs assume b: "peek 8 (src + int i) m = Inr bs"
      then have l: "length (overwrite i bs dst) = n" using True 1(2) length_peek [OF b] by simp
      from 1(1) [OF True] l True have "mymemcpy_words m src n (i + 8) (overwrite i bs dst) =
          (if i + 8 = n then Inr (overwrite i bs dst) else c_bind (peek (n - (i + 8)) (src + int (i + 8)) m)
            (\<lambda>ys. Inr (take (i + 8) (overwrite i bs dst) @ ys)))" by simp
      then show "mymemcpy_words m src n (i + 8) (overwrite i bs dst) =
        c_bind (peek (n - (i + 8)) (src + int (i + 8)) m) (\<lambda>ys. Inr (take (i + 8) (overwrite i bs dst) @ ys))"
        using l peek_none [OF b] by (auto simp: ac_simps)
    qed (use True 1(2) in simp_all)
    finally show ?thesis using True by simp
  next
    case False
    then show ?thesis using mymemcpy_bytes_result [OF 1(2,3)] by (simp add: mymemcpy_words.simps [of m src n i])
  qed
qed

text \<open>The copy loop of the state benchmark is the same as \<open>memcpy\<close>: it fills a local object with the
  bytes at \<open>src\<close> and fails exactly if one of them is outside the memory.\<close>

theorem mymemcpy_is_memcpy:
  assumes "0 < length dst"
  shows "mymemcpy dst m src (length dst) = peek (length dst) src m"
  using mymemcpy_words_result [of dst "length dst" 0 m src] assms
  by (cases "peek (length dst) src m") (simp_all add: mymemcpy_def)

theorem mymemcpy_is_memcpy_witness: "mymemcpy [0, 0, 0] [1, 2, 3, 4, 5] 1 3 = Inr [2, 3, 4]"
  using mymemcpy_is_memcpy [of "[0, 0, 0]" "[1, 2, 3, 4, 5]" 1] by (simp add: peek_def numeral_3_eq_3)

text \<open>The state is read in front of the end of the packet without a check: a packet of fewer bytes
  gives away bytes in front of it, and at the start of the memory the access is outside.\<close>

theorem state_unchecked:
  assumes "packet_at d e p"
  shows "state_overhead p = (if e < 32 then Inl OutOfBounds else Inr (DROP, INC_TPUT p))"
proof -
  have at: "pkt_end p = int e" and le: "e \<le> length (mem p)" using assms by (simp_all add: packet_at_def)
  have m: "mymemcpy (replicate 32 0) (mem p) (int e - 32) 32 = peek 32 (int e - 32) (mem p)"
    using mymemcpy_words_result [of "replicate 32 0" 32 0 "mem p" "int e - 32"]
    by (cases "peek 32 (int e - 32) (mem p)") (simp_all add: mymemcpy_def)
  show ?thesis using le by (simp add: state_overhead_def COPY_STATE_def at m peek_def)
qed

theorem state_unchecked_witness: "state_overhead (demo_packet\<lparr>pkt_end := 20\<rparr>) = Inl OutOfBounds"
  using state_unchecked [of 0 20 "demo_packet\<lparr>pkt_end := 20\<rparr>"] by (simp add: packet_at_def demo_packet_def)

section \<open>Computing\<close>

text \<open>The loop on natural numbers.\<close>

fun loop_nat :: "nat \<Rightarrow> nat \<Rightarrow> nat" where
  "loop_nat 0 c = c"
| "loop_nat (Suc n) c = (let c = c + 1 in loop_nat n (if 7 dvd c then 2 * (c mod 256) else c))"

lemma loop_step:
  fixes c :: u32
  assumes "unat c + 1 < 2 ^ 32"
  shows "unat (if (c + 1) mod 7 = 0 then ((c + 1) AND 0xff) * 2 else c + 1) =
    (if 7 dvd unat c + 1 then 2 * ((unat c + 1) mod 256) else unat c + 1)"
proof -
  have s: "unat (c + 1) = unat c + 1" using assms by (simp add: unat_word_ariths)
  have "unat ((c + 1) AND 0xff) = (unat c + 1) mod 256"
    using unat_and_ring_mask [of "256 :: u32" 8 "c + 1"] by (simp add: s)
  moreover have "2 * ((unat c + 1) mod 256) < 2 ^ 32" by (rule less_trans [of _ "2 * 256"]) simp_all
  ultimately have "unat (((c + 1) AND 0xff) * 2) = 2 * ((unat c + 1) mod 256)" by (simp add: unat_word_ariths)
  moreover have "(c + 1) mod 7 = 0 \<longleftrightarrow> 7 dvd unat c + 1"
  proof -
    have "unat ((c + 1) mod 7) = (unat c + 1) mod 7" by (simp add: unat_mod_distrib s)
    then show ?thesis by (metis dvd_eq_mod_eq_0 unat_eq_zero)
  qed
  ultimately show ?thesis using s by simp
qed

lemma loop_rounds_nat: "unat c \<le> 510 + k \<Longrightarrow> k + n < 2 ^ 31 \<Longrightarrow>
  unat (loop_rounds n c) = loop_nat n (unat c) \<and> loop_nat n (unat c) \<le> 510 + (k + n)"
proof (induction n arbitrary: c k)
  case (Suc n)
  let ?c = "if (c + 1) mod 7 = 0 then ((c + 1) AND 0xff) * 2 else c + 1"
  have step: "unat ?c = (if 7 dvd unat c + 1 then 2 * ((unat c + 1) mod 256) else unat c + 1)"
    using Suc.prems by (intro loop_step) simp
  have "(unat c + 1) mod 256 \<le> 255" using mod_less_divisor [of 256 "unat c + 1"] by simp
  then have "unat ?c \<le> 510 + Suc k" using Suc.prems(1) by (simp only: step) simp
  then have "unat (loop_rounds n ?c) = loop_nat n (unat ?c) \<and> loop_nat n (unat ?c) \<le> 510 + (Suc k + n)"
    using Suc.prems(2) by (intro Suc.IH) simp_all
  then show ?case by (simp only: loop_rounds.simps loop_nat.simps Let_def step) simp
qed simp

text \<open>The loop benchmark drops every packet and changes at most its type-of-service byte. The 32-bit
  arithmetic never overflows: the byte is that of the computation on natural numbers.\<close>

theorem loop_changes_tos:
  assumes "packet_at d e p"
  shows "loop_prog p = (if e < d + 34 then Inr (DROP, p)
    else Inr (DROP, p\<lparr>mem := overwrite (d + 15) [of_nat (loop_nat 64 (unat (mem p ! (d + 15)) + 1))] (mem p)\<rparr>)) \<and>
    loop_nat 64 (unat (mem p ! (d + 15)) + 1) \<le> 574"
proof -
  have at: "pkt_data p = int d" "pkt_end p = int e" and le: "e \<le> length (mem p)"
    using assms by (simp_all add: packet_at_def)
  let ?t = "mem p ! (d + 15)" and ?c = "ucast (mem p ! (d + 15)) + 1 :: u32"
  have b: "unat ?t < 256" using unsigned_less [of ?t] by simp
  then have c: "unat ?c = unat ?t + 1" by (simp add: unat_word_ariths unsigned_ucast_eq take_bit_nat_eq_self)
  then have r: "unat (loop_rounds 64 ?c) = loop_nat 64 (unat ?t + 1)" "loop_nat 64 (unat ?t + 1) \<le> 574"
    using loop_rounds_nat [of ?c 0 64] b by simp_all
  then have u: "(ucast (loop_rounds 64 ?c) :: u8) = of_nat (loop_nat 64 (unat ?t + 1))"
    by (simp only: r(1) [symmetric] of_nat_unat)
  show ?thesis using r(2) le u
    by (auto simp: loop_prog_def at Let_def out_of_pkt_def peek_inside poke_inside chunk_one)
qed

lemma loop_nat_one: "loop_nat 64 1 = 409"
  by code_simp

theorem loop_changes_tos_witness:
  "loop_prog demo_packet = Inr (DROP, demo_packet\<lparr>mem := overwrite 15 [409] (mem demo_packet)\<rparr>)"
  using loop_changes_tos [OF demo_packet_at] loop_nat_one by (simp add: demo_packet_def)

section \<open>Headers that are copied over each other\<close>

text \<open>An IP header whose identification field is counted on.\<close>

definition counted :: "nat \<Rightarrow> u8 list \<Rightarrow> u8 list" where
  "counted n h = overwrite 4 (store16 (load16 (chunk 2 4 h) + of_nat n)) h"

lemma length_counted [simp]: "length h = 20 \<Longrightarrow> length (counted n h) = 20"
  by (simp add: counted_def)

lemma counted_counted: "length h = 20 \<Longrightarrow> counted n (counted 1 h) = counted (Suc n) h"
  by (simp add: counted_def overwrite_twice chunk_overwrite_same ac_simps)

lemma copy_round:
  assumes "u = i + 20" and "u + 20 \<le> length m"
  shows "\<exists>m'. copy_rounds (Suc n) (int i) (int u) m = copy_rounds n (int i) (int u) m' \<and> length m' = length m \<and>
    chunk 20 i m' = counted 1 (chunk 20 i m) \<and> chunk 20 u m' = counted 1 (chunk 20 i m) \<and>
    (\<forall>k < length m. k < i \<or> u + 20 \<le> k \<longrightarrow> m' ! k = m ! k)"
proof -
  let ?h = "chunk 20 i m" and ?m1 = "overwrite u (chunk 20 i m) m"
  let ?w = "store16 (load16 (chunk 2 4 ?h) + 1)"
  let ?m2 = "overwrite (u + 4) ?w ?m1" and ?m3 = "overwrite i (counted 1 ?h) (overwrite (u + 4) ?w ?m1)"
  have h: "length ?h = 20" using assms by simp
  have l1: "length ?m1 = length m" using assms h by simp
  have l2: "length ?m2 = length m" using assms l1 by simp
  have l3: "length ?m3 = length m" using assms l2 h by simp
  have "copy_bytes 20 (int u) (int i) m = Inr ?m1"
    using assms h by (simp add: copy_bytes_def peek_inside poke_inside)
  moreover have "peek 2 (int u + 4) ?m1 = Inr (chunk 2 4 ?h)"
    using assms(2) l1 h chunk_overwrite_part [of 4 2 ?h u m] by (simp add: peek_inside)
  moreover have "poke (int u + 4) ?w ?m1 = Inr ?m2" using assms(2) l1 by (simp add: poke_inside)
  moreover have c: "chunk 20 u ?m2 = counted 1 ?h"
    using assms(2) l1 h chunk_overwritten_part [of u 20 ?m1 4 ?w] by (simp add: counted_def chunk_overwrite_same)
  moreover have "copy_bytes 20 (int i) (int u) ?m2 = Inr ?m3"
    using assms l2 h c by (simp add: copy_bytes_def peek_inside poke_inside)
  ultimately have "copy_rounds (Suc n) (int i) (int u) m = copy_rounds n (int i) (int u) ?m3" by simp
  moreover have "chunk 20 i ?m3 = counted 1 ?h" using assms l2 h by (intro chunk_overwrite_same) simp_all
  moreover have "chunk 20 u ?m3 = counted 1 ?h"
    using assms l2 h c by (subst chunk_overwrite_other) simp_all
  moreover have "\<forall>k < length m. k < i \<or> u + 20 \<le> k \<longrightarrow> ?m3 ! k = m ! k"
    using assms l1 l2 l3 h by (auto simp: nth_overwrite)
  ultimately show ?thesis using l3 by blast
qed

lemma copy_rounds_result:
  assumes "u = i + 20"
  shows "u + 20 \<le> length m \<Longrightarrow> \<exists>m'. copy_rounds (Suc n) (int i) (int u) m = Inr m' \<and> length m' = length m \<and>
    chunk 20 i m' = counted (Suc n) (chunk 20 i m) \<and> chunk 20 u m' = counted (Suc n) (chunk 20 i m) \<and>
    (\<forall>k < length m. k < i \<or> u + 20 \<le> k \<longrightarrow> m' ! k = m ! k)"
proof (induction n arbitrary: m)
  case 0
  from copy_round [OF assms 0, of 0] show ?case by (simp only: copy_rounds.simps One_nat_def)
next
  case (Suc n)
  from copy_round [OF assms Suc.prems, of "Suc n"] obtain m1 where
    m1: "copy_rounds (Suc (Suc n)) (int i) (int u) m = copy_rounds (Suc n) (int i) (int u) m1"
      "length m1 = length m" "chunk 20 i m1 = counted 1 (chunk 20 i m)"
      "\<forall>k < length m. k < i \<or> u + 20 \<le> k \<longrightarrow> m1 ! k = m ! k" by blast
  have "u + 20 \<le> length m1" using Suc.prems m1(2) by simp
  from Suc.IH [OF this] obtain m2 where
    m2: "copy_rounds (Suc n) (int i) (int u) m1 = Inr m2" "length m2 = length m1"
      "chunk 20 i m2 = counted (Suc n) (chunk 20 i m1)" "chunk 20 u m2 = counted (Suc n) (chunk 20 i m1)"
      "\<forall>k < length m1. k < i \<or> u + 20 \<le> k \<longrightarrow> m2 ! k = m1 ! k" by blast
  have "length (chunk 20 i m) = 20" using Suc.prems assms by simp
  then show ?case using m1 m2 counted_counted [of "chunk 20 i m" "Suc n"] by (intro exI [of _ m2]) simp
qed

text \<open>The copy benchmark answers a packet with room for a second header: both headers are the
  original IP header with its identification field, read in the machine's order, increased by 64; the
  UDP header is lost, and nothing outside these two and the addresses changes. Shorter packets are
  dropped unchanged.\<close>

theorem memcpy_copies:
  assumes "packet_at d e p"
  shows "if e < d + 54 then memcpy_prog p = Inr (DROP, p)
    else \<exists>m. memcpy_prog p = Inr (SEND, p\<lparr>mem := m\<rparr>) \<and> length m = length (mem p) \<and>
      chunk 20 (d + 14) m = counted 64 (chunk 20 (d + 14) (mem p)) \<and>
      chunk 20 (d + 34) m = counted 64 (chunk 20 (d + 14) (mem p)) \<and>
      chunk 6 d m = chunk 6 (d + 6) (mem p) \<and> chunk 6 (d + 6) m = chunk 6 d (mem p) \<and>
      (\<forall>i < length m. i < d \<or> d + 54 \<le> i \<longrightarrow> m ! i = mem p ! i)"
proof -
  have at: "pkt_data p = int d" "pkt_end p = int e" and le: "e \<le> length (mem p)"
    using assms by (simp_all add: packet_at_def)
  show ?thesis
  proof (cases "e < d + 54")
    case True
    then show ?thesis by (auto simp: memcpy_prog_def at Let_def out_of_pkt_def)
  next
    case False
    then have len: "d + 34 + 20 \<le> length (mem p)" using le by simp
    have "d + 34 = (d + 14) + 20" by simp
    from copy_rounds_result [OF this len, of 63] obtain m where
      m: "copy_rounds 64 (int (d + 14)) (int (d + 34)) (mem p) = Inr m" "length m = length (mem p)"
        "chunk 20 (d + 14) m = counted 64 (chunk 20 (d + 14) (mem p))"
        "chunk 20 (d + 34) m = counted 64 (chunk 20 (d + 14) (mem p))"
        "\<forall>k < length (mem p). k < d + 14 \<or> d + 34 + 20 \<le> k \<longrightarrow> m ! k = mem p ! k" by auto
    let ?m = "mac_swapped d m"
    have d14: "d + 14 \<le> length m" using len m(2) by simp
    note s = mac_swapped_facts [OF d14]
    have "swap_loop 6 (int d + 6) (int d) m = Inr ?m" using d14 by (simp add: swap_loop_inside mac_swapped_def)
    then have run: "memcpy_prog p = Inr (SEND, p\<lparr>mem := ?m\<rparr>)"
      using False m(1) by (simp add: memcpy_prog_def at Let_def out_of_pkt_def ac_simps)
    have macs: "chunk 6 d ?m = chunk 6 (d + 6) m" "chunk 6 (d + 6) ?m = chunk 6 d m"
      unfolding mac_swapped_def using d14 by (auto intro!: chunk_swapped)
    have "chunk 6 d m = chunk 6 d (mem p)" "chunk 6 (d + 6) m = chunk 6 (d + 6) (mem p)"
      by (rule chunk_cong, use m(2,5) len in auto)+
    then show ?thesis using False run macs s m(2-5) len by (intro if_not_P [THEN iffD2] exI [of _ ?m]) simp_all
  qed
qed

theorem memcpy_copies_witness: "memcpy_prog demo_packet = Inr (DROP, demo_packet)"
  using memcpy_copies [OF demo_packet_at] by simp

section \<open>The head that grows over unknown bytes\<close>

lemma fill_payload_outside:
  "0 < n \<Longrightarrow> int (length m) < a + int (k + n) \<Longrightarrow> fill_payload n k a m = Inl OutOfBounds"
proof (induction n arbitrary: k m)
  case (Suc n)
  show ?case
  proof (cases "0 \<le> a + int k \<and> a + int k + 1 \<le> int (length m)")
    case True
    let ?b = "[of_nat (k mod 10) + 0x30] :: u8 list"
    have p: "poke (a + int k) ?b m = Inr (overwrite (nat (a + int k)) ?b m)" using True by (simp add: poke_inside)
    have "nat (a + int k) + length ?b \<le> length m" using True by simp linarith
    then have "length (overwrite (nat (a + int k)) ?b m) = length m" by (rule length_overwrite)
    moreover have "0 < n" using True Suc.prems by (cases n) auto
    ultimately have "fill_payload n (Suc k) a (overwrite (nat (a + int k)) ?b m) = Inl OutOfBounds"
      using Suc.prems by (intro Suc.IH) simp_all
    then show ?thesis using p by simp
  next
    case False
    then show ?thesis by (auto simp: poke_def c_check_def)
  qed
qed simp

text \<open>
  The packet as the program sees it, 32 bytes earlier, after the exchange of the addresses and the
  ports; the length field it then reads.
\<close>

definition inc_mem :: "nat \<Rightarrow> u8 list \<Rightarrow> u8 list" where
  "inc_mem f m = (let m2 = swapped 4 (f + 26) (f + 30) (headed f m); u = udp_at f m2 in ports_swapped u m2)"

definition inc_udp :: "nat \<Rightarrow> u8 list \<Rightarrow> nat" where
  "inc_udp f m = udp_at f (swapped 4 (f + 26) (f + 30) (headed f m))"

definition inc_len :: "nat \<Rightarrow> u8 list \<Rightarrow> u16" where
  "inc_len f m = load16_be (chunk 2 (inc_udp f m + 4) (inc_mem f m))"

text \<open>The benchmark that enlarges the head parses its packet 32 bytes too early, where no header is,
  and trusts the length it finds there: for every such packet whose alleged payload ends behind the
  memory, it writes outside.\<close>

theorem inc_head_unchecked:
  assumes "packet_at (f + 32) e p" and "f + 34 \<le> e" and "mem p ! (f + 23) = PROTO_UDP"
    and "inc_udp f (mem p) + 8 \<le> e"
    and "int (length (mem p)) < int (inc_udp f (mem p)) + 8 + sint (inc_len f (mem p)) + 32"
  shows "test_inc_pkt_head p = Inl OutOfBounds"
proof -
  have at: "pkt_data p = int f + 32" "pkt_end p = int e" and le: "e \<le> length (mem p)"
    using assms(1) by (simp_all add: packet_at_def)
  let ?m = "mem p" and ?m1 = "headed f (mem p)" and ?u = "inc_udp f (mem p)"
  let ?m2 = "swapped 4 (f + 26) (f + 30) ?m1" and ?m3 = "inc_mem f (mem p)"
  have l: "f + 34 \<le> length ?m" using assms(2) le by simp
  then have d14: "f + 14 \<le> length ?m" by simp
  note h = headed_facts [OF d14]
  have l2: "length ?m2 = length ?m" using l h(1) by simp
  have nth2: "?m2 ! (f + 23) = ?m ! (f + 23)"
    using l h(1) h(5) [of "f + 23"] by (subst nth_swapped) (auto simp: partner_def)
  have m3: "?m3 = ports_swapped ?u ?m2" by (simp add: inc_mem_def inc_udp_def Let_def)
  have u: "?u + 8 \<le> length ?m" using assms(4) le by simp
  have l3: "length ?m3 = length ?m" using u l2 unfolding m3 by (subst ports_swapped_facts) simp_all
  have s1: "c_bind (swap_mac (int f) ?m) (\<lambda>m. c_bind (poke (int f + 12) ETH_P_IP m) g) = g ?m1" for g
    using swap_mac_typed [OF d14] c_bind_assoc [of "swap_mac (int f) ?m" "poke (int f + 12) ETH_P_IP" g] by simp
  have s2: "swap_field 4 (int f + 14 + 12) (int f + 14 + 16) ?m1 = Inr ?m2"
    using l h(1) by (simp add: swap_field_inside)
  have pr: "peek 1 (int f + 14 + 9) ?m2 = Inr [PROTO_UDP]" "peek 1 (int f + 14) ?m2 = Inr [?m2 ! (f + 14)]"
    using l l2 nth2 assms(3) by (simp_all add: peek_inside chunk_one)
  have ihl: "ihl_bytes [?m2 ! (f + 14)] = int ?u - int f - 14" by (simp add: ihl_bytes_def inc_udp_def udp_at_def)
  have s3: "swap_field 2 (int ?u) (int ?u + 2) ?m2 = Inr ?m3"
    using u l2 unfolding m3 by (simp add: swap_field_inside ports_swapped_def)
  have pl: "peek 2 (int ?u + 4) ?m3 = Inr (chunk 2 (?u + 4) ?m3)" using u l3 by (simp add: peek_inside)
  let ?w = "store16_be (inc_len f ?m + 32)" and ?t = "store16_be (word_of_int (int e - (int f + 14)))"
  let ?m4 = "overwrite (?u + 4) ?w ?m3"
  let ?m5 = "overwrite (f + 16) ?t ?m4"
  have l4: "length ?m4 = length ?m" using u l3 by simp
  have l5: "length ?m5 = length ?m" using l l4 by simp
  have s4: "poke (int ?u + 4) ?w ?m3 = Inr ?m4" using u l3 by (simp add: poke_inside)
  have s5: "poke (int f + 14 + 2) ?t ?m4 = Inr ?m5" using l l4 by (simp add: poke_inside)
  have s6: "fill_payload 32 0 (int ?u + 8 + sint (inc_len f ?m)) ?m5 = Inl OutOfBounds"
    by (rule fill_payload_outside) (simp, unfold l5, use assms(5) in simp)
  have "int f + (14 + (int ?u - int f - 14)) = int ?u" by simp
  note steps = s1 s2 pr ihl this s3 pl s4 s5 s6
  have "\<not> int e < int f + 14" "\<not> int e < int f + 14 + 20" "\<not> int e < int ?u + 8" using assms(2,4) by simp_all
  note checks = this
  have base: "pkt_data (ADJUST_HEAD_INCREASE 32 p) = int f" "pkt_end (ADJUST_HEAD_INCREASE 32 p) = int e"
    "mem (ADJUST_HEAD_INCREASE 32 p) = ?m" by (simp_all add: ADJUST_HEAD_INCREASE_def at)
  show ?thesis
    unfolding test_inc_pkt_head_def INCSIZE_def Let_def out_of_pkt_def of_nat_numeral base
    by (simp only: checks steps c_bind_simps if_False not_True_eq_False inc_len_def [symmetric] HOL.simp_thms if_True)
qed

text \<open>A packet whose header starts at byte 32 of 44, where the program finds a UDP header of length 0.\<close>

definition demo_inc :: packet where
  "demo_inc = \<lparr>mem = replicate 14 0 @ 5 # replicate 8 0 @ PROTO_UDP # replicate 20 0, pkt_data = 32, pkt_end = 44,
     pkt_len = 12, trim_head = 0, tput = None\<rparr>"

lemma demo_inc_facts: "inc_udp 0 (mem demo_inc) = 34" "inc_len 0 (mem demo_inc) = 0"
  by code_simp+

theorem inc_head_unchecked_witness: "test_inc_pkt_head demo_inc = Inl OutOfBounds"
proof (rule inc_head_unchecked [of 0 44])
  show "packet_at (0 + 32) 44 demo_inc" by (simp add: packet_at_def demo_inc_def)
  show "mem demo_inc ! (0 + 23) = PROTO_UDP" by (simp add: demo_inc_def nth_append)
qed (simp_all add: demo_inc_facts, simp add: demo_inc_def)

section \<open>The tail, the table and the hash map\<close>

text \<open>The payload benchmark announces 64 further bytes to the runtime in either case and writes its text
  over the first 64 bytes of the payload, old or new, of every packet with complete headers, without
  regard to the end of the frame.\<close>

theorem payload_written:
  assumes "packet_at d e p" and "agrees a p" and "unat (pkt_len p) + 64 < 2 ^ 32"
  shows "agrees a (bpf_xdp_adjust_tail 64 p) \<and> payload p = (if e < d + 42 then Inr (DROP, bpf_xdp_adjust_tail 64 p)
    else if length (mem p) < d + 106 then Inl OutOfBounds
    else Inr (DROP, (bpf_xdp_adjust_tail 64 p)\<lparr>mem := overwrite (d + 42) (take 64 payload_text) (mem p)\<rparr>))"
proof
  have at: "pkt_data p = int d" "pkt_end p = int e" using assms(1) by (simp_all add: packet_at_def)
  have "unat (pkt_len p + 64) = unat (pkt_len p) + 64" using assms(3) by (simp add: unat_word_ariths)
  then show "agrees a (bpf_xdp_adjust_tail 64 p)" using assms(2) by (simp add: agrees_def bpf_xdp_adjust_tail_def)
  have len: "length (take 64 payload_text) = 64" by (simp add: payload_text_def)
  have base: "pkt_data (bpf_xdp_adjust_tail 64 p) = int d" "pkt_end (bpf_xdp_adjust_tail 64 p) = int e + 64"
    "mem (bpf_xdp_adjust_tail 64 p) = mem p" by (simp_all add: bpf_xdp_adjust_tail_def at)
  have "poke (42 + int d) (take 64 payload_text) (mem p) =
      (if length (mem p) < d + 106 then Inl OutOfBounds else Inr (overwrite (d + 42) (take 64 payload_text) (mem p)))"
    using len by (simp add: poke_def overwrite_def c_check_def)
  then show "payload p = (if e < d + 42 then Inr (DROP, bpf_xdp_adjust_tail 64 p)
    else if length (mem p) < d + 106 then Inl OutOfBounds
    else Inr (DROP, (bpf_xdp_adjust_tail 64 p)\<lparr>mem := overwrite (d + 42) (take 64 payload_text) (mem p)\<rparr>))"
    by (simp add: payload_def PAYLOAD_SIZE_def Let_def base)
qed

theorem payload_written_witness: "payload demo_packet = Inl OutOfBounds"
  using payload_written [of 0 44 demo_packet 0] by (simp add: packet_at_def agrees_def demo_packet_def)

lemma memmove_rounds_result:
  "length dst = 200 \<Longrightarrow> memmove_rounds (Suc n) start m dst = peek 200 start m"
proof (induction n arbitrary: dst)
  case 0
  then show ?case
    by (cases "peek 200 start m") (auto simp: poke_def squares_def c_check_def dest: length_peek)
next
  case (Suc n)
  show ?case
  proof (cases "peek 200 start m")
    case (Inl e)
    then show ?thesis using Suc.prems by (simp add: poke_def squares_def)
  next
    case (Inr bs)
    then have "length bs = 200" by (rule length_peek)
    then have "memmove_rounds (Suc n) start m bs = Inr bs" using Suc.IH Inr by simp
    moreover have "poke 0 (squares 200) dst = Inr (squares 200)" using Suc.prems by (simp add: poke_def squares_def)
    moreover have "poke 0 bs (squares 200) = Inr bs" using \<open>length bs = 200\<close> by (simp add: poke_def squares_def)
    ultimately show ?thesis using Inr by (subst memmove_rounds.simps) simp
  qed
qed

text \<open>The move benchmark leaves the packet as it is and returns 0, no verdict of the runtime; it
  reads 200 bytes from the start of every packet, whatever its length, and behind its table for
  longer packets.\<close>

theorem memmove_keeps:
  assumes "packet_at d e p" and "e - d < 2 ^ 16"
  shows "memmove_prog p = (if length (mem p) < d + 200 \<or> 200 < e - d then Inl OutOfBounds else Inr (0, p))"
proof -
  have at: "pkt_data p = int d" "pkt_end p = int e" and le: "d \<le> e" "e \<le> length (mem p)"
    using assms(1) by (simp_all add: packet_at_def)
  have "(word_of_int (int e - int d) :: u16) = of_nat (e - d)" using le by (simp add: of_nat_diff)
  moreover have "unat (of_nat (e - d) :: u16) = e - d" using assms(2) by (subst unat_of_nat) simp
  ultimately have n: "unat (of_nat e - of_nat d :: u16) = e - d" by simp
  have four: "memmove_rounds 4 (int d) (mem p) (replicate 200 0) = peek 200 (int d) (mem p)"
    using memmove_rounds_result [of "replicate 200 0" 3 "int d" "mem p"] by (simp add: eval_nat_numeral)
  show ?thesis
  proof (cases "length (mem p) < d + 200")
    case True
    then show ?thesis by (simp add: memmove_prog_def at Let_def four peek_def)
  next
    case False
    then have pk: "peek 200 (int d) (mem p) = Inr (chunk 200 d (mem p))" by (simp add: peek_inside)
    show ?thesis
    proof (cases "200 < e - d")
      case True
      then have "peek (e - d) 0 (chunk 200 d (mem p)) = Inl OutOfBounds"
        using False by (intro peek_outside) simp
      then show ?thesis using False True by (simp add: memmove_prog_def at Let_def four pk n)
    next
      case small: False
      then have c: "peek (e - d) 0 (chunk 200 d (mem p)) = Inr (chunk (e - d) d (mem p))"
        using False chunk_of_chunk [of 0 "e - d" 200 d "mem p"] by (simp add: peek_inside)
      have "poke (int d) (chunk (e - d) d (mem p)) (mem p) = Inr (mem p)"
        using le overwrite_chunk [of d "e - d" "mem p"] by (simp add: poke_inside)
      then show ?thesis using False small by (simp add: memmove_prog_def at Let_def four pk n c)
    qed
  qed
qed

theorem memmove_keeps_witness: "memmove_prog demo_packet = Inl OutOfBounds"
  using memmove_keeps [OF demo_packet_at] by (simp add: demo_packet_def)

lemma keyobj_inj: "i < 2 ^ 32 \<Longrightarrow> j < 2 ^ 32 \<Longrightarrow> keyobj i = keyobj j \<longleftrightarrow> i = j"
proof
  assume ij: "i < 2 ^ 32" "j < 2 ^ 32" and "keyobj i = keyobj j"
  then have "store32 (of_nat i) = store32 (of_nat j)" by (simp add: keyobj_def)
  then have "(of_nat i :: u32) = of_nat j" by (metis load32_store32)
  then show "i = j" using ij by (metis unat_of_nat_u32)
qed simp

lemma hash_rounds_result:
  "i + n \<le> 2 ^ 32 \<Longrightarrow> k \<le> n \<Longrightarrow> \<forall>j < k. mp (keyobj (i + j)) \<noteq> None \<Longrightarrow> k = n \<or> mp (keyobj (i + k)) = None \<Longrightarrow>
    hash_rounds n i mp = (\<lambda>key. if \<exists>j < k. key = keyobj (i + j) then map_option incremented (mp key) else mp key)"
proof (induction n arbitrary: i k mp)
  case (Suc n)
  show ?case
  proof (cases k)
    case 0
    then show ?thesis using Suc.prems(4) by simp
  next
    case (Suc k')
    then obtain v where v: "mp (keyobj i) = Some v" using Suc.prems(3) by fastforce
    let ?mp = "mp(keyobj i \<mapsto> incremented v)"
    have new: "?mp (keyobj (Suc i + j)) = mp (keyobj (i + Suc j))" if "Suc i + j < 2 ^ 32" for j
      using that keyobj_inj [of "Suc i + j" i] by simp
    have "hash_rounds n (Suc i) ?mp =
        (\<lambda>key. if \<exists>j < k'. key = keyobj (Suc i + j) then map_option incremented (?mp key) else ?mp key)"
    proof (rule Suc.IH)
      show "\<forall>j < k'. ?mp (keyobj (Suc i + j)) \<noteq> None"
      proof (intro allI impI)
        fix j assume "j < k'"
        then have "Suc i + j < 2 ^ 32" "Suc j < k" using Suc.prems(1,2) \<open>k = Suc k'\<close> by simp_all
        then show "?mp (keyobj (Suc i + j)) \<noteq> None" using new [of j] Suc.prems(3) [rule_format, of "Suc j"] by simp
      qed
      show "k' = n \<or> ?mp (keyobj (Suc i + k')) = None"
      proof (cases "k' = n")
        case False
        then have "Suc i + k' < 2 ^ 32" using Suc.prems(1,2) \<open>k = Suc k'\<close> by simp
        then show ?thesis using new Suc.prems(4) False \<open>k = Suc k'\<close> by simp
      qed simp
    qed (use Suc.prems \<open>k = Suc k'\<close> in simp_all)
    moreover have "(\<exists>j < k. key = keyobj (i + j)) \<longleftrightarrow> key = keyobj i \<or> (\<exists>j < k'. key = keyobj (Suc i + j))" for key
      using \<open>k = Suc k'\<close> less_Suc_eq_0_disj by auto
    moreover have "keyobj i \<noteq> keyobj (Suc i + j)" if "j < k'" for j
      using that keyobj_inj [of i "Suc i + j"] Suc.prems(1,2) \<open>k = Suc k'\<close> by simp
    ultimately show ?thesis using v by (auto simp: fun_eq_iff)
  qed
qed simp

text \<open>The hash map benchmark increments the counter of each of the keys 0 to 31, once, up to the first
  that is not in the map; no other entry changes and none is added.\<close>

theorem hash_map_counts:
  assumes "k \<le> 32" and "\<forall>j < k. mp (keyobj j) \<noteq> None" and "k = 32 \<or> mp (keyobj k) = None"
  shows "hash_map mp = (DROP, \<lambda>key. if \<exists>j < k. key = keyobj j then map_option incremented (mp key) else mp key)"
  using hash_rounds_result [of 0 32 k mp] assms by (simp add: hash_map_def)

theorem hash_map_counts_witness:
  "snd (hash_map [keyobj 0 \<mapsto> [255, 0, 0, 0, 7, 7, 7, 7]]) (keyobj 0) = Some [0, 1, 0, 0, 7, 7, 7, 7]"
proof -
  have "keyobj 1 \<noteq> keyobj 0" using keyobj_inj [of 1 0] by simp
  moreover have "incremented [255, 0, 0, 0, 7, 7, 7, 7] = [0, 1, 0, 0, 7, 7, 7, 7]" by code_simp
  ultimately show ?thesis using hash_map_counts [of 1 "[keyobj 0 \<mapsto> [255, 0, 0, 0, 7, 7, 7, 7]]"] by simp
qed

section \<open>A batch is packet by packet\<close>

lemma batch_processing_entry_iff:
  "batch_processing_entry prog ps = Inr rs \<longleftrightarrow> list_all2 (\<lambda>p r. prog p = Inr r) ps rs"
  by (induction ps arbitrary: rs) (auto simp: c_bind_Inr_iff list_all2_Cons1)

lemma batch_processing_entry_fails:
  "batch_processing_entry prog ps = Inl e \<Longrightarrow> \<exists>p \<in> set ps. prog p = Inl e"
  by (induction ps) (auto simp: c_bind_def split: sum.splits)

end
