(* ===== verification/PacketParser.thy ===== *)
theory PacketParser
  imports PacketPrograms
begin
text \<open>
  The parser of a load balancer, as the benchmark \<open>examples/benchmarks/packet_processing.c\<close> runs it on
  the engine.
\<close>

section \<open>The program\<close>

definition IPPROTO_ICMP :: u8 where "IPPROTO_ICMP = 1"
definition IPPROTO_FRAGMENT :: u8 where "IPPROTO_FRAGMENT = 44"
definition IPPROTO_ICMPV6 :: u8 where "IPPROTO_ICMPV6 = 58"
definition ETH_P_IPV6 :: "u8 list" where "ETH_P_IPV6 = [0x86, 0xDD]"
definition PCKT_FRAGMENTED :: u16 where "PCKT_FRAGMENTED = 65343"
definition CONTINUE :: int where "CONTINUE = -1"

text \<open>
  The fields of \<open>struct packet_description\<close> that are set, and the two results of the parser. The address
  unions are their 16 bytes.
\<close>

record packet_description =
  srcv6 :: "u8 list"
  dstv6 :: "u8 list"
  flow_proto :: u8
  pckt_tos :: u8
  pkt_bytes :: u16

definition no_description :: packet_description where
  "no_description = \<lparr>srcv6 = replicate 16 0, dstv6 = replicate 16 0, flow_proto = 0, pckt_tos = 0, pkt_bytes = 0\<rparr>"

text \<open>The two branches: an early result, or none.\<close>

definition ipv6_part :: "packet \<Rightarrow> int \<Rightarrow> packet_description \<Rightarrow> (int \<times> packet_description) c_result" where
  "ipv6_part p ip6h t =
     (if out_of_pkt p ip6h 40 then Inr (DROP, t)
      else c_bind (peek 40 ip6h (mem p)) (\<lambda>h.
        let t = t\<lparr>flow_proto := h ! 6,
              pckt_tos := (push_bit 4 (h ! 0 AND 15) AND 0xF0) OR (drop_bit 4 (h ! 1) AND 0x0F),
              pkt_bytes := load16_be (chunk 2 4 h)\<rparr> in
        if h ! 6 = IPPROTO_FRAGMENT then Inr (DROP, t)
        else if h ! 6 = IPPROTO_ICMPV6 then Inr (DROP, t)
        else Inr (CONTINUE, t\<lparr>srcv6 := chunk 16 8 h, dstv6 := chunk 16 24 h\<rparr>)))"

definition ipv4_part :: "packet \<Rightarrow> int \<Rightarrow> packet_description \<Rightarrow> (int \<times> packet_description) c_result" where
  "ipv4_part p iph t =
     (if out_of_pkt p iph 20 then Inr (DROP, t)
      else c_bind (peek 20 iph (mem p)) (\<lambda>h.
        if h ! 0 AND 15 \<noteq> 5 then Inr (DROP, t)
        else let t = t\<lparr>flow_proto := h ! 9, pckt_tos := h ! 1, pkt_bytes := load16_be (chunk 2 2 h)\<rparr> in
        if load16 (chunk 2 6 h) AND PCKT_FRAGMENTED \<noteq> 0 then Inr (DROP, t)
        else if h ! 9 = IPPROTO_ICMP then Inr (DROP, t)
        else Inr (CONTINUE, t\<lparr>srcv6 := overwrite 0 (chunk 4 12 h) (srcv6 t),
               dstv6 := overwrite 0 (chunk 4 16 h) (dstv6 t)\<rparr>)))"

text \<open>
  After the branches the type of service is incremented through the pointer to the IPv4 header, which
  the other branch has not set.
\<close>

definition process_l3_headers ::
  "packet \<Rightarrow> bool \<Rightarrow> packet_description \<Rightarrow> (int \<times> packet \<times> packet_description) c_result" where
  "process_l3_headers p is_ipv6 t =
     (let h = pkt_data p + 14; iph = (if is_ipv6 then None else Some h) in
      c_bind (if is_ipv6 then ipv6_part p h t else ipv4_part p h t) (\<lambda>(action, t).
      if action \<ge> 0 then Inr (action, p, t)
      else case iph of None \<Rightarrow> Inl WildPointer
        | Some ip \<Rightarrow> c_bind (peek 1 (ip + 1) (mem p)) (\<lambda>b.
            c_bind (poke (ip + 1) [b ! 0 + 1] (mem p)) (\<lambda>m. Inr (CONTINUE, p\<lparr>mem := m\<rparr>, t)))))"

fun l3_rounds ::
  "nat \<Rightarrow> packet \<Rightarrow> bool \<Rightarrow> packet_description \<Rightarrow> (int \<times> packet) c_result" where
  "l3_rounds 0 p is_ipv6 t = Inr (CONTINUE, p)"
| "l3_rounds (Suc n) p is_ipv6 t =
     c_bind (process_l3_headers p is_ipv6 t) (\<lambda>(action, p, t).
     if action \<ge> 0 then Inr (action, p)
     else if pkt_bytes t = 0 then Inr (DROP, p)
     else if load32 (srcv6 t) XOR load32 (dstv6 t) = 0 then Inr (DROP, p)
     else if pkt_data p + 48 < pkt_end p then
       c_bind (peek 4 (pkt_data p + 23) (mem p)) (\<lambda>b.
       c_bind (poke (pkt_data p + 23) (store32 (load32 b + 1)) (mem p)) (\<lambda>m.
       l3_rounds n (p\<lparr>mem := m\<rparr>) is_ipv6 t))
     else l3_rounds n p is_ipv6 t)"

declare l3_rounds.simps(2) [simp del]

definition packet_processing :: "packet \<Rightarrow> (int \<times> packet) c_result" where
  "packet_processing p =
     (let eth = pkt_data p in
      if out_of_pkt p eth 14 then Inr (DROP, p)
      else c_bind (peek 2 (eth + 12) (mem p)) (\<lambda>eth_proto.
      if eth_proto \<noteq> ETH_P_IP \<and> eth_proto \<noteq> ETH_P_IPV6 then Inr (DROP, p)
      else c_bind (l3_rounds 2 p (eth_proto = ETH_P_IPV6) no_description) (\<lambda>(action, p).
        if action \<ge> 0 then Inr (action, p)
        else c_bind (swap_loop 6 (eth + 6) eth (mem p)) (\<lambda>m. Inr (SEND, p\<lparr>mem := m\<rparr>)))))"

text \<open>The two rounds of a packet with one of the two types.\<close>

lemma packet_processing_start:
  assumes "packet_at d e p" and "d + 14 \<le> e" and "chunk 2 (d + 12) (mem p) = ptype" and "ptype \<in> {ETH_P_IP, ETH_P_IPV6}"
  shows "packet_processing p = c_bind (l3_rounds (Suc (Suc 0)) p (ptype = ETH_P_IPV6) no_description) (\<lambda>(action, p).
    if action \<ge> 0 then Inr (action, p)
    else c_bind (swap_loop 6 (int d + 6) (int d) (mem p)) (\<lambda>m. Inr (SEND, p\<lparr>mem := m\<rparr>)))"
proof -
  have at: "pkt_data p = int d" "pkt_end p = int e" and le: "e \<le> length (mem p)"
    using assms(1) by (simp_all add: packet_at_def)
  have "peek 2 (int d + 12) (mem p) = Inr ptype" using assms le by (simp add: peek_inside)
  then show ?thesis using assms(2,4)
    by (auto simp: packet_processing_def at Let_def out_of_pkt_def numeral_2_eq_2 [symmetric])
qed

section \<open>IPv6\<close>

text \<open>The parser cannot handle IPv6: every packet of that type with a complete header that is neither a
  fragment nor ICMP makes it write through a pointer that was never set.\<close>

theorem parser_ipv6_fails:
  assumes "packet_at d e p" and "chunk 2 (d + 12) (mem p) = ETH_P_IPV6" and "d + 54 \<le> e"
  shows "packet_processing p = (if mem p ! (d + 20) \<in> {IPPROTO_FRAGMENT, IPPROTO_ICMPV6} then Inr (DROP, p) else Inl WildPointer)"
proof -
  have at: "pkt_data p = int d" "pkt_end p = int e" and le: "e \<le> length (mem p)"
    using assms(1) by (simp_all add: packet_at_def)
  have h: "peek 40 (int d + 14) (mem p) = Inr (chunk 40 (d + 14) (mem p))" using assms(3) le by (simp add: peek_inside)
  have n: "chunk 40 (d + 14) (mem p) ! 6 = mem p ! (d + 20)" using assms(3) le by (simp add: add.commute)
  have "d + 14 \<le> e" using assms(3) by simp
  note start = packet_processing_start [OF assms(1) this assms(2)]
  show ?thesis
  proof (cases "mem p ! (d + 20) \<in> {IPPROTO_FRAGMENT, IPPROTO_ICMPV6}")
    case True
    then have "\<exists>t. process_l3_headers p True no_description = Inr (DROP, p, t)" using assms(3)
      by (auto simp: process_l3_headers_def ipv6_part_def at Let_def out_of_pkt_def h n DROP_def)
    then show ?thesis using True by (auto simp: start l3_rounds.simps(2) DROP_def)
  next
    case False
    then have "process_l3_headers p True no_description = Inl WildPointer" using assms(3)
      by (simp add: process_l3_headers_def ipv6_part_def at Let_def out_of_pkt_def h n CONTINUE_def)
    then show ?thesis using False by (simp add: start l3_rounds.simps(2))
  qed
qed

theorem parser_ipv6_fails_witness:
  "packet_processing (demo_packet\<lparr>mem := replicate 12 0 @ [0x86, 0xDD] @ replicate 40 0, pkt_end := 54\<rparr>) = Inl WildPointer"
  using parser_ipv6_fails [of 0 54 "demo_packet\<lparr>mem := replicate 12 0 @ [0x86, 0xDD] @ replicate 40 0, pkt_end := 54\<rparr>"]
  by (simp add: packet_at_def demo_packet_def ETH_P_IPV6_def chunk_def nth_append IPPROTO_FRAGMENT_def IPPROTO_ICMPV6_def)

section \<open>IPv4\<close>

text \<open>
  What one round requires of the header, and what it does to the memory: the type of service, and for a
  packet of more than 48 bytes the four bytes from the protocol on.
\<close>

definition ipv4_accepted :: "nat \<Rightarrow> u8 list \<Rightarrow> bool" where
  "ipv4_accepted d m \<longleftrightarrow> m ! (d + 14) AND 15 = 5 \<and> load16 (chunk 2 (d + 20) m) AND PCKT_FRAGMENTED = 0 \<and>
     m ! (d + 23) \<noteq> IPPROTO_ICMP"

definition flow_accepted :: "nat \<Rightarrow> u8 list \<Rightarrow> bool" where
  "flow_accepted d m \<longleftrightarrow> load16_be (chunk 2 (d + 16) m) \<noteq> 0 \<and> load32 (chunk 4 (d + 26) m) \<noteq> load32 (chunk 4 (d + 30) m)"

definition tos_counted :: "nat \<Rightarrow> u8 list \<Rightarrow> u8 list" where
  "tos_counted d m = overwrite (d + 15) [m ! (d + 15) + 1] m"

definition round_mem :: "nat \<Rightarrow> nat \<Rightarrow> u8 list \<Rightarrow> u8 list" where
  "round_mem d e m = (let m = tos_counted d m in
     if d + 48 < e then overwrite (d + 23) (store32 (load32 (chunk 4 (d + 23) m) + 1)) m else m)"

lemma length_round_mem [simp]:
  "d + 34 \<le> length m \<Longrightarrow> length (tos_counted d m) = length m"
  "d + 34 \<le> length m \<Longrightarrow> length (round_mem d e m) = length m"
  by (simp_all add: tos_counted_def round_mem_def Let_def)

lemma load32_four: "load32 (overwrite 0 [a, b, c, d] xs) = load32 [a, b, c, d]"
  by (simp add: load32_def overwrite_def)

lemma load32_overwrite: "length bs = 4 \<Longrightarrow> load32 (overwrite 0 bs xs) = load32 bs"
proof -
  assume "length bs = 4"
  then obtain a b c d where "bs = [a, b, c, d]" by (auto simp: length_Suc_conv eval_nat_numeral)
  then show ?thesis by (simp add: load32_four)
qed

lemma xor_zero: "a XOR b = 0 \<longleftrightarrow> a = b" for a b :: u32
  by (auto simp: bit_eq_iff bit_simps)

text \<open>One round.\<close>

lemma process_l3_ipv4:
  assumes "packet_at d e p" and "d + 34 \<le> e"
  shows "ipv4_accepted d (mem p) \<Longrightarrow> \<exists>t'. process_l3_headers p False t =
      Inr (CONTINUE, p\<lparr>mem := tos_counted d (mem p)\<rparr>, t') \<and>
      (pkt_bytes t' \<noteq> 0 \<and> load32 (srcv6 t') XOR load32 (dstv6 t') \<noteq> 0 \<longleftrightarrow> flow_accepted d (mem p))"
    and "\<not> ipv4_accepted d (mem p) \<Longrightarrow> \<exists>t'. process_l3_headers p False t = Inr (DROP, p, t')"
proof -
  have at: "pkt_data p = int d" "pkt_end p = int e" and le: "e \<le> length (mem p)"
    using assms(1) by (simp_all add: packet_at_def)
  let ?h = "chunk 20 (d + 14) (mem p)"
  have pk: "peek 20 (int d + 14) (mem p) = Inr ?h" using assms(2) le by (simp add: peek_inside)
  have n: "?h ! 0 = mem p ! (d + 14)" "?h ! 9 = mem p ! (d + 23)" using assms(2) le by (simp_all add: add.commute)
  have c: "chunk 2 2 ?h = chunk 2 (d + 16) (mem p)" "chunk 2 6 ?h = chunk 2 (d + 20) (mem p)"
    "chunk 4 12 ?h = chunk 4 (d + 26) (mem p)" "chunk 4 16 ?h = chunk 4 (d + 30) (mem p)"
    by (simp_all add: chunk_of_chunk add.commute)
  have len: "length (chunk 4 (d + 26) (mem p)) = 4" "length (chunk 4 (d + 30) (mem p)) = 4" using assms(2) le by simp_all
  have b: "peek 1 (int d + 14 + 1) (mem p) = Inr [mem p ! (d + 15)]"
    "poke (int d + 14 + 1) [mem p ! (d + 15) + 1] (mem p) = Inr (tos_counted d (mem p))"
    using assms(2) le by (simp_all add: peek_inside poke_inside chunk_one tos_counted_def)
  show "\<exists>t'. process_l3_headers p False t = Inr (DROP, p, t')" if "\<not> ipv4_accepted d (mem p)"
    using that assms(2)
    by (auto simp: process_l3_headers_def ipv4_part_def at Let_def out_of_pkt_def pk n c ipv4_accepted_def DROP_def)
  let ?t = "t\<lparr>flow_proto := mem p ! (d + 23), pckt_tos := ?h ! 1, pkt_bytes := load16_be (chunk 2 (d + 16) (mem p)),
    srcv6 := overwrite 0 (chunk 4 (d + 26) (mem p)) (srcv6 t), dstv6 := overwrite 0 (chunk 4 (d + 30) (mem p)) (dstv6 t)\<rparr>"
  assume "ipv4_accepted d (mem p)"
  then have "process_l3_headers p False t = Inr (CONTINUE, p\<lparr>mem := tos_counted d (mem p)\<rparr>, ?t)"
    using assms(2) b
    by (simp add: process_l3_headers_def ipv4_part_def at Let_def out_of_pkt_def pk n c ipv4_accepted_def CONTINUE_def)
  moreover have "pkt_bytes ?t \<noteq> 0 \<and> load32 (srcv6 ?t) XOR load32 (dstv6 ?t) \<noteq> 0 \<longleftrightarrow> flow_accepted d (mem p)"
    by (simp add: load32_overwrite len flow_accepted_def xor_zero)
  ultimately show "\<exists>t'. process_l3_headers p False t = Inr (CONTINUE, p\<lparr>mem := tos_counted d (mem p)\<rparr>, t') \<and>
      (pkt_bytes t' \<noteq> 0 \<and> load32 (srcv6 t') XOR load32 (dstv6 t') \<noteq> 0 \<longleftrightarrow> flow_accepted d (mem p))"
    by blast
qed

lemma l3_round_ipv4:
  assumes "packet_at d e p" and "d + 34 \<le> e"
  shows "ipv4_accepted d (mem p) \<Longrightarrow> flow_accepted d (mem p) \<Longrightarrow>
      \<exists>t'. l3_rounds (Suc n) p False t = l3_rounds n (p\<lparr>mem := round_mem d e (mem p)\<rparr>) False t'"
    and "\<not> ipv4_accepted d (mem p) \<Longrightarrow> l3_rounds (Suc n) p False t = Inr (DROP, p)"
    and "ipv4_accepted d (mem p) \<Longrightarrow> \<not> flow_accepted d (mem p) \<Longrightarrow>
      l3_rounds (Suc n) p False t = Inr (DROP, p\<lparr>mem := tos_counted d (mem p)\<rparr>)"
proof -
  have at: "pkt_data p = int d" "pkt_end p = int e" and le: "e \<le> length (mem p)"
    using assms(1) by (simp_all add: packet_at_def)
  let ?m = "tos_counted d (mem p)"
  have len: "length ?m = length (mem p)" using assms(2) le by simp
  have pk: "peek 4 (int d + 23) ?m = Inr (chunk 4 (d + 23) ?m)"
    "poke (int d + 23) (store32 (load32 (chunk 4 (d + 23) ?m) + 1)) ?m =
      Inr (overwrite (d + 23) (store32 (load32 (chunk 4 (d + 23) ?m) + 1)) ?m)"
    using assms(2) le len by (simp_all add: peek_inside poke_inside)
  show "l3_rounds (Suc n) p False t = Inr (DROP, p)" if "\<not> ipv4_accepted d (mem p)"
    using process_l3_ipv4(2) [OF assms that, of t] by (auto simp: l3_rounds.simps(2) DROP_def)
  show "l3_rounds (Suc n) p False t = Inr (DROP, p\<lparr>mem := ?m\<rparr>)"
    if "ipv4_accepted d (mem p)" "\<not> flow_accepted d (mem p)"
    using process_l3_ipv4(1) [OF assms that(1), of t] that(2) by (auto simp: l3_rounds.simps(2) CONTINUE_def)
  assume a: "ipv4_accepted d (mem p)" "flow_accepted d (mem p)"
  from process_l3_ipv4(1) [OF assms a(1), of t] a(2) obtain t' where
    t': "process_l3_headers p False t = Inr (CONTINUE, p\<lparr>mem := ?m\<rparr>, t')"
      "pkt_bytes t' \<noteq> 0" "load32 (srcv6 t') XOR load32 (dstv6 t') \<noteq> 0" by blast
  have "l3_rounds (Suc n) p False t = l3_rounds n (p\<lparr>mem := round_mem d e (mem p)\<rparr>) False t'"
    using t' pk by (simp add: l3_rounds.simps(2) at CONTINUE_def round_mem_def Let_def)
  then show "\<exists>t'. l3_rounds (Suc n) p False t = l3_rounds n (p\<lparr>mem := round_mem d e (mem p)\<rparr>) False t'" by blast
qed

text \<open>C18: an IPv4 packet is answered exactly if its header passes the checks twice, the second time as the
  first round left it: with the type of service and, in packets of more than 48 bytes, the number that
  starts at the protocol field increased. No access leaves the packet.\<close>

theorem parser_ipv4:
  assumes "packet_at d e p" and "chunk 2 (d + 12) (mem p) = ETH_P_IP" and "d + 34 \<le> e"
  shows "packet_processing p =
    (let m = mem p; m1 = round_mem d e m in
     if \<not> ipv4_accepted d m then Inr (DROP, p)
     else if \<not> flow_accepted d m then Inr (DROP, p\<lparr>mem := tos_counted d m\<rparr>)
     else if \<not> ipv4_accepted d m1 then Inr (DROP, p\<lparr>mem := m1\<rparr>)
     else if \<not> flow_accepted d m1 then Inr (DROP, p\<lparr>mem := tos_counted d m1\<rparr>)
     else Inr (SEND, p\<lparr>mem := mac_swapped d (round_mem d e m1)\<rparr>))"
proof -
  have at: "pkt_data p = int d" "pkt_end p = int e" and le: "e \<le> length (mem p)"
    using assms(1) by (simp_all add: packet_at_def)
  let ?p1 = "p\<lparr>mem := round_mem d e (mem p)\<rparr>"
  have len: "length (round_mem d e (mem p)) = length (mem p)" using assms(3) le by simp
  have p1: "packet_at d e ?p1" using assms(1) len by (simp add: packet_at_def)
  let ?m1 = "round_mem d e (mem p)"
  have d14: "d + 14 \<le> e" using assms(3) by simp
  have neq: "ETH_P_IP \<noteq> ETH_P_IPV6" by (simp add: ETH_P_IP_def ETH_P_IPV6_def)
  have start: "packet_processing p = c_bind (l3_rounds (Suc (Suc 0)) p False no_description) (\<lambda>(action, p).
    if action \<ge> 0 then Inr (action, p)
    else c_bind (swap_loop 6 (int d + 6) (int d) (mem p)) (\<lambda>m. Inr (SEND, p\<lparr>mem := m\<rparr>)))"
    using packet_processing_start [OF assms(1) d14 assms(2)] neq by simp
  have sw: "swap_loop 6 (int d + 6) (int d) (round_mem d e ?m1) = Inr (mac_swapped d (round_mem d e ?m1))"
    using assms(3) le len by (simp add: swap_loop_inside mac_swapped_def)
  note first = l3_round_ipv4 [OF assms(1,3), of "Suc 0" no_description]
  note second = l3_round_ipv4 [OF p1 assms(3), of 0]
  consider "\<not> ipv4_accepted d (mem p)" | "ipv4_accepted d (mem p)" "\<not> flow_accepted d (mem p)"
    | "ipv4_accepted d (mem p)" "flow_accepted d (mem p)" by blast
  then show ?thesis
  proof cases
    case 1
    then show ?thesis using first(2) by (simp add: start DROP_def)
  next
    case 2
    then show ?thesis using first(3) by (simp add: start DROP_def)
  next
    case 3
    then obtain t where one: "l3_rounds (Suc (Suc 0)) p False no_description = l3_rounds (Suc 0) ?p1 False t"
      using first(1) by blast
    consider "\<not> ipv4_accepted d ?m1" | "ipv4_accepted d ?m1" "\<not> flow_accepted d ?m1"
      | "ipv4_accepted d ?m1" "flow_accepted d ?m1" by blast
    then show ?thesis
    proof cases
      case 1
      then show ?thesis using 3 second(2) [of t] by (simp add: start one DROP_def)
    next
      case 2
      then show ?thesis using 3 second(3) [of t] by (simp add: start one DROP_def)
    next
      case accepted: 3
      then obtain t' where two: "l3_rounds (Suc 0) ?p1 False t = l3_rounds 0 (p\<lparr>mem := round_mem d e ?m1\<rparr>) False t'"
        using second(1) [of t] by auto
      have "l3_rounds 0 (p\<lparr>mem := round_mem d e ?m1\<rparr>) False t' = Inr (CONTINUE, p\<lparr>mem := round_mem d e ?m1\<rparr>)" by simp
      then show ?thesis using 3 accepted sw
        by (simp add: start one two CONTINUE_def)
    qed
  qed
qed

theorem parser_ipv4_witness: "packet_processing demo_packet = Inr (SEND, demo_packet\<lparr>mem := mac_swapped 0
    (overwrite 15 [2] (mem demo_packet))\<rparr>)"
proof -
  have "ipv4_accepted 0 (mem demo_packet)" "flow_accepted 0 (mem demo_packet)"
    "ipv4_accepted 0 (round_mem 0 44 (mem demo_packet))" "flow_accepted 0 (round_mem 0 44 (mem demo_packet))"
    "round_mem 0 44 (round_mem 0 44 (mem demo_packet)) = overwrite 15 [2] (mem demo_packet)" by code_simp+
  then show ?thesis using parser_ipv4 [OF demo_packet_at]
    by (simp add: demo_packet_def chunk_def ETH_P_IP_def Let_def)
qed

end
