(* ===== verification/ProgramRun.thy ===== *)
theory ProgramRun
  imports Benchmarks PacketParser DataPath
begin
text \<open>
  Packet programs in the data path: the runtime hands a received frame to the program as a context, and
  what the program leaves in the context decides what is put on the transmit ring.
\<close>

section \<open>The engine on top of the rings\<close>

text \<open>The context of a frame of \<open>n\<close> bytes at offset \<open>a\<close> of the packet memory (\<open>src/heart.c\<close>, \<open>pump_packets\<close>).\<close>

definition packet_of :: "nat \<Rightarrow> u32 \<Rightarrow> u8 list \<Rightarrow> u32 option \<Rightarrow> packet" where
  "packet_of a n m t = \<lparr>mem = m, pkt_data = int a, pkt_end = int a + int (unat n), pkt_len = n, trim_head = 0, tput = t\<rparr>"

text \<open>
  Rings as in \<open>XskApi\<close> together with the packet memory and the counter of the programs. A run that ends in
  an error leaves all of it; the theorems below are about runs without one.
\<close>

record 'w engine_world =
  rings :: 'w
  umem :: "u8 list"
  counter :: "u32 option"

definition on_rings :: "('w \<Rightarrow> 'w) \<Rightarrow> 'w engine_world \<Rightarrow> 'w engine_world" where
  "on_rings f w = w\<lparr>rings := f (rings w)\<rparr>"

definition on_rings3 :: "('w \<Rightarrow> 'a \<times> 'b \<times> 'w) \<Rightarrow> 'w engine_world \<Rightarrow> 'a \<times> 'b \<times> 'w engine_world" where
  "on_rings3 f w = (case f (rings w) of (x, y, v) \<Rightarrow> (x, y, w\<lparr>rings := v\<rparr>))"

definition run_on ::
  "(packet \<Rightarrow> (int \<times> packet) c_result) \<Rightarrow> u64 \<Rightarrow> u32 \<Rightarrow> 'w engine_world \<Rightarrow> int \<times> u32 \<times> u32 \<times> 'w engine_world" where
  "run_on prog a n w =
     (case prog (packet_of (unat a) n (umem w) (counter w)) of
        Inl e \<Rightarrow> (-1, n, 0, w)
      | Inr (ret, p) \<Rightarrow> (ret, pkt_len p, trim_head p, w\<lparr>umem := mem p, counter := tput p\<rparr>))"

definition with_engine :: "(packet \<Rightarrow> (int \<times> packet) c_result) \<Rightarrow> 'w xsk_api \<Rightarrow> 'w engine_world xsk_api" where
  "with_engine prog api = \<lparr>
     prod_reserve = (\<lambda>r n. on_rings3 (prod_reserve api r n)),
     prod_write = (\<lambda>r i d. on_rings (prod_write api r i d)),
     prod_submit = (\<lambda>r n. on_rings (prod_submit api r n)),
     needs_wakeup = (\<lambda>w. needs_wakeup api (rings w)),
     cons_peek = (\<lambda>r n. on_rings3 (cons_peek api r n)),
     cons_desc = (\<lambda>r i w. cons_desc api r i (rings w)),
     cons_release = (\<lambda>r n. on_rings (cons_release api r n)),
     wake_rx = on_rings (wake_rx api),
     send_tx = on_rings3 (send_tx api),
     extract_addr = extract_addr api,
     add_offset = add_offset api,
     run_prog = run_on prog,
     umem_bytes = (\<lambda>a n w. take (unat n) (drop (unat a) (umem w) @ replicate (unat n) 0)),
     udp_send = (\<lambda>b w. case udp_send api b (rings w) of (r, v) \<Rightarrow> (r, w\<lparr>rings := v\<rparr>))\<rparr>"

lemma with_engine_simps [simp]:
  "prod_reserve (with_engine prog api) r n = on_rings3 (prod_reserve api r n)"
  "prod_write (with_engine prog api) r i d = on_rings (prod_write api r i d)"
  "prod_submit (with_engine prog api) r n = on_rings (prod_submit api r n)"
  "cons_release (with_engine prog api) k n = on_rings (cons_release api k n)"
  "cons_desc (with_engine prog api) k i w = cons_desc api k i (rings w)"
  "cons_peek (with_engine prog api) k n = on_rings3 (cons_peek api k n)"
  "run_prog (with_engine prog api) = run_on prog"
  "extract_addr (with_engine prog api) = extract_addr api" "add_offset (with_engine prog api) = add_offset api"
  "wake_rx (with_engine prog api) = on_rings (wake_rx api)" "send_tx (with_engine prog api) = on_rings3 (send_tx api)"
  "udp_send (with_engine prog api) b w = (case udp_send api b (rings w) of (r, v) \<Rightarrow> (r, w\<lparr>rings := v\<rparr>))"
  "length (umem_bytes (with_engine prog api) a l w) = unat l"
  by (simp_all add: with_engine_def)

lemma on_rings_simps [simp]:
  "rings (on_rings f w) = f (rings w)" "umem (on_rings f w) = umem w" "counter (on_rings f w) = counter w"
  by (simp_all add: on_rings_def)

lemma on_rings3_Pair:
  "on_rings3 f w = (x, y, w') \<longleftrightarrow> f (rings w) = (x, y, rings w') \<and> w' = w\<lparr>rings := rings w'\<rparr>"
  by (cases "f (rings w)"; cases w; cases w') (auto simp: on_rings3_def)

text \<open>The engine keeps the laws of the rings.\<close>

lemma with_engine_laws:
  assumes "xsk_laws api view"
  shows "xsk_laws (with_engine prog api) (\<lambda>w. view (rings w))"
proof -
  note l = xsk_lawsD [OF assms]
  have "reserve_law (with_engine prog api) (\<lambda>w. view (rings w))"
    unfolding reserve_law_def with_engine_simps on_rings3_Pair using l(1) unfolding reserve_law_def by blast
  moreover have "peek_law (with_engine prog api) (\<lambda>w. view (rings w))"
    unfolding peek_law_def with_engine_simps on_rings3_Pair using l(4) unfolding peek_law_def by blast
  moreover have "write_law (with_engine prog api) (\<lambda>w. view (rings w))"
    using l(2) by (simp add: write_law_def)
  moreover have "submit_law (with_engine prog api) (\<lambda>w. view (rings w))" using l(3) by (simp add: submit_law_def)
  moreover have "desc_law (with_engine prog api) (\<lambda>w. view (rings w))" using l(5) by (simp add: desc_law_def)
  moreover have "release_law (with_engine prog api) (\<lambda>w. view (rings w))" using l(6) by (simp add: release_law_def)
  moreover have "other_law (with_engine prog api) (\<lambda>w. view (rings w))"
    unfolding other_law_def with_engine_simps on_rings3_Pair using other_lawD(1,2,4) [OF assms]
    by (auto simp: run_on_def split: sum.splits prod.splits)
  ultimately show ?thesis by (simp add: xsk_laws_def)
qed

text \<open>Placing a frame does not touch the packet memory.\<close>

lemma prod_reserve_umem:
  "prod_reserve (with_engine prog api) r n w = (ret, idx, w') \<Longrightarrow> umem w' = umem w \<and> counter w' = counter w"
  by (cases w; cases w') (auto simp: on_rings3_def split: prod.splits)

lemma place_entries_umem:
  "umem (place_entries (with_engine prog api) r idx ds w) = umem w \<and>
   counter (place_entries (with_engine prog api) r idx ds w) = counter w"
  by (induction ds arbitrary: idx w) simp_all

lemma drop_one_umem:
  "drop_one (with_engine prog api) d s = Inr s' \<Longrightarrow>
    umem (world s') = umem (world s) \<and> counter (world s') = counter (world s)"
  unfolding drop_one_def xsk_drop_def
  by (auto simp: c_bind_Inr_iff c_check_def Let_def place_entries_umem simp del: place_entries.simps with_engine_simps(1)
      dest!: prod_reserve_umem split: prod.splits if_splits)

lemma send_umem:
  "apply_action cf (with_engine prog api) vc s d SEND = Inr s' \<Longrightarrow>
    umem (world s') = umem (world s) \<and> counter (world s') = counter (world s)"
  unfolding apply_action_def xsk_tx_def
  by (auto simp: c_bind_Inr_iff c_check_def Let_def place_entries_umem simp del: place_entries.simps with_engine_simps(1)
      dest!: prod_reserve_umem drop_one_umem split: prod.splits if_splits)

section \<open>A program that answers\<close>

lemma program_answers:
  assumes "xsk_laws api view" and "heart_inv (\<lambda>w. view (rings w)) base s"
    and "taken (cv (view (rings (world s))) RxRing) \<noteq> []"
    and prog: "prog (packet_of (unat (add_offset api (d_addr d))) (d_len d) (umem (world s)) (counter (world s))) = Inr (SEND, p)"
  shows "\<exists>s'. process_packet cf (with_engine prog api) vc s d = Inr s' \<and>
    umem (world s') = mem p \<and> counter (world s') = tput p \<and> sent_count s' = sent_count s + 1 \<and> chan s' = chan s \<and>
    view (rings (world s')) = placed api \<lparr>d_addr = d_addr d + scast (trim_head p), d_len = pkt_len p\<rparr>
      (send_place (with_engine prog api) ((world s)\<lparr>umem := mem p, counter := tput p\<rparr>)) (view (rings (world s)))"
proof -
  let ?api = "with_engine prog api" and ?w = "(world s)\<lparr>umem := mem p, counter := tput p\<rparr>"
  let ?d = "\<lparr>d_addr = d_addr d + scast (trim_head p), d_len = pkt_len p\<rparr>"
  have run: "run_prog ?api (add_offset ?api (d_addr d)) (d_len d) (world s) = (SEND, pkt_len p, trim_head p, ?w)"
    using prog by (simp add: run_on_def)
  have h: "holds (\<lambda>w. view (rings w)) base None (Some NullDeref) (Suc 0) 0 (s\<lparr>world := ?w\<rparr>)"
    using assms(2,3) by (simp add: holds_def heart_inv_def Let_def Suc_le_eq)
  from send_placed [OF with_engine_laws [OF assms(1), of prog] h, where cf = cf and vc = vc and d = ?d] obtain w' where
    w': "apply_action cf ?api vc (s\<lparr>world := ?w\<rparr>) ?d SEND = Inr (s\<lparr>world := w',
        outstanding_tx := outstanding_tx s + (if send_place ?api ?w = OnTx then 1 else 0)\<rparr>)"
      "view (rings w') = placed ?api ?d (send_place ?api ?w) (view (rings (world s)))" by auto
  have "umem w' = mem p" "counter w' = tput p" using send_umem [OF w'(1)] by simp_all
  moreover have "placed ?api ?d = placed api ?d" by (simp add: placed_def tx_entry_def fill_entry_def fun_eq_iff split: placement.split)
  moreover have "process_packet cf ?api vc s d = Inr (s\<lparr>world := w',
      outstanding_tx := outstanding_tx s + (if send_place ?api ?w = OnTx then 1 else 0), sent_count := sent_count s + 1\<rparr>)"
    unfolding process_packet_def run Let_def prod.case w'(1) by simp
  ultimately show ?thesis using w'(2) by simp
qed

text \<open>C13: a received frame that echo answers, at any place of the packet memory: the frame's descriptor,
  with the same address and length, is what is put on the transmit ring if that has room, its bytes are
  then those of the answer, and no other byte of the packet memory has changed.\<close>

theorem echo_served:
  fixes a :: nat
  assumes "xsk_laws api view" and "heart_inv (\<lambda>w. view (rings w)) base s"
    and "taken (cv (view (rings (world s))) RxRing) \<noteq> []"
    and "a = unat (add_offset api (d_addr d))" and "a + unat (d_len d) \<le> length (umem (world s))"
    and "echo (packet_of a (d_len d) (umem (world s)) (counter (world s))) = Inr (SEND, p)"
    and "\<not> refused (with_engine echo api) TxRing ((world s)\<lparr>umem := mem p\<rparr>)"
  shows "\<exists>s'. process_packet cf (with_engine echo api) vc s d = Inr s' \<and>
    submitted (pv (view (rings (world s'))) TxRing) =
      submitted (pv (view (rings (world s))) TxRing) @ [\<lparr>d_addr = extract_addr api (d_addr d), d_len = d_len d\<rparr>] \<and>
    umem (world s') = reply_mem a (umem (world s)) \<and>
    (\<forall>i < length (umem (world s)). i < a \<or> a + unat (d_len d) \<le> i \<longrightarrow> umem (world s') ! i = umem (world s) ! i)"
proof -
  let ?p = "packet_of a (d_len d) (umem (world s)) (counter (world s))"
  have at: "packet_at a (a + unat (d_len d)) ?p" using assms(5) by (simp add: packet_at_def packet_of_def)
  have p: "p = ?p\<lparr>mem := reply_mem a (umem (world s))\<rparr>"
    using echo_sends(1) [OF at assms(6)] by (simp add: packet_of_def)
  then have f: "mem p = reply_mem a (umem (world s))" "tput p = counter (world s)" "pkt_len p = d_len d" "trim_head p = 0"
    by (simp_all add: packet_of_def)
  have "(world s)\<lparr>umem := mem p, counter := tput p\<rparr> = (world s)\<lparr>umem := mem p\<rparr>" by (simp add: f)
  then have "send_place (with_engine echo api) ((world s)\<lparr>umem := mem p, counter := tput p\<rparr>) = OnTx"
    using assms(7) by (simp add: send_place_def)
  then obtain s' where s': "process_packet cf (with_engine echo api) vc s d = Inr s'" "umem (world s') = mem p"
    "view (rings (world s')) = placed api \<lparr>d_addr = d_addr d, d_len = d_len d\<rparr> OnTx (view (rings (world s)))"
    using program_answers [OF assms(1-3), of echo d p cf vc] assms(4,6) f by auto
  have "mem p ! i = umem (world s) ! i" if "i < length (umem (world s))" "i < a \<or> a + unat (d_len d) \<le> i" for i
  proof -
    have "\<forall>i < length (mem ?p). i < a \<or> a + unat (d_len d) \<le> i \<longrightarrow> mem p ! i = mem ?p ! i"
      using echo_inside [OF at] unfolding assms(6) by blast
    then show ?thesis using that by (auto simp: packet_of_def)
  qed
  then show ?thesis using s' f by (simp add: placed_def tx_entry_def)
qed

text \<open>A frame of 44 bytes at the start of the packet memory.\<close>

definition demo_engine_heart :: "demo_world engine_world heart" where
  "demo_engine_heart = (let s = demo_heart True True [] in
     \<lparr>world = \<lparr>rings = world s, umem = mem demo_packet, counter = None\<rparr>, outstanding_tx = 0, chan = chan s,
       pkt_count = 0, sent_count = 0, rprt_ts = 0\<rparr>)"

theorem echo_served_witness:
  "\<exists>s'. process_packet demo_config (with_engine echo (demo_api 0)) None demo_engine_heart \<lparr>d_addr = 0, d_len = 44\<rparr> = Inr s' \<and>
    submitted (pv (dview (rings (world s'))) TxRing) = [\<lparr>d_addr = 0, d_len = 44\<rparr>] \<and>
    umem (world s') = reply_mem 0 (mem demo_packet)"
proof -
  let ?s = demo_engine_heart and ?p = "packet_of 0 44 (mem demo_packet) None"
  have inv: "heart_inv (\<lambda>w. dview (rings w)) 0 ?s"
    by (simp add: demo_engine_heart_def Let_def heart_inv_def)
  have at: "packet_at 0 44 ?p" by (simp add: packet_at_def packet_of_def demo_packet_def)
  have e: "echo ?p = Inr (SEND, ?p\<lparr>mem := reply_mem 0 (mem ?p)\<rparr>)"
    by (rule echo_answers [OF at]) (simp_all add: packet_of_def demo_packet_def chunk_def ETH_P_IP_def udp_at_def)
  have room: "\<not> refused (with_engine echo (demo_api 0)) TxRing ((world ?s)\<lparr>umem := m\<rparr>)" for m
    by (simp add: refused_def on_rings3_def demo_reserve_def demo_engine_heart_def demo_heart_def Let_def)
  have s: "umem (world ?s) = mem demo_packet" "counter (world ?s) = None" "length (mem demo_packet) = 44"
    "taken (cv (dview (rings (world ?s))) RxRing) \<noteq> []" "submitted (pv (dview (rings (world ?s))) TxRing) = []"
    by (simp_all add: demo_engine_heart_def Let_def demo_packet_def)
  have f: "add_offset (demo_api 0) = id" "extract_addr (demo_api 0) = id" by (simp_all add: demo_api_def)
  from echo_served [OF demo_laws [of 0] inv s(4), where a = 0 and cf = demo_config and vc = None and d = "\<lparr>d_addr = 0, d_len = 44\<rparr>" and p = "?p\<lparr>mem := reply_mem 0 (mem ?p)\<rparr>"]
  show ?thesis using e room s(1,2,3,5) by (auto simp: f)
qed

end
