(* ===== verification/Batching.thy ===== *)
theory Batching
  imports ProgramRun
begin
text \<open>
  The variant of the pump loop that hands all packets of a turn to the program at once
  (\<open>VM_CALL_BATCHING\<close> in \<open>src/heart.c\<close>), and its agreement with the packet by packet variant.
\<close>

section \<open>The batched turn\<close>

text \<open>
  An entry of the batch: the context of a packet (\<open>struct pktctx\<close>, with the packet's place as an
  offset into the packet memory) and the program's verdict on it.
\<close>

record slot =
  c_data :: u64
  c_end :: u64
  c_len :: u32
  c_trim :: u32
  c_ret :: int

definition prepare_batch :: "'w xsk_api \<Rightarrow> xdp_desc list \<Rightarrow> slot list" where
  "prepare_batch api batch = map (\<lambda>d. let addr = add_offset api (d_addr d) in
     \<lparr>c_data = addr, c_end = addr + ucast (d_len d), c_len = d_len d, c_trim = 0, c_ret = 0\<rparr>) batch"

definition slot_ctx :: "slot \<Rightarrow> pkt_ctx" where
  "slot_ctx c = (c_len c, c_trim c, c_ret c)"

text \<open>
  The batch is handed to the program in one call \<open>fn\<close>, which fills in the final lengths, the trims and
  the verdicts; then the verdicts are applied and the sent packets are counted.
\<close>

definition batch_step ::
  "'w xsk_api \<Rightarrow> (slot list \<Rightarrow> 'w \<Rightarrow> slot list \<times> 'w) \<Rightarrow> xdp_desc list \<Rightarrow> 'w heart \<Rightarrow> 'w heart c_result" where
  "batch_step api fn batch s =
     (let (slots, w) = fn (prepare_batch api batch) (world s); ctxs = map slot_ctx slots in
      c_bind (apply_mix_action api batch ctxs (s\<lparr>world := w\<rparr>)) (\<lambda>s.
      Inr (s\<lparr>sent_count := sent_count s + of_nat (mix_count SEND ctxs)\<rparr>)))"

definition pump_turn_batched ::
  "config \<Rightarrow> 'w xsk_api \<Rightarrow> (slot list \<Rightarrow> 'w \<Rightarrow> slot list \<times> 'w) \<Rightarrow> u64 \<Rightarrow> 'w heart \<Rightarrow> 'w heart c_result" where
  "pump_turn_batched cf api fn now s =
     c_bind (if outstanding_tx s > 0 then c_bind (complete_tx cf api s) (\<lambda>(_, s). Inr s) else Inr s) (\<lambda>s.
     let (rx, batch, w) = poll_rx_queue cf api (batch_size cf) (world s);
         s = s\<lparr>world := w\<rparr> in
     if rx = 0 then Inr s
     else c_bind (batch_step api fn (take (unat rx) batch) s) (\<lambda>s. Inr (report now (ucast rx) s)))"

text \<open>
  A program for batches that does with each packet, one after the other, what the program of \<open>api\<close>
  does with a packet of its own.
\<close>

fun one_by_one :: "'w xsk_api \<Rightarrow> slot list \<Rightarrow> 'w \<Rightarrow> slot list \<times> 'w" where
  "one_by_one api [] w = ([], w)"
| "one_by_one api (c # cs) w =
     (let (ret, len, trim, w) = run_prog api (c_data c) (c_len c) w; (cs, w) = one_by_one api cs w in
      (c\<lparr>c_len := len, c_trim := trim, c_ret := ret\<rparr> # cs, w))"

section \<open>What the programs see\<close>

text \<open>The runs of the program, which depend on the packet memory and the counter only.\<close>

fun run_contexts ::
  "(packet \<Rightarrow> (int \<times> packet) c_result) \<Rightarrow> (u64 \<Rightarrow> u64) \<Rightarrow> xdp_desc list \<Rightarrow> u8 list \<times> u32 option \<Rightarrow>
     pkt_ctx list \<times> u8 list \<times> u32 option" where
  "run_contexts prog off [] (m, t) = ([], m, t)"
| "run_contexts prog off (d # ds) (m, t) =
     (let (ret, len, trim, m, t) = (case prog (packet_of (unat (off (d_addr d))) (d_len d) m t) of
          Inl e \<Rightarrow> (-1, d_len d, 0, m, t) | Inr (ret, p) \<Rightarrow> (ret, pkt_len p, trim_head p, mem p, tput p));
          (ctxs, m, t) = run_contexts prog off ds (m, t) in
      ((len, trim, ret) # ctxs, m, t))"

lemma run_one:
  obtains ret len trim m t where
    "run_prog (with_engine prog api) (add_offset api (d_addr d)) (d_len d) w = (ret, len, trim, w\<lparr>umem := m, counter := t\<rparr>)"
    and "run_contexts prog (add_offset api) (d # ds) (umem w, counter w) =
      (let (ctxs, m, t) = run_contexts prog (add_offset api) ds (m, t) in ((len, trim, ret) # ctxs, m, t))"
proof (cases "prog (packet_of (unat (add_offset api (d_addr d))) (d_len d) (umem w) (counter w))")
  case (Inl e)
  then show thesis using that [where ret = "-1" and len = "d_len d" and trim = 0 and m = "umem w" and t = "counter w"] by (simp add: run_on_def)
next
  case (Inr x)
  then show thesis
    using that [where ret = "fst x" and len = "pkt_len (snd x)" and trim = "trim_head (snd x)" and m = "mem (snd x)" and t = "tput (snd x)"]
    by (cases x) (simp add: run_on_def)
qed

lemma one_by_one_contexts:
  "(case one_by_one (with_engine prog api) (prepare_batch api ds) w of (slots, w') \<Rightarrow> (map slot_ctx slots, w')) =
    (case run_contexts prog (add_offset api) ds (umem w, counter w) of (ctxs, m, t) \<Rightarrow> (ctxs, w\<lparr>umem := m, counter := t\<rparr>))"
proof (induction ds arbitrary: w)
  case Nil
  then show ?case by (simp add: prepare_batch_def)
next
  case (Cons d ds)
  obtain ret len trim m t where
    one: "run_prog (with_engine prog api) (add_offset api (d_addr d)) (d_len d) w = (ret, len, trim, w\<lparr>umem := m, counter := t\<rparr>)"
    and c: "run_contexts prog (add_offset api) (d # ds) (umem w, counter w) =
      (let (ctxs, m, t) = run_contexts prog (add_offset api) ds (m, t) in ((len, trim, ret) # ctxs, m, t))"
    by (rule run_one)
  show ?case using Cons.IH [of "w\<lparr>umem := m, counter := t\<rparr>"] one
    unfolding c by (auto simp: prepare_batch_def slot_ctx_def Let_def split: prod.splits)
qed

lemma run_contexts_length: "length (fst (run_contexts prog off ds mt)) = length ds"
proof (induction ds arbitrary: mt)
  case Nil
  then show ?case by (cases mt) simp
next
  case (Cons d ds)
  then show ?case by (cases mt) (simp split: prod.splits sum.splits, metis fst_conv)
qed

section \<open>Packet by packet\<close>

text \<open>
  How much room there is: \<open>free w r\<close> entries can be reserved on the ring \<open>r\<close>. A reservation within it
  is granted and uses it up; placing, submitting and giving back do not diminish it. The library
  counts its free entries like this, and the kernel only adds to them.
\<close>

definition credit_law :: "'w xsk_api \<Rightarrow> ('w \<Rightarrow> prod_ring \<Rightarrow> nat) \<Rightarrow> bool" where
  "credit_law api free \<longleftrightarrow>
     (\<forall>r n w ret idx w'. prod_reserve api r n w = (ret, idx, w') \<longrightarrow>
        (0 < unat n \<longrightarrow> unat n \<le> free w r \<longrightarrow> ret \<noteq> 0) \<and>
        (\<forall>q. free w q \<le> free w' q + (if q = r \<and> ret \<noteq> 0 then unat n else 0))) \<and>
     (\<forall>r i d w q. free w q \<le> free (prod_write api r i d w) q) \<and>
     (\<forall>r n w q. free w q \<le> free (prod_submit api r n w) q) \<and>
     (\<forall>k n w q. free w q \<le> free (cons_release api k n w) q)"

lemma credit_lawD:
  assumes "credit_law api free"
  shows "prod_reserve api r n w = (ret, idx, w') \<Longrightarrow> 0 < unat n \<Longrightarrow> unat n \<le> free w r \<Longrightarrow> ret \<noteq> 0"
    and "prod_reserve api r n w = (ret, idx, w') \<Longrightarrow> free w q \<le> free w' q + (if q = r then unat n else 0)"
    and "free w q \<le> free (prod_write api r i d w) q" and "free w q \<le> free (prod_submit api r n w) q"
    and "free w q \<le> free (cons_release api k n w) q"
  using assms unfolding credit_law_def by (blast, fastforce split: if_splits, blast+)

lemma credit_engine:
  assumes "credit_law api free"
  shows "credit_law (with_engine prog api) (\<lambda>w. free (rings w))"
  using assms unfolding credit_law_def with_engine_simps on_rings3_Pair by simp blast

lemma credit_not_refused: "credit_law api free \<Longrightarrow> 0 < free w r \<Longrightarrow> \<not> refused api r w"
  using credit_lawD(1) [of api free r 1 w] by (cases "prod_reserve api r 1 w") (simp add: refused_def)

lemma credit_place:
  assumes "credit_law api free"
  shows "free w q \<le> free (place_entries api r idx ds w) q"
proof (induction ds arbitrary: idx w)
  case (Cons d ds)
  show ?case using le_trans [OF credit_lawD(3) [OF assms] Cons.IH] by simp
qed simp

lemma credit_put:
  assumes "credit_law api free" and "prod_reserve api r n w = (ret, idx, w1)"
  shows "free w q \<le> free (cons_release api k m (prod_submit api r n (place_entries api r idx ds w1))) q +
    (if q = r then unat n else 0)"
proof -
  note l = credit_lawD [OF assms(1)]
  have "free w1 q \<le> free (cons_release api k m (prod_submit api r n (place_entries api r idx ds w1))) q"
    by (rule le_trans [OF credit_place [OF assms(1)] le_trans [OF l(4) l(5)]])
  then show ?thesis using l(2) [OF assms(2), of q] by simp
qed

lemma drop_one_credit:
  assumes "credit_law api free" and "drop_one api d s = Inr s'"
  shows "free (world s) q \<le> free (world s') q + (if q = FillRing then 1 else 0)"
proof -
  obtain ret idx w1 where c: "prod_reserve api FillRing 1 (world s) = (ret, idx, w1)" by (metis prod_cases3)
  show ?thesis using assms(2) c credit_lawD(2) [OF assms(1) c, of q] credit_put [OF assms(1) c, of q RxRing 1 "[fill_entry api d]"]
    by (auto simp: drop_one_def xsk_drop_def c_bind_Inr_iff c_check_def Let_def simp del: place_entries.simps split: if_splits)
qed

lemma send_credit:
  assumes "credit_law api free" and "apply_action cf api vc s d SEND = Inr s'" and "\<not> refused api TxRing (world s)"
    and "xsk_laws api view"
  shows "free (world s) q \<le> free (world s') q + (if q = TxRing then 1 else 0)"
proof -
  obtain ret idx w1 where c: "prod_reserve api TxRing 1 (world s) = (ret, idx, w1)" by (metis prod_cases3)
  have "ret = 1" using xsk_lawsD(1) [OF assms(4)] c assms(3) unfolding reserve_law_def Let_def refused_def by fastforce
  then show ?thesis using assms(2) c credit_put [OF assms(1) c, of q RxRing 1 "[tx_entry api d]"]
    by (auto simp: apply_action_def xsk_tx_def c_bind_Inr_iff c_check_def Let_def simp del: place_entries.simps split: if_splits)
qed

text \<open>The rings after a list of frames with their verdicts.\<close>

definition sorted_out :: "'w xsk_api \<Rightarrow> (xdp_desc \<times> int) list \<Rightarrow> xsk_view \<Rightarrow> xsk_view" where
  "sorted_out api ds v = give_back RxRing (length ds)
     (give TxRing (map (tx_entry api) (with_verdict SEND ds)) (give FillRing (map (fill_entry api) (with_verdict DROP ds)) v))"

lemma give_give: "give r ys (give r xs v) = give r (xs @ ys) v"
  by (simp add: give_def add.assoc)

lemma give_swap: "r \<noteq> r' \<Longrightarrow> give r xs (give r' ys v) = give r' ys (give r xs v)"
  by (auto simp: give_def set_pv_def fun_upd_twist)

lemma sorted_out_send:
  "sorted_out api ds (placed api d OnTx v) = sorted_out api ((d, SEND) # ds) v"
  by (simp add: sorted_out_def placed_def give_back_give give_back_twice give_swap [of FillRing TxRing] give_give
      DROP_def SEND_def)

lemma sorted_out_drop:
  "sorted_out api ds (placed api d OnFill v) = sorted_out api ((d, DROP) # ds) v"
  by (simp add: sorted_out_def placed_def give_back_give give_back_twice give_give DROP_def SEND_def)

text \<open>One packet with a verdict of drop or send; its entry goes to \<open>verdict_ring\<close>.\<close>

definition verdict_ring :: "int \<Rightarrow> prod_ring" where
  "verdict_ring ret = (if ret = SEND then TxRing else FillRing)"

lemma packet_sorted:
  fixes api :: "'w xsk_api"
  assumes laws: "xsk_laws api view" and credit: "credit_law api free"
    and h: "holds (\<lambda>w. view (rings w)) base None (Some NullDeref) (Suc n) 0 s"
    and run: "run_prog (with_engine prog api) (add_offset api (d_addr d)) (d_len d) (world s) =
      (ret, len, trim, (world s)\<lparr>umem := m, counter := t\<rparr>)"
    and ret: "ret = DROP \<or> ret = SEND" and room: "0 < free (rings (world s)) (verdict_ring ret)"
  shows "\<exists>s'. process_packet cf (with_engine prog api) vc s d = Inr s' \<and>
    holds (\<lambda>w. view (rings w)) base None (Some NullDeref) n 0 s' \<and> umem (world s') = m \<and> counter (world s') = t \<and>
    view (rings (world s')) = placed api \<lparr>d_addr = d_addr d + scast trim, d_len = len\<rparr>
      (if ret = SEND then OnTx else OnFill) (view (rings (world s))) \<and>
    outstanding_tx s' = outstanding_tx s + (if ret = SEND then 1 else 0) \<and>
    sent_count s' = sent_count s + (if ret = SEND then 1 else 0) \<and> chan s' = chan s \<and>
    (\<forall>q. free (rings (world s)) q \<le> free (rings (world s')) q + (if q = verdict_ring ret then 1 else 0))"
proof -
  let ?api = "with_engine prog api" and ?V = "\<lambda>w. view (rings w)"
  let ?w = "(world s)\<lparr>umem := m, counter := t\<rparr>" and ?d = "\<lparr>d_addr = d_addr d + scast trim, d_len = len\<rparr>"
  note elaws = with_engine_laws [OF laws, of prog]
  have h': "holds ?V base None (Some NullDeref) (Suc n) 0 (s\<lparr>world := ?w\<rparr>)" using h by (simp add: holds_def heart_inv_def Let_def)
  then have inv: "heart_inv ?V base (s\<lparr>world := ?w\<rparr>)" by (simp add: holds_def)
  note ecredit = credit_engine [OF credit, of prog]
  have free: "\<not> refused ?api (verdict_ring ret) ?w"
    by (rule credit_not_refused [OF ecredit]) (use room in simp)
  have nt: "\<not> refused ?api TxRing ?w" if "ret = SEND" using free that by (simp add: verdict_ring_def)
  have nf: "\<not> refused ?api FillRing ?w" if "ret = DROP" using free that by (simp add: verdict_ring_def DROP_def SEND_def)
  have same: "placed ?api ?d = placed api ?d" by (simp add: placed_def tx_entry_def fill_entry_def fun_eq_iff split: placement.split)
  have pp: "process_packet cf ?api vc s d = c_bind (apply_action cf ?api vc (s\<lparr>world := ?w\<rparr>) ?d ret)
      (\<lambda>s. Inr (if ret = SEND then s\<lparr>sent_count := sent_count s + 1\<rparr> else s))"
    unfolding process_packet_def with_engine_simps run [unfolded with_engine_simps] by simp
  have keep: "holds ?V base None (Some NullDeref) n 0 (s'\<lparr>sent_count := j\<rparr>)" if "holds ?V base None (Some NullDeref) n 0 s'" for s' j
    using that by (simp add: holds_def heart_inv_def Let_def)
  from ret show ?thesis
  proof
    assume r: "ret = SEND"
    from send_placed [OF elaws h', of cf vc ?d] nt [OF r] obtain w' where
      w': "apply_action cf ?api vc (s\<lparr>world := ?w\<rparr>) ?d SEND = Inr (s\<lparr>world := w', outstanding_tx := outstanding_tx s + 1\<rparr>)"
        "view (rings w') = placed ?api ?d OnTx (view (rings (world s)))" by (auto simp: send_place_def)
    have "view (rings w') = give_back RxRing 1 (give TxRing [tx_entry ?api ?d] (view (rings (world (s\<lparr>world := ?w\<rparr>)))))"
      using w'(2) by (simp add: placed_def)
    from holds_tx [OF h' this] have "holds ?V base None (Some NullDeref) n 0 (s\<lparr>world := w', outstanding_tx := outstanding_tx s + 1\<rparr>)" by simp
    moreover have "free (rings (world s)) q \<le> free (rings w') q + (if q = TxRing then 1 else 0)" for q
      using send_credit [OF ecredit w'(1) _ elaws, of q] nt [OF r] by simp
    ultimately show ?thesis using r w' send_umem [OF w'(1)] by (simp add: pp same keep verdict_ring_def)
  next
    assume r: "ret = DROP"
    then have nr: "ret \<noteq> SEND" "ret \<noteq> PASS" by (simp_all add: DROP_def SEND_def PASS_def)
    from drop_one_placed [OF elaws h', of ?d] nf [OF r] obtain w' where
      w': "drop_one ?api ?d (s\<lparr>world := ?w\<rparr>) = Inr (s\<lparr>world := w'\<rparr>)"
        "view (rings w') = placed ?api ?d OnFill (view (rings (world s)))" by (auto simp: drop_place_def)
    have "view (rings w') = give_back RxRing 1 (give FillRing [fill_entry ?api ?d] (view (rings (world (s\<lparr>world := ?w\<rparr>)))))"
      using w'(2) by (simp add: placed_def)
    from holds_drop [OF h' this] have "holds ?V base None (Some NullDeref) n 0 (s\<lparr>world := w'\<rparr>)" by simp
    moreover have "apply_action cf ?api vc (s\<lparr>world := ?w\<rparr>) ?d ret = Inr (s\<lparr>world := w'\<rparr>)"
      using nr w'(1) by (simp add: apply_action_def)
    moreover have "free (rings (world s)) q \<le> free (rings w') q + (if q = FillRing then 1 else 0)" for q
      using drop_one_credit [OF ecredit w'(1), of q] by simp
    ultimately show ?thesis using nr w' drop_one_umem [OF w'(1)] by (simp add: pp same verdict_ring_def)
  qed
qed

text \<open>All packets of a batch.\<close>

lemma batch_sorted:
  fixes api :: "'w xsk_api"
  assumes laws: "xsk_laws api view" and credit: "credit_law api free"
  shows "holds (\<lambda>w. view (rings w)) base None (Some NullDeref) (length ds + n) 0 s \<Longrightarrow>
    run_contexts prog (add_offset api) ds (umem (world s), counter (world s)) = (ctxs, m, t) \<Longrightarrow>
    set (verdicts ctxs) \<subseteq> {DROP, SEND} \<Longrightarrow>
    mix_count SEND ctxs \<le> free (rings (world s)) TxRing \<Longrightarrow> mix_count DROP ctxs \<le> free (rings (world s)) FillRing \<Longrightarrow>
    \<exists>s'. process_batch cf (with_engine prog api) vc ds s = Inr s' \<and> umem (world s') = m \<and> counter (world s') = t \<and>
      view (rings (world s')) = sorted_out api (zip (mix_trim ds ctxs) (verdicts ctxs)) (view (rings (world s))) \<and>
      outstanding_tx s' = outstanding_tx s + of_nat (mix_count SEND ctxs) \<and>
      sent_count s' = sent_count s + of_nat (mix_count SEND ctxs) \<and> chan s' = chan s"
proof (induction ds arbitrary: s ctxs)
  case Nil
  have "reserved (pv (view (rings (world s))) r) = []" for r
    using Nil(1) heart_inv_idle [of "\<lambda>w. view (rings w)" base s] by (cases r) (simp_all add: holds_def)
  then have "sorted_out api [] (view (rings (world s))) = view (rings (world s))"
    by (simp add: sorted_out_def give_back_def give_def pv_id set_pv_id set_cv_def)
  then show ?case using Nil by (auto simp: verdicts_def mix_count_def)
next
  case (Cons d ds)
  obtain ret len trim m1 t1 where
    run: "run_prog (with_engine prog api) (add_offset api (d_addr d)) (d_len d) (world s) =
        (ret, len, trim, (world s)\<lparr>umem := m1, counter := t1\<rparr>)"
    and c: "run_contexts prog (add_offset api) (d # ds) (umem (world s), counter (world s)) =
      (let (ctxs, m, t) = run_contexts prog (add_offset api) ds (m1, t1) in ((len, trim, ret) # ctxs, m, t))"
    by (rule run_one)
  obtain cs where cs: "run_contexts prog (add_offset api) ds (m1, t1) = (cs, m, t)" "ctxs = (len, trim, ret) # cs"
    using Cons.prems(2) unfolding c by (auto split: prod.splits)
  have v: "ret = DROP \<or> ret = SEND" "set (verdicts cs) \<subseteq> {DROP, SEND}"
    using Cons.prems(3) by (simp_all add: cs(2) verdicts_def)
  have h1: "holds (\<lambda>w. view (rings w)) base None (Some NullDeref) (Suc (length ds + n)) 0 s" using Cons.prems(1) by simp
  have neq: "DROP \<noteq> SEND" by (simp add: DROP_def SEND_def)
  have cnt: "mix_count r ctxs = (if ret = r then 1 else 0) + mix_count r cs" for r
    by (simp add: cs(2) mix_count_def)
  have room: "0 < free (rings (world s)) (verdict_ring ret)"
    using v(1) Cons.prems(4,5) cnt neq by (auto simp: verdict_ring_def)
  from packet_sorted [OF laws credit h1 run v(1) room, of cf vc] obtain s1 where
    s1: "process_packet cf (with_engine prog api) vc s d = Inr s1"
      "holds (\<lambda>w. view (rings w)) base None (Some NullDeref) (length ds + n) 0 s1" "umem (world s1) = m1" "counter (world s1) = t1"
      "view (rings (world s1)) = placed api \<lparr>d_addr = d_addr d + scast trim, d_len = len\<rparr>
        (if ret = SEND then OnTx else OnFill) (view (rings (world s)))"
      "outstanding_tx s1 = outstanding_tx s + (if ret = SEND then 1 else 0)"
      "sent_count s1 = sent_count s + (if ret = SEND then 1 else 0)" "chan s1 = chan s"
      "\<And>q. free (rings (world s)) q \<le> free (rings (world s1)) q + (if q = verdict_ring ret then 1 else 0)" by blast
  have left: "mix_count SEND cs \<le> free (rings (world s1)) TxRing" "mix_count DROP cs \<le> free (rings (world s1)) FillRing"
    using v(1) Cons.prems(4,5) cnt [of SEND] cnt [of DROP] neq s1(9) [of TxRing] s1(9) [of FillRing]
    by (auto simp: verdict_ring_def)
  have "run_contexts prog (add_offset api) ds (umem (world s1), counter (world s1)) = (cs, m, t)" by (simp add: s1(3,4) cs(1))
  from Cons.IH [OF s1(2) this v(2) left] obtain s' where
    s': "process_batch cf (with_engine prog api) vc ds s1 = Inr s'" "umem (world s') = m" "counter (world s') = t"
      "view (rings (world s')) = sorted_out api (zip (mix_trim ds cs) (verdicts cs)) (view (rings (world s1)))"
      "outstanding_tx s' = outstanding_tx s1 + of_nat (mix_count SEND cs)"
      "sent_count s' = sent_count s1 + of_nat (mix_count SEND cs)" "chan s' = chan s1" by blast
  have z: "zip (mix_trim (d # ds) ctxs) (verdicts ctxs) =
      (\<lparr>d_addr = d_addr d + scast trim, d_len = len\<rparr>, ret) # zip (mix_trim ds cs) (verdicts cs)"
    by (simp add: cs(2) verdicts_def)
  have "view (rings (world s')) = sorted_out api (zip (mix_trim (d # ds) ctxs) (verdicts ctxs)) (view (rings (world s)))"
    using v(1) s'(4) unfolding z s1(5)
    by (elim disjE) (simp_all add: sorted_out_send sorted_out_drop neq)
  then show ?case using s1 s' by (intro exI [of _ s']) (simp add: cnt add.assoc)
qed

section \<open>All at once\<close>

lemma mix_reserve_umem: "mix_reserve (with_engine prog api) r n w = Inr (ok, i, w') \<Longrightarrow> umem w' = umem w \<and> counter w' = counter w"
  by (auto simp: mix_reserve_def simp del: with_engine_simps(1) dest!: prod_reserve_umem split: if_splits prod.splits)

lemma mix_place_umem:
  "umem (mix_place (with_engine prog api) i j ds w) = umem w \<and> counter (mix_place (with_engine prog api) i j ds w) = counter w"
  by (induction "with_engine prog api" i j ds w rule: mix_place.induct) simp_all

lemma mix_action_umem:
  "apply_mix_action (with_engine prog api) batch ctxs s = Inr s' \<Longrightarrow>
    umem (world s') = umem (world s) \<and> counter (world s') = counter (world s) \<and>
    sent_count s' = sent_count s \<and> chan s' = chan s"
  by (auto simp: apply_mix_action_def Let_def c_bind_Inr_iff mix_submit_def mix_place_umem dest!: mix_reserve_umem)

lemma mix_reserve_granted:
  assumes laws: "xsk_laws api view" and credit: "credit_law api free" and count: "count \<le> free w r" "count < 2 ^ 31"
    and idle: "reserved (pv (view w) r) = []"
  obtains i w' where "mix_reserve api r count w = Inr (0 < count, i, w')"
    and "\<And>q. q \<noteq> r \<Longrightarrow> pv (view w') q = pv (view w) q \<and> free w q \<le> free w' q"
proof (cases "count = 0")
  case True
  then show thesis by (intro that [of 0 w]) (simp_all add: mix_reserve_def)
next
  case False
  obtain ret idx w1 where c: "prod_reserve api r (of_nat count) w = (ret, idx, w1)" by (metis prod_cases3)
  have u: "unat (of_nat count :: u32) = count" using count(2) by (intro unat_of_nat_u32) simp
  have nz: "(of_nat count :: u32) \<noteq> 0" using False u by (metis unat_0)
  have "ret \<noteq> 0" using credit_lawD(1) [OF credit c] u False count(1) by simp
  have other: "free w q \<le> free w1 q" if "q \<noteq> r" for q using credit_lawD(2) [OF credit c, of q] that by simp
  from laws c nz idle show thesis
  proof (cases rule: prod_reserve_cases)
    case 1
    then show thesis using \<open>ret \<noteq> 0\<close> by simp
  next
    case (2 ds)
    show thesis
    proof (rule that [of idx w1])
      show "mix_reserve api r count w = Inr (0 < count, idx, w1)" using 2 u False c by (simp add: mix_reserve_def)
    qed (use 2 other in simp)
  qed
qed

lemma batch_step_sorted:
  fixes api :: "'w xsk_api"
  assumes laws: "xsk_laws api view" and credit: "credit_law api free" and short: "length ds < 2 ^ 31"
    and h: "holds (\<lambda>w. view (rings w)) base None (Some NullDeref) (length ds) 0 s"
    and run: "run_contexts prog (add_offset api) ds (umem (world s), counter (world s)) = (ctxs, m, t)"
    and ret: "set (verdicts ctxs) \<subseteq> {DROP, SEND}"
    and room: "mix_count SEND ctxs \<le> free (rings (world s)) TxRing" "mix_count DROP ctxs \<le> free (rings (world s)) FillRing"
    and fn: "apfst (map slot_ctx) (fn (prepare_batch api ds) (world s)) =
      apfst (map slot_ctx) (one_by_one (with_engine prog api) (prepare_batch api ds) (world s))"
  shows "\<exists>s'. batch_step (with_engine prog api) fn ds s = Inr s' \<and> umem (world s') = m \<and> counter (world s') = t \<and>
      view (rings (world s')) = sorted_out api (zip (mix_trim ds ctxs) (verdicts ctxs)) (view (rings (world s))) \<and>
      outstanding_tx s' = outstanding_tx s + of_nat (mix_count SEND ctxs) \<and>
      sent_count s' = sent_count s + of_nat (mix_count SEND ctxs) \<and> chan s' = chan s"
proof -
  let ?api = "with_engine prog api" and ?V = "\<lambda>w. view (rings w)" and ?w = "(world s)\<lparr>umem := m, counter := t\<rparr>"
  have len: "length ctxs = length ds" using run_contexts_length [of prog "add_offset api" ds] run by (metis fst_conv)
  have all: "mix_count DROP ctxs + mix_count SEND ctxs = length ds" using mix_count_all [OF ret] len by simp
  have inv: "heart_inv ?V base s" using h by (simp add: holds_def)
  have idle: "reserved (pv (?V ?w) r) = []" for r using heart_inv_idle [OF inv] by (cases r) simp_all
  note elaws = with_engine_laws [OF laws, of prog] and ecredit = credit_engine [OF credit, of prog]
  have few: "mix_count DROP ctxs < 2 ^ 31" "mix_count SEND ctxs < 2 ^ 31" using all short by linarith+
  have "mix_count DROP ctxs \<le> free (rings ?w) FillRing" using room(2) by simp
  from mix_reserve_granted [OF elaws ecredit this few(1) idle] obtain i w1 where
    F: "mix_reserve ?api FillRing (mix_count DROP ctxs) ?w = Inr (0 < mix_count DROP ctxs, i, w1)"
    and F2: "\<And>q. q \<noteq> FillRing \<Longrightarrow> pv (?V w1) q = pv (?V ?w) q \<and> free (rings ?w) q \<le> free (rings w1) q" by blast
  have "reserved (pv (?V w1) TxRing) = []" "mix_count SEND ctxs \<le> free (rings w1) TxRing"
    using F2 [of TxRing] idle room(1) by simp_all
  from mix_reserve_granted [OF elaws ecredit this(2) few(2) this(1)] obtain j w2 where
    T: "mix_reserve ?api TxRing (mix_count SEND ctxs) w1 = Inr (0 < mix_count SEND ctxs, j, w2)" by blast
  let ?s = "s\<lparr>world := ?w\<rparr>"
  have taken: "length ds \<le> length (taken (cv (?V (world ?s)) RxRing))" using h by (simp add: holds_def)
  have idle': "reserved (pv (?V (world ?s)) FillRing) = []" "reserved (pv (?V (world ?s)) TxRing) = []"
    using idle by simp_all
  have F': "mix_reserve ?api FillRing (mix_count DROP ctxs) (world ?s) = Inr (0 < mix_count DROP ctxs, i, w1)"
    using F by simp
  have "\<exists>w'. apply_mix_action ?api ds ctxs ?s = Inr (?s\<lparr>world := w', outstanding_tx := outstanding_tx ?s + of_nat (mix_count SEND ctxs)\<rparr>) \<and>
      ?V w' = give_back RxRing (length ds)
        (give TxRing (map (tx_entry ?api) (with_verdict SEND (zip (mix_trim ds ctxs) (verdicts ctxs))))
          (give FillRing (map (fill_entry ?api) (with_verdict DROP (zip (mix_trim ds ctxs) (verdicts ctxs)))) (?V (world ?s))))"
    by (rule mix_action_places [OF elaws len short ret idle' taken F' T])
  then obtain w' where
    m: "apply_mix_action ?api ds ctxs ?s = Inr (?s\<lparr>world := w', outstanding_tx := outstanding_tx ?s + of_nat (mix_count SEND ctxs)\<rparr>)"
      "?V w' = give_back RxRing (length ds)
        (give TxRing (map (tx_entry ?api) (with_verdict SEND (zip (mix_trim ds ctxs) (verdicts ctxs))))
          (give FillRing (map (fill_entry ?api) (with_verdict DROP (zip (mix_trim ds ctxs) (verdicts ctxs)))) (?V (world ?s))))"
    by blast
  have "outstanding_tx ?s = outstanding_tx s" "rings (world ?s) = rings (world s)" by simp_all
  note w' = m [unfolded this]
  have "tx_entry ?api = tx_entry api" "fill_entry ?api = fill_entry api" by (simp_all add: tx_entry_def fill_entry_def fun_eq_iff)
  moreover have "length (zip (mix_trim ds ctxs) (verdicts ctxs)) = length ds"
    by (simp add: mix_trim_length len verdicts_def)
  ultimately have "view (rings w') = sorted_out api (zip (mix_trim ds ctxs) (verdicts ctxs)) (view (rings (world s)))"
    using w'(2) by (simp add: sorted_out_def)
  moreover obtain slots wf where f: "fn (prepare_batch api ds) (world s) = (slots, wf)" by force
  moreover have "prepare_batch (with_engine prog api) ds = prepare_batch api ds" by (simp add: prepare_batch_def)
  moreover have "map slot_ctx slots = ctxs \<and> wf = ?w"
    using fn one_by_one_contexts [of prog api ds "world s"] by (auto simp: f run apfst_def map_prod_def split: prod.splits)
  ultimately show ?thesis using w'(1) mix_action_umem [OF w'(1)] by (simp add: batch_step_def)
qed

section \<open>Properties\<close>

text \<open>C14: let the program only drop and send, and let the transmit and fill rings have, at the start of the
  turn, at least as many free entries as there are packets to send and to drop (\<open>free\<close> counts free
  entries as \<open>credit_law\<close> says). Let the one call of the program for batches give the verdicts, lengths,
  trims and packet memory that the packet program gives packet after packet. Then it makes no
  difference which of the two variants of the loop handles the turn: the rings have got the same
  entries in the same order, all receive entries are given back, and the packet memory, the counters
  and the link are the same.\<close>

theorem batch_equals_single:
  fixes api :: "'w xsk_api"
  assumes "xsk_laws api view" and "credit_law api free" and "length ds < 2 ^ 31"
    and "heart_inv (\<lambda>w. view (rings w)) base s" and "length ds \<le> length (taken (cv (view (rings (world s))) RxRing))"
    and "run_contexts prog (add_offset api) ds (umem (world s), counter (world s)) = (ctxs, m, t)"
    and "set (verdicts ctxs) \<subseteq> {DROP, SEND}"
    and "mix_count SEND ctxs \<le> free (rings (world s)) TxRing" and "mix_count DROP ctxs \<le> free (rings (world s)) FillRing"
    and "apfst (map slot_ctx) (fn (prepare_batch api ds) (world s)) =
      apfst (map slot_ctx) (one_by_one (with_engine prog api) (prepare_batch api ds) (world s))"
  shows "\<exists>s1 s2. process_batch cf (with_engine prog api) vc ds s = Inr s1 \<and> batch_step (with_engine prog api) fn ds s = Inr s2 \<and>
    view (rings (world s1)) = view (rings (world s2)) \<and>
    view (rings (world s2)) = sorted_out api (zip (mix_trim ds ctxs) (verdicts ctxs)) (view (rings (world s))) \<and>
    umem (world s1) = m \<and> umem (world s2) = m \<and> counter (world s1) = t \<and> counter (world s2) = t \<and>
    outstanding_tx s1 = outstanding_tx s2 \<and> sent_count s1 = sent_count s2 \<and> chan s1 = chan s2"
proof -
  have h: "holds (\<lambda>w. view (rings w)) base None (Some NullDeref) (length ds) 0 s" using assms(4,5) by (simp add: holds_def)
  then have "holds (\<lambda>w. view (rings w)) base None (Some NullDeref) (length ds + 0) 0 s" by simp
  from batch_sorted [OF assms(1,2) this assms(6-9), of cf vc]
    batch_step_sorted [where fn = fn, OF assms(1-3) h assms(6-10)]
  show ?thesis by fastforce
qed

text \<open>
  For the witness: rings of 64 entries from which the kernel takes none, and a turn of two frames, one
  that is echoed and one that is too short and dropped.
\<close>

definition small_api :: "demo_world xsk_api" where
  "small_api = (demo_api 0)\<lparr>prod_reserve := (\<lambda>r n w. let p = pv (dview w) r in
     if length (submitted p) + length (reserved p) + unat n \<le> 64 then demo_reserve r n w else (0, 0, w))\<rparr>"

definition small_free :: "demo_world \<Rightarrow> prod_ring \<Rightarrow> nat" where
  "small_free w r = (let p = pv (dview w) r in if room w r then 64 - (length (submitted p) + length (reserved p)) else 0)"

lemma small_api_laws: "xsk_laws small_api dview"
proof -
  have "reserve_law small_api dview"
    unfolding reserve_law_def
  proof (intro allI impI, goal_cases)
    case (1 r n w ret idx w')
    then have "prod_reserve (demo_api 0) r n w = (ret, idx, w') \<or> ret = 0 \<and> w' = w"
      by (auto simp: small_api_def demo_api_def Let_def split: if_split_asm)
    then show ?case using xsk_lawsD(1) [OF demo_laws [of 0]] unfolding reserve_law_def Let_def by blast
  qed
  then show ?thesis using demo_laws [of 0]
    by (simp add: xsk_laws_def small_api_def write_law_def submit_law_def peek_law_def desc_law_def release_law_def other_law_def)
qed

lemma small_api_credit: "credit_law small_api small_free"
  unfolding credit_law_def
proof (intro conjI allI impI)
  fix r n w ret idx w' q
  assume "prod_reserve small_api r n w = (ret, idx, w')"
  then show "0 < unat n \<Longrightarrow> unat n \<le> small_free w r \<Longrightarrow> ret \<noteq> 0"
    and "small_free w q \<le> small_free w' q + (if q = r \<and> ret \<noteq> 0 then unat n else 0)"
    by (auto simp: small_api_def small_free_def demo_reserve_def Let_def uint_0_iff split: if_splits)
qed (simp_all add: small_api_def small_free_def demo_api_def demo_write_def demo_submit_def demo_release_def Let_def min_def)

definition pair_heart :: "demo_world engine_world heart" where
  "pair_heart = demo_engine_heart\<lparr>world := (world demo_engine_heart)\<lparr>rings := (rings (world demo_engine_heart))
     \<lparr>dview := take_in RxRing [demo_frame 44, demo_frame 2] empty_view\<rparr>\<rparr>\<rparr>"

theorem batch_equals_single_witness:
  "\<exists>s1 s2. process_batch demo_config (with_engine echo small_api) None [\<lparr>d_addr = 0, d_len = 44\<rparr>, \<lparr>d_addr = 0, d_len = 2\<rparr>] pair_heart = Inr s1 \<and>
    batch_step (with_engine echo small_api) (one_by_one (with_engine echo small_api))
      [\<lparr>d_addr = 0, d_len = 44\<rparr>, \<lparr>d_addr = 0, d_len = 2\<rparr>] pair_heart = Inr s2 \<and>
    dview (rings (world s1)) = dview (rings (world s2)) \<and> umem (world s1) = umem (world s2) \<and>
    submitted (pv (dview (rings (world s2))) TxRing) = [\<lparr>d_addr = 0, d_len = 44\<rparr>] \<and>
    length (submitted (pv (dview (rings (world s2))) FillRing)) = 1"
proof -
  let ?s = pair_heart and ?ds = "[\<lparr>d_addr = 0, d_len = 44\<rparr>, \<lparr>d_addr = 0, d_len = 2\<rparr>]" and ?p = "packet_of 0 44 (mem demo_packet) None"
  let ?m = "reply_mem 0 (mem demo_packet)" and ?v = "take_in RxRing [demo_frame 44, demo_frame 2] empty_view"
  have inv: "heart_inv (\<lambda>w. dview (rings w)) 0 ?s" by (simp add: pair_heart_def demo_engine_heart_def Let_def heart_inv_def)
  have at: "packet_at 0 44 ?p" by (simp add: packet_at_def packet_of_def demo_packet_def)
  have e: "echo ?p = Inr (SEND, ?p\<lparr>mem := reply_mem 0 (mem ?p)\<rparr>)"
    by (rule echo_answers [OF at]) (simp_all add: packet_of_def demo_packet_def chunk_def ETH_P_IP_def udp_at_def)
  have e2: "echo (packet_of 0 2 m None) = Inr (DROP, packet_of 0 2 m None)" for m
    by (simp add: echo_def packet_of_def out_of_pkt_def)
  have s: "umem (world ?s) = mem demo_packet" "counter (world ?s) = None" "dview (rings (world ?s)) = ?v"
    "length ?ds \<le> length (taken (cv (dview (rings (world ?s))) RxRing))"
    by (simp_all add: pair_heart_def demo_engine_heart_def Let_def)
  have f: "add_offset small_api = id" "extract_addr small_api = id" by (simp_all add: small_api_def demo_api_def)
  let ?ctxs = "[(44, 0, SEND), (2, 0, DROP)]"
  have run: "run_contexts echo (add_offset small_api) ?ds (umem (world ?s), counter (world ?s)) = (?ctxs, ?m, None)"
    using e e2 by (simp add: s f) (simp add: packet_of_def)
  have v: "set (verdicts ?ctxs) \<subseteq> {DROP, SEND}" by (simp add: verdicts_def)
  have n: "mix_count SEND ?ctxs = 1" "mix_count DROP ?ctxs = 1" by (simp_all add: mix_count_def DROP_def SEND_def)
  have room: "mix_count SEND ?ctxs \<le> small_free (rings (world ?s)) TxRing" "mix_count DROP ?ctxs \<le> small_free (rings (world ?s)) FillRing"
    unfolding n by (simp_all add: small_free_def s Let_def) (simp_all add: pair_heart_def demo_engine_heart_def demo_heart_def Let_def)
  from batch_equals_single [where fn = "one_by_one (with_engine echo small_api)", OF small_api_laws small_api_credit _ inv s(4) run v room refl, of demo_config None]
  show ?thesis by (auto simp: s verdicts_def sorted_out_def tx_entry_def f DROP_def SEND_def)
qed

end
