(* ===== verification/StartUp.thy ===== *)
theory StartUp
  imports Delivery
begin
text \<open>
  The start of the application's side (\<open>init\<close> of \<open>src/interpose/interpose.c\<close>), and the start of both sides
  up to the delivery of packets.
\<close>

section \<open>The initialisation of the hooks\<close>

text \<open>
  \<open>bind_symbol\<close> looks a function up in the libraries behind the hooks; without it the process aborts.
  \<open>'p\<close> are function pointers.
\<close>

definition bind_symbol :: "(string \<Rightarrow> 'p option) \<Rightarrow> string \<Rightarrow> 'p c_result" where
  "bind_symbol dlsym name = c_opt AssertFail (dlsym name)"

record 'p libc =
  libc_recvfrom :: 'p
  libc_epoll_ctl :: 'p
  libc_epoll_wait :: 'p

definition interpose_init ::
  "(string \<Rightarrow> 'p option) \<Rightarrow> connect_env \<Rightarrow> ('p libc \<times> vchannel \<times> shared_channel \<times> shm_event list) c_result" where
  "interpose_init dlsym env =
     c_bind (bind_symbol dlsym ''recvfrom'') (\<lambda>r.
     c_bind (bind_symbol dlsym ''epoll_ctl'') (\<lambda>c.
     c_bind (bind_symbol dlsym ''epoll_wait'') (\<lambda>w.
     c_bind (setup_interpose_vchannel env) (\<lambda>(ret, res, ev).
     if ret \<noteq> 0 then Inl AssertFail
     else c_bind (c_opt NullDeref res) (\<lambda>(vc, ch).
       Inr (\<lparr>libc_recvfrom = r, libc_epoll_ctl = c, libc_epoll_wait = w\<rparr>, vc, ch, ev))))))"

text \<open>The functions that the hooks call.\<close>

definition hooked :: "string set" where "hooked = {''recvfrom'', ''epoll_ctl'', ''epoll_wait''}"

lemma bind_symbol_cases: "bind_symbol dlsym s = (case dlsym s of None \<Rightarrow> Inl AssertFail | Some p \<Rightarrow> Inr p)"
  by (simp add: bind_symbol_def c_opt_def split: option.split)

lemma interpose_init_found:
  assumes "\<forall>x \<in> hooked. dlsym x \<noteq> None" and "connect_shared_channel env interpose_attr = Inr (0, Some (vc, ch), ev)"
  shows "\<exists>l. interpose_init dlsym env = Inr (l, vc, ch, ev) \<and> dlsym ''recvfrom'' = Some (libc_recvfrom l) \<and>
    dlsym ''epoll_ctl'' = Some (libc_epoll_ctl l) \<and> dlsym ''epoll_wait'' = Some (libc_epoll_wait l)"
  using assms by (auto simp: interpose_init_def bind_symbol_cases hooked_def setup_interpose_vchannel_def)

lemma interpose_init_fails:
  assumes "connect_shared_channel env interpose_attr = Inr (-1, None, ev)"
  shows "interpose_init dlsym env = Inl AssertFail"
  using assms by (simp add: interpose_init_def bind_symbol_cases setup_interpose_vchannel_def split: option.split)

text \<open>
  What the application's environment has to offer for attaching to a region that its maker has mapped
  at \<open>buf\<close>: the system maps it at \<open>buf\<close>, at once or when it is asked to the second time.
\<close>

definition attaches :: "connect_env \<Rightarrow> u64 \<Rightarrow> bool" where
  "attaches env buf \<longleftrightarrow> shm_create env \<le> 0 \<and> 0 \<le> shm_attach env \<and> fstat_ret env = 0 \<and>
     shared_region_size (attr_ring_size interpose_attr) \<le> st_size env \<and>
     (mmap_attach env = Some buf \<or> mmap_attach env \<noteq> None \<and> munmap_ret env = 0 \<and> mmap_remap env = Some buf)"

lemma attach_result:
  assumes "attaches env buf" and "master_virt_addr ch = buf" and "connected ch < 2"
  shows "\<exists>vc ev. connect_shared_channel (env\<lparr>region := ch\<rparr>) interpose_attr =
      Inr (0, Some (vc, ch\<lparr>connected := connected ch + 1\<rparr>), ev) \<and> proc_id vc = connected ch \<and> vc_ch vc = buf"
  using assms
  by (auto simp: attaches_def connect_shared_channel_def connect_attach_def connect_finish_def COUNT_RINGS_def Let_def)

lemma attach_refused:
  assumes "shm_create env \<le> 0" and "2 \<le> connected (region env)"
  shows "\<exists>ev. connect_shared_channel env interpose_attr = Inr (-1, None, ev) \<and>
    (0 \<le> shm_attach env \<longrightarrow> ShmUnlink (shm_path (attr_name interpose_attr)) \<in> set ev)"
  using assms
  by (auto simp: connect_shared_channel_def connect_attach_def COUNT_RINGS_def Let_def split: option.split)

section \<open>From the start to the delivery\<close>

text \<open>C1: the runtime sets its link up, then an application with the hooks starts, whose system maps the
  region where the runtime has it, then packets are received: the application's initialisation finds
  the C library's functions and the other side of the channel, and from there on, in any order of
  packets and calls of \<open>recvfrom\<close> that is paced by the ring of 512 entries, the application gets the
  payload of every passed packet, in order and exactly once; what it got and what still waits are
  the packets that were passed, without their headers.\<close>

theorem started_link_delivers:
  assumes "\<forall>x \<in> hooked. dlsym x \<noteq> None"
    and "0 < shm_create env1" and "ftruncate_ret env1 = 0" and "mmap_create env1 = Some buf1" and "attaches env2 buf1"
    and "xsk_laws api view" and "heart_inv view base s" and "use_packet_injection cf \<noteq> 0" and "passes_datagrams api"
    and "paced 511 0 xs" and "packets xs \<le> length (taken (cv (view (world s)) RxRing))"
    and "unat len < 2 ^ 32" and "unat len \<le> length buf" and "1500 \<le> unat len"
  shows "\<exists>vc ch1 ev1 libc app ch2 ev2. setup_interpose_link env1 = Inr (0, Some (vc, ch1), ev1) \<and>
    interpose_init dlsym (env2\<lparr>region := ch1\<rparr>) = Inr (libc, app, ch2, ev2) \<and>
    dlsym ''recvfrom'' = Some (libc_recvfrom libc) \<and> vc_ch vc = buf1 \<and> vc_ch app = buf1 \<and>
    proc_id vc = 0 \<and> proc_id app = 1 \<and>
    (\<exists>s' sent got. link_run cf api vc app buf len xs (s\<lparr>chan := ch2\<rparr>, [], []) = Inr (s', sent, got) \<and>
       map (drop HDRLEN) sent = got @ map (drop HDRLEN) (vc_pending (chan s') (proc_id app)) \<and>
       heart_inv view base s')"
proof -
  obtain ch1 where one: "connect_shared_channel env1 interpose_attr = Inr (0,
      Some (\<lparr>vc_name = attr_name interpose_attr, proc_id = 0, vc_ch = buf1\<rparr>, ch1),
      [Ftruncate (shared_region_size (attr_ring_size interpose_attr))])"
    "idle_channel (attr_ring_size interpose_attr) ch1" "connected ch1 = 1" "master_virt_addr ch1 = buf1"
    using interpose_attr_ok assms(2-4) by (rule connect_create_ok)
  let ?vc = "\<lparr>vc_name = attr_name interpose_attr, proc_id = 0, vc_ch = buf1\<rparr>" and ?ch2 = "ch1\<lparr>connected := 2\<rparr>"
  from attach_result [OF assms(5) one(4)] one(3) obtain app ev2 where
    two: "connect_shared_channel (env2\<lparr>region := ch1\<rparr>) interpose_attr = Inr (0, Some (app, ?ch2), ev2)" "proc_id app = 1" "vc_ch app = buf1"
    by auto
  from interpose_init_found [OF assms(1) two(1)] obtain libc where
    i: "interpose_init dlsym (env2\<lparr>region := ch1\<rparr>) = Inr (libc, app, ?ch2, ev2)"
      "dlsym ''recvfrom'' = Some (libc_recvfrom libc)" by blast
  have inv: "heart_inv view base (s\<lparr>chan := ?ch2\<rparr>)" using assms(7) by (simp add: heart_inv_def Let_def)
  have side: "vc_side ?vc (chan (s\<lparr>chan := ?ch2\<rparr>))" "vc_side app (chan (s\<lparr>chan := ?ch2\<rparr>))"
    "proc_id app = 1 - proc_id ?vc" using two(2,3) one(4) by (simp_all add: vc_side_def at_home_def)
  have idle: "idle_channel 512 (chan (s\<lparr>chan := ?ch2\<rparr>))" using one(2) by (simp add: interpose_attr_def)
  have "packets xs \<le> length (taken (cv (view (world (s\<lparr>chan := ?ch2\<rparr>))) RxRing))" "paced (unat (512 :: u32) - 1) 0 xs"
    using assms(10,11) by simp_all
  from passed_packets_arrive [OF assms(6) inv assms(8,9) side idle this(2,1) assms(12-14)]
  show ?thesis using one(1) i two(2,3) by (simp add: setup_interpose_link_def setup_interpose_vchannel_def)
qed

text \<open>C37: the application never gives its side back, so a region that both sides have been connected to
  stays taken. The next application that starts on it is aborted by its own initialisation, before
  its first call of a hooked function returns, and on its way removes the region's name, although
  the runtime still uses the region. An application that starts after that finds no region, makes
  one of its own and runs, on the runtime's side 0 of a channel that the runtime is not connected
  to.\<close>

theorem restarted_application_aborts:
  assumes "interpose_init dlsym env1 = Inr (l, app, ch, ev)" and "connected (region env1) = 1" and "shm_create env1 \<le> 0"
    and "shm_create env2 \<le> 0" and "0 \<le> shm_attach env2" and "region env2 = ch"
    and "0 < shm_create env3" and "ftruncate_ret env3 = 0" and "mmap_create env3 = Some buf3"
  shows "interpose_init dlsym env2 = Inl AssertFail \<and>
    (\<exists>ev2. connect_shared_channel env2 interpose_attr = Inr (-1, None, ev2) \<and>
       ShmUnlink (shm_path (attr_name interpose_attr)) \<in> set ev2) \<and>
    (\<exists>app3 ch3 ev3. interpose_init dlsym env3 = Inr (l, app3, ch3, ev3) \<and> proc_id app3 = 0 \<and>
       idle_channel 512 ch3 \<and> connected ch3 = 1)"
proof -
  have "\<exists>ev. connect_shared_channel env1 interpose_attr = Inr (0, Some (app, ch), ev)"
    using assms(1) by (auto simp: interpose_init_def bind_symbol_def setup_interpose_vchannel_def c_bind_Inr_iff c_opt_def
        split: if_splits option.splits)
  then have "connected ch = 2" using assms(2,3)
    by (auto simp: connect_shared_channel_def connect_attach_def connect_finish_def Let_def split: if_splits option.splits)
  then have "2 \<le> connected (region env2)" by (simp add: assms(6))
  from attach_refused [OF assms(4) this] obtain ev2 where
    two: "connect_shared_channel env2 interpose_attr = Inr (-1, None, ev2)"
      "ShmUnlink (shm_path (attr_name interpose_attr)) \<in> set ev2" using assms(5) by blast
  from interpose_attr_ok assms(7-9) obtain ch3 where
    made: "connect_shared_channel env3 interpose_attr = Inr (0,
        Some (\<lparr>vc_name = attr_name interpose_attr, proc_id = 0, vc_ch = buf3\<rparr>, ch3),
        [Ftruncate (shared_region_size (attr_ring_size interpose_attr))])"
      "idle_channel (attr_ring_size interpose_attr) ch3" "connected ch3 = 1"
    by (rule connect_create_ok)
  obtain app3 ev3 where
    three: "connect_shared_channel env3 interpose_attr = Inr (0, Some (app3, ch3), ev3)" "proc_id app3 = 0"
      "idle_channel 512 ch3" "connected ch3 = 1"
    using made by (simp add: interpose_attr_def)
  have "interpose_init dlsym env3 = Inr (l, app3, ch3, ev3)"
    using assms(1) three(1)
    by (auto simp: interpose_init_def setup_interpose_vchannel_def c_bind_Inr_iff split: if_splits)
  then show ?thesis using two interpose_init_fails [OF two(1)] three by blast
qed

text \<open>Environments for the witnesses.\<close>

definition app_env :: connect_env where
  "app_env = \<lparr>shm_create = -1, ftruncate_ret = 0, mmap_create = None, shm_attach = 4, fstat_ret = 0,
     st_size = shared_region_size 512, mmap_attach = Some 0x10000, munmap_ret = 0, mmap_remap = None, region = demo_channel\<rparr>"

lemma app_env_attaches: "attaches app_env 0x10000"
  by (simp add: attaches_def app_env_def interpose_attr_def)

theorem started_link_delivers_witness:
  "\<exists>vc ch1 ev1 libc app ch2 ev2. setup_interpose_link first_env = Inr (0, Some (vc, ch1), ev1) \<and>
    interpose_init Some (app_env\<lparr>region := ch1\<rparr>) = Inr (libc, app, ch2, ev2) \<and>
    (\<exists>s' sent got. link_run demo_config pass_api vc app (replicate 1500 0) 1500 [Packet (demo_frame 60), Receive]
        ((demo_heart True True [])\<lparr>chan := ch2\<rparr>, [], []) = Inr (s', sent, got))"
proof -
  have e: "0 < shm_create first_env" "ftruncate_ret first_env = 0" "mmap_create first_env = Some 0x10000"
    by (simp_all add: first_env_def)
  have p: "paced 511 0 [Packet (demo_frame 60), Receive]" by simp
  have t: "packets [Packet (demo_frame 60), Receive] \<le> length (taken (cv (dview (world (demo_heart True True []))) RxRing))"
    by simp
  have "\<forall>x \<in> hooked. Some x \<noteq> None" "use_packet_injection demo_config \<noteq> 0" "unat (1500 :: u64) < 2 ^ 32"
    "unat (1500 :: u64) \<le> length (replicate 1500 (0 :: u8))" "1500 \<le> unat (1500 :: u64)" by simp_all
  from started_link_delivers [OF this(1) e app_env_attaches pass_api_laws demo_heart_holds this(2) pass_api_datagrams p t this(3-5)]
  show ?thesis by blast
qed

theorem restarted_application_aborts_witness:
  "interpose_init Some (app_env\<lparr>region := demo_channel\<lparr>master_virt_addr := 0x10000, connected := 2\<rparr>\<rparr>) = Inl AssertFail \<and>
   (\<exists>l app3 ch3 ev3. interpose_init Some first_env = Inr (l, app3, ch3, ev3) \<and> proc_id app3 = 0)"
proof -
  let ?ch = "demo_channel\<lparr>connected := 1, master_virt_addr := 0x10000\<rparr>"
  obtain l app ev where first: "interpose_init Some (app_env\<lparr>region := ?ch\<rparr>) = Inr (l, app, ?ch\<lparr>connected := 2\<rparr>, ev)"
    using attach_result [OF app_env_attaches, of ?ch] interpose_init_found [of Some "app_env\<lparr>region := ?ch\<rparr>"]
    by (auto simp: hooked_def)
  have "shm_create app_env \<le> 0" "0 \<le> shm_attach app_env" "0 < shm_create first_env" "ftruncate_ret first_env = 0"
    "mmap_create first_env = Some 0x10000" by (simp_all add: app_env_def first_env_def)
  then show ?thesis
    using restarted_application_aborts [OF first, of "app_env\<lparr>region := ?ch\<lparr>connected := 2\<rparr>\<rparr>" first_env "0x10000"] by auto
qed

end
