(* ===== verification/MapPrograms.thy ===== *)
theory MapPrograms
  imports PacketPrograms
begin
text \<open>
  The example programs that keep state in maps: the pair of programs that share kernel maps
  (\<open>examples/kernel_map_example/\<close>), the packet counters \<open>examples/dump_packet/xdp.c\<close> and
  \<open>examples/userspace_maps/ubpf.c\<close>, and the tail calls of \<open>examples/benchmarks/tail_call.c\<close>.
\<close>

section \<open>A kernel program that fills a map\<close>

definition XDP_PASS :: int where "XDP_PASS = 2"
definition NUM_ENTRIES :: u32 where "NUM_ENTRIES = 1024"
definition MAX_PAYLOAD_SIZE :: nat where "MAX_PAYLOAD_SIZE = 256"

text \<open>\<open>struct data\<close>, and the two maps: one counter and an array of such objects.\<close>

record pkt_data_obj =
  ether_type :: u32
  ip_proto :: u32
  data_len :: u32
  data_payload :: "u8 list"
  data_count :: u32

record kernel_maps =
  test_map :: "u32 option"
  data_map :: "pkt_data_obj list"

definition lookup_data :: "kernel_maps \<Rightarrow> u32 \<Rightarrow> pkt_data_obj option" where
  "lookup_data k i = (if unat i < length (data_map k) then Some (data_map k ! unat i) else None)"

definition store_data :: "kernel_maps \<Rightarrow> u32 \<Rightarrow> pkt_data_obj \<Rightarrow> kernel_maps" where
  "store_data k i d = k\<lparr>data_map := (data_map k)[unat i := d]\<rparr>"

text \<open>The copy loop, with its two breaks.\<close>

function copy_payload :: "packet \<Rightarrow> int \<Rightarrow> nat \<Rightarrow> nat \<Rightarrow> u8 list \<Rightarrow> u8 list c_result" where
  "copy_payload p start n i buf =
     (if i < n then
        if start + int i + 1 > pkt_end p then Inr buf
        else if i \<ge> MAX_PAYLOAD_SIZE then Inr buf
        else c_bind (peek 1 (start + int i) (mem p)) (\<lambda>b.
          c_bind (poke (int i) b buf) (copy_payload p start n (i + 1)))
      else Inr buf)"
  by pat_completeness auto
termination by (relation "measure (\<lambda>(p, start, n, i, buf). n - i)") auto

declare copy_payload.simps [simp del]

text \<open>
  \<open>_ubpf_map_test\<close>; \<open>redirect\<close> is the result of handing the packet to the socket. The object that \<open>d\<close>
  points to is written back after each assignment.
\<close>

definition ubpf_map_test :: "int \<Rightarrow> packet \<Rightarrow> kernel_maps \<Rightarrow> (int \<times> kernel_maps) c_result" where
  "ubpf_map_test redirect p k =
     (case test_map k of None \<Rightarrow> Inr (XDP_PASS, k)
      | Some v \<Rightarrow>
        let val = v + 1; k = k\<lparr>test_map := Some val\<rparr>; index = val mod NUM_ENTRIES in
        case lookup_data k index of None \<Rightarrow> Inr (XDP_PASS, k)
        | Some d \<Rightarrow>
          let d = d\<lparr>data_count := val\<rparr>; eth = pkt_data p; ip = eth + 14; udp = ip + 20; start = udp + 8 in
          if out_of_pkt p eth 14 then Inr (XDP_PASS, store_data k index d)
          else c_bind (peek 2 (eth + 12) (mem p)) (\<lambda>proto.
            let d = d\<lparr>ether_type := ucast (load16_be proto)\<rparr> in
            if ether_type d = 0x0800 then
              if out_of_pkt p ip 20 then Inr (XDP_PASS, store_data k index d)
              else c_bind (peek 1 (ip + 9) (mem p)) (\<lambda>protocol.
                let d = d\<lparr>ip_proto := ucast (protocol ! 0)\<rparr> in
                if protocol = [PROTO_UDP] then
                  if out_of_pkt p udp 8 then Inr (XDP_PASS, store_data k index d)
                  else c_bind (peek 2 (udp + 4) (mem p)) (\<lambda>l.
                    let len = load16_be l - 8; d = d\<lparr>data_len := ucast len\<rparr> in
                    c_bind (copy_payload p start (unat len) 0 (data_payload d)) (\<lambda>buf.
                    Inr (redirect, store_data k index (d\<lparr>data_payload := buf\<rparr>))))
                else Inr (XDP_PASS, store_data k index d))
            else Inr (XDP_PASS, store_data k index d)))"

text \<open>What is printed of a packet; \<open>%s\<close> prints up to the first zero byte and must find one.\<close>

record printout =
  out_type :: u32
  out_proto :: u32
  out_len :: u32
  out_text :: "u8 list"
  out_counts :: "u32 \<times> u32"

definition print_string :: "u8 list \<Rightarrow> u8 list c_result" where
  "print_string bs = c_check (0 \<in> set bs) OutOfBounds (Inr (takeWhile (\<lambda>b. b \<noteq> 0) bs))"

text \<open>The program of the engine, \<open>kernel_map_example/ubpf.c\<close>.\<close>

definition map_example :: "kernel_maps \<Rightarrow> (int \<times> printout) c_result" where
  "map_example k =
     c_bind (c_opt NullDeref (test_map k)) (\<lambda>count.
     c_bind (c_opt NullDeref (lookup_data k (count mod NUM_ENTRIES))) (\<lambda>d.
     c_bind (print_string (data_payload d)) (\<lambda>s.
     Inr (DROP, \<lparr>out_type = ether_type d, out_proto = ip_proto d, out_len = data_len d, out_text = s,
       out_counts = (data_count d, count)\<rparr>))))"

section \<open>Counting programs\<close>

text \<open>\<open>dump_packet/xdp.c\<close>.\<close>

definition ubpf_dump_packet :: "int \<Rightarrow> u32 option \<Rightarrow> int \<times> u32 option" where
  "ubpf_dump_packet redirect val = (case val of None \<Rightarrow> (XDP_PASS, None) | Some v \<Rightarrow> (redirect, Some (v + 1)))"

text \<open>
  \<open>userspace_maps/ubpf.c\<close>. The map has keys of four and values of eight bytes. A new entry is copied from
  the four bytes of \<open>one\<close>, so its upper half is what lies behind that variable (\<open>behind\<close>); \<open>full\<close> tells
  whether the map refuses the entry.
\<close>

definition count_packets ::
  "u8 list \<Rightarrow> bool \<Rightarrow> packet \<Rightarrow> (u8 list \<rightharpoonup> u8 list) \<Rightarrow> (int \<times> packet \<times> (u8 list \<rightharpoonup> u8 list)) c_result" where
  "count_packets behind full p count_map =
     (let eth = pkt_data p in
      c_bind (peek 2 (eth + 12) (mem p)) (\<lambda>proto.
      if proto = ETH_P_IP then
        let ip = eth + 20 in
        c_bind (peek 4 (ip + 12) (mem p)) (\<lambda>key.
        case count_map key of
          None \<Rightarrow> Inr (DROP, p, if full then count_map else count_map(key \<mapsto> store32 1 @ behind))
        | Some v \<Rightarrow>
            let count_map = count_map(key \<mapsto> store32 (load32 v + 1) @ List.drop 4 v) in
            c_bind (swap_loop 6 (eth + 6) eth (mem p)) (\<lambda>m. Inr (SEND, p\<lparr>mem := m\<rparr>, count_map)))
      else Inr (DROP, p, count_map)))"

section \<open>Tail calls\<close>

text \<open>
  \<open>tail_call.c\<close>. The program calls itself until the counter in its map reaches 20; \<open>k\<close> is the number of
  tail calls that the kernel still admits for the packet. The result also has the number of calls made.
\<close>

fun tail_call :: "nat \<Rightarrow> int option \<Rightarrow> int \<times> nat \<times> int option" where
  "tail_call k None = (DROP, 0, None)"
| "tail_call k (Some r) =
     (if r = 20 then (DROP, 0, Some r)
      else case k of 0 \<Rightarrow> (DROP, 0, Some (r + 1))
        | Suc k \<Rightarrow> (case tail_call k (Some (r + 1)) of (ret, calls, r) \<Rightarrow> (ret, calls + 1, r)))"

fun tail_calls :: "nat \<Rightarrow> nat \<Rightarrow> int option \<Rightarrow> nat" where
  "tail_calls k 0 r = 0"
| "tail_calls k (Suc packets) r = (case tail_call k r of (_, calls, r) \<Rightarrow> calls + tail_calls k packets r)"

section \<open>The two programs of the kernel map example\<close>

text \<open>The buffer after the copy: as many bytes as the length, the packet and the buffer allow.\<close>

lemma copy_payload_result:
  assumes at: "pkt_end p = int e" "e \<le> length (mem p)" and buf: "length buf = MAX_PAYLOAD_SIZE"
  shows "copied \<le> min n (min MAX_PAYLOAD_SIZE (e - a)) \<Longrightarrow> a \<le> e \<Longrightarrow>
    copy_payload p (int a) n copied (chunk copied a (mem p) @ List.drop copied buf) =
      (let k = min n (min MAX_PAYLOAD_SIZE (e - a)) in Inr (chunk k a (mem p) @ List.drop k buf))"
proof (induction "min n (min MAX_PAYLOAD_SIZE (e - a)) - copied" arbitrary: copied)
  case 0
  then have "copied = min n (min MAX_PAYLOAD_SIZE (e - a))" by simp
  moreover from this have "\<not> copied < n \<or> int a + int copied + 1 > int e \<or> MAX_PAYLOAD_SIZE \<le> copied"
    using 0(3) by linarith
  ultimately show ?case by (subst copy_payload.simps) (auto simp: at Let_def)
next
  case (Suc x)
  let ?buf = "chunk copied a (mem p) @ List.drop copied buf"
  have lt: "copied < n" "copied < MAX_PAYLOAD_SIZE" "a + copied < e" using Suc(2) by linarith+
  then have inside: "a + copied < length (mem p)" using at(2) by simp
  have len: "length (chunk copied a (mem p)) = copied" using inside by simp
  have pk: "peek 1 (int a + int copied) (mem p) = Inr [mem p ! (a + copied)]"
    using inside peek_inside [of "int a + int copied" 1 "mem p"] chunk_one [of "a + copied" "mem p"] by (simp add: nat_add_distrib)
  have next_buf: "poke (int copied) [mem p ! (a + copied)] ?buf =
      Inr (chunk (copied + 1) a (mem p) @ List.drop (copied + 1) buf)"
    using len lt buf inside
    by (simp add: poke_inside overwrite_def chunk_def take_Suc_conv_app_nth)
  have "copied + 1 \<le> min n (min MAX_PAYLOAD_SIZE (e - a))" "x = min n (min MAX_PAYLOAD_SIZE (e - a)) - (copied + 1)"
    using Suc(2) by linarith+
  from Suc(1) [OF this(2,1) Suc(4)] show ?case
    using lt pk next_buf by (subst copy_payload.simps) (simp add: at)
qed

text \<open>Maps as the kernel creates them: all entries exist, with payload buffers of the full size.\<close>

definition maps_wf :: "kernel_maps \<Rightarrow> bool" where
  "maps_wf k \<longleftrightarrow> test_map k \<noteq> None \<and> length (data_map k) = 1024 \<and>
     (\<forall>d \<in> set (data_map k). length (data_payload d) = MAX_PAYLOAD_SIZE)"

text \<open>The number of payload bytes that are copied, and the entry that a packet goes to.\<close>

definition payload_len :: "nat \<Rightarrow> u8 list \<Rightarrow> u16" where
  "payload_len d m = load16_be (chunk 2 (d + 38) m) - 8"

definition copied_len :: "nat \<Rightarrow> nat \<Rightarrow> u8 list \<Rightarrow> nat" where
  "copied_len d e m = min (unat (payload_len d m)) (min MAX_PAYLOAD_SIZE (e - (d + 42)))"

lemma mod_entries: "unat (v mod NUM_ENTRIES) < 1024" for v :: u32
  by (simp add: NUM_ENTRIES_def unat_mod_distrib)

lemma lookup_data_wf:
  assumes "maps_wf k"
  obtains d where "lookup_data k (v mod NUM_ENTRIES) = Some d" and "length (data_payload d) = MAX_PAYLOAD_SIZE"
  using assms mod_entries [of v] that by (auto simp: lookup_data_def maps_wf_def)

text \<open>One packet, with all outcomes.\<close>

lemma ubpf_map_test_result:
  assumes p: "packet_at a e p" and wf: "maps_wf k" and v: "test_map k = Some v"
    and d: "lookup_data k ((v + 1) mod NUM_ENTRIES) = Some d"
  shows "ubpf_map_test redirect p k =
    (let m = mem p; k = k\<lparr>test_map := Some (v + 1)\<rparr>; i = (v + 1) mod NUM_ENTRIES; d = d\<lparr>data_count := v + 1\<rparr>;
         t = ucast (load16_be (chunk 2 (a + 12) m)); d1 = d\<lparr>ether_type := t\<rparr>; d2 = d1\<lparr>ip_proto := ucast (m ! (a + 23))\<rparr> in
     if e < a + 14 then Inr (XDP_PASS, store_data k i d)
     else if t \<noteq> 0x0800 \<or> e < a + 34 then Inr (XDP_PASS, store_data k i d1)
     else if m ! (a + 23) \<noteq> PROTO_UDP \<or> e < a + 42 then Inr (XDP_PASS, store_data k i d2)
     else let n = copied_len a e m in Inr (redirect, store_data k i (d2\<lparr>data_len := ucast (payload_len a m),
        data_payload := chunk n (a + 42) m @ List.drop n (data_payload d)\<rparr>)))"
proof -
  have at: "pkt_data p = int a" "pkt_end p = int e" and le: "a \<le> e" "e \<le> length (mem p)"
    using p by (simp_all add: packet_at_def)
  let ?k = "k\<lparr>test_map := Some (v + 1)\<rparr>" and ?m = "mem p"
  have look: "lookup_data ?k ((v + 1) mod NUM_ENTRIES) = Some d" using d by (simp add: lookup_data_def split: if_splits)
  have buf: "length (data_payload d) = MAX_PAYLOAD_SIZE"
    using wf d by (auto simp: lookup_data_def maps_wf_def split: if_splits)
  have p1: "peek 2 (int a + 12) ?m = Inr (chunk 2 (a + 12) ?m)" if "a + 14 \<le> e" using that le by (simp add: peek_inside)
  have p2: "peek 1 (int a + 14 + 9) ?m = Inr [?m ! (a + 23)]" if "a + 34 \<le> e"
    using that le by (simp add: peek_inside chunk_one)
  have p3: "peek 2 (int a + 14 + 20 + 4) ?m = Inr (chunk 2 (a + 38) ?m)" if "a + 42 \<le> e"
    using that le by (simp add: peek_inside)
  have cp: "copy_payload p (int a + 14 + 20 + 8) (unat (payload_len a ?m)) 0 (data_payload d) =
      Inr (chunk (copied_len a e ?m) (a + 42) ?m @ List.drop (copied_len a e ?m) (data_payload d))" if "a + 42 \<le> e"
    using copy_payload_result [OF at(2) le(2) buf, of 0 "unat (payload_len a ?m)" "a + 42"] that
    by (simp add: copied_len_def chunk_def Let_def ac_simps)
  consider "e < a + 14" | "\<not> e < a + 14" "ucast (load16_be (chunk 2 (a + 12) ?m)) \<noteq> (0x0800 :: u32) \<or> e < a + 34"
    | "\<not> e < a + 34" "ucast (load16_be (chunk 2 (a + 12) ?m)) = (0x0800 :: u32)" "?m ! (a + 23) \<noteq> PROTO_UDP \<or> e < a + 42"
    | "\<not> e < a + 42" "ucast (load16_be (chunk 2 (a + 12) ?m)) = (0x0800 :: u32)" "?m ! (a + 23) = PROTO_UDP" by linarith
  then show ?thesis
  proof cases
    case 1
    then show ?thesis by (simp add: ubpf_map_test_def v look Let_def out_of_pkt_def at)
  next
    case 2
    then show ?thesis using p1 by (auto simp: ubpf_map_test_def v look Let_def out_of_pkt_def at)
  next
    case 3
    then show ?thesis using p1 p2 by (auto simp: ubpf_map_test_def v look Let_def out_of_pkt_def at)
  next
    case 4
    then show ?thesis using p1 p2 p3 cp
      by (simp add: ubpf_map_test_def v look Let_def out_of_pkt_def at payload_len_def)
  qed
qed

lemma store_data_wf:
  "maps_wf k \<Longrightarrow> length (data_payload d) = MAX_PAYLOAD_SIZE \<Longrightarrow>
    maps_wf (store_data (k\<lparr>test_map := Some v\<rparr>) i d)"
  by (auto simp: maps_wf_def store_data_def dest: set_update_subset_insert [THEN subsetD])

lemma store_data_facts:
  assumes "maps_wf k"
  shows "test_map (store_data (k\<lparr>test_map := Some v\<rparr>) i d) = Some v"
    and "unat i < 1024 \<Longrightarrow> lookup_data (store_data (k\<lparr>test_map := Some v\<rparr>) i d) i = Some d"
    and "j \<noteq> unat i \<Longrightarrow> data_map (store_data (k\<lparr>test_map := Some v\<rparr>) i d) ! j = data_map k ! j"
  using assms by (simp_all add: store_data_def lookup_data_def maps_wf_def)

lemma length_copied: "length buf = MAX_PAYLOAD_SIZE \<Longrightarrow> a + 42 \<le> e \<Longrightarrow> e \<le> length m \<Longrightarrow>
    length (chunk (copied_len a e m) (a + 42) m @ List.drop (copied_len a e m) buf) = MAX_PAYLOAD_SIZE"
  by (simp add: copied_len_def)

text \<open>C19: the kernel program handles every packet without leaving it or its maps: whatever the bytes are,
  it passes the packet on or redirects it, counts it, and changes no entry but the one the new count
  selects; entries keep their size. In particular a length field below the size of a header, which
  wraps around, does no harm.\<close>

theorem kernel_program_safe:
  assumes "packet_at a e p" and "maps_wf k" and "test_map k = Some v"
  shows "\<exists>r k'. ubpf_map_test redirect p k = Inr (r, k') \<and> r \<in> {XDP_PASS, redirect} \<and> maps_wf k' \<and>
    test_map k' = Some (v + 1) \<and>
    (\<forall>j. j \<noteq> unat ((v + 1) mod NUM_ENTRIES) \<longrightarrow> data_map k' ! j = data_map k ! j)"
proof -
  obtain d where d: "lookup_data k ((v + 1) mod NUM_ENTRIES) = Some d" "length (data_payload d) = MAX_PAYLOAD_SIZE"
    using assms(2) by (rule lookup_data_wf)
  have le: "e \<le> length (mem p)" using assms(1) by (simp add: packet_at_def)
  have "\<exists>r d'. ubpf_map_test redirect p k =
      Inr (r, store_data (k\<lparr>test_map := Some (v + 1)\<rparr>) ((v + 1) mod NUM_ENTRIES) d') \<and>
      r \<in> {XDP_PASS, redirect} \<and> length (data_payload d') = MAX_PAYLOAD_SIZE"
    unfolding ubpf_map_test_result [OF assms d(1)] using d(2) length_copied [OF d(2) _ le]
    by (auto simp: Let_def not_less)
  then show ?thesis using store_data_wf [OF assms(2)] store_data_facts [OF assms(2)] by fastforce
qed

text \<open>A UDP packet with a payload of two bytes, and maps whose payload buffers are clear.\<close>

definition demo_maps_k :: kernel_maps where
  "demo_maps_k = \<lparr>test_map = Some 6, data_map = replicate 1024 \<lparr>ether_type = 0, ip_proto = 0, data_len = 0,
     data_payload = replicate 256 0, data_count = 0\<rparr>\<rparr>"

definition demo_udp :: packet where
  "demo_udp = demo_packet\<lparr>mem := (mem demo_packet)[39 := 10]\<rparr>"

lemma demo_maps_facts: "packet_at 0 44 demo_udp" "maps_wf demo_maps_k" "test_map demo_maps_k = Some 6"
  by (simp_all add: packet_at_def demo_udp_def demo_packet_def demo_maps_k_def maps_wf_def MAX_PAYLOAD_SIZE_def)

theorem kernel_program_safe_witness:
  "\<exists>r k'. ubpf_map_test 4 demo_udp demo_maps_k = Inr (r, k') \<and> test_map k' = Some 7"
  using kernel_program_safe [OF demo_maps_facts, of 4] by auto

text \<open>The two programs together: of a UDP packet that the kernel program redirects, the engine's
  program then prints the type, the protocol, the payload's length and the count. The text it prints is
  the payload, cut to the buffer, followed by what earlier packets left in the buffer; without a zero
  byte there it reads behind the buffer.\<close>

theorem map_example_shows:
  assumes "packet_at a e p" and "maps_wf k" and "test_map k = Some v"
    and "chunk 2 (a + 12) (mem p) = ETH_P_IP" and "mem p ! (a + 23) = PROTO_UDP" and "a + 42 \<le> e"
    and "lookup_data k ((v + 1) mod NUM_ENTRIES) = Some old"
  shows "\<exists>k'. ubpf_map_test redirect p k = Inr (redirect, k') \<and>
    map_example k' =
      (let n = copied_len a e (mem p) in
       c_bind (print_string (chunk n (a + 42) (mem p) @ List.drop n (data_payload old))) (\<lambda>s.
       Inr (DROP, \<lparr>out_type = 0x0800, out_proto = 17, out_len = ucast (payload_len a (mem p)), out_text = s,
         out_counts = (v + 1, v + 1)\<rparr>)))"
proof -
  have t: "ucast (load16_be ETH_P_IP) = (0x0800 :: u32)" by (simp add: ETH_P_IP_def load16_be_def load16_def)
  have "ubpf_map_test redirect p k = Inr (redirect, store_data (k\<lparr>test_map := Some (v + 1)\<rparr>) ((v + 1) mod NUM_ENTRIES)
    (old\<lparr>data_count := v + 1, ether_type := 0x0800, ip_proto := 17, data_len := ucast (payload_len a (mem p)),
       data_payload := chunk (copied_len a e (mem p)) (a + 42) (mem p) @ List.drop (copied_len a e (mem p)) (data_payload old)\<rparr>))"
    using assms(6) unfolding ubpf_map_test_result [OF assms(1-3,7)] by (simp add: Let_def assms(4,5) t PROTO_UDP_def)
  then show ?thesis using mod_entries [of "v + 1"]
    by (simp add: map_example_def store_data_facts [OF assms(2)] Let_def)
qed

theorem map_example_shows_witness:
  "\<exists>k' out. ubpf_map_test 4 demo_udp demo_maps_k = Inr (4, k') \<and> map_example k' = Inr (DROP, out) \<and>
    out_text out = [104, 105] \<and> out_len out = 2"
proof -
  have l: "lookup_data demo_maps_k ((6 + 1) mod NUM_ENTRIES) =
      Some \<lparr>ether_type = 0, ip_proto = 0, data_len = 0, data_payload = replicate 256 0, data_count = 0\<rparr>"
    by (simp add: lookup_data_def demo_maps_k_def NUM_ENTRIES_def)
  have n: "payload_len 0 (mem demo_udp) = 2" "copied_len 0 44 (mem demo_udp) = 2" "chunk 2 42 (mem demo_udp) = [104, 105]"
    "chunk 2 12 (mem demo_udp) = ETH_P_IP" "mem demo_udp ! 23 = PROTO_UDP" by code_simp+
  have s: "print_string ([104, 105] @ List.drop 2 (replicate 256 0)) = Inr [104, 105]"
    by (simp add: print_string_def)
  show ?thesis using map_example_shows [OF demo_maps_facts _ _ _ l, of 4] n s by (auto simp: Let_def)
qed

section \<open>Counting and tail calls\<close>

text \<open>The packet counter of the user space map counts per the four bytes 32 bytes into the frame, which are
  the end of the destination address and the source port of a regular header, not per source address:
  the first packet is dropped and enters the count 1, whatever lies behind the variable, every
  later one is counted and answered with its addresses exchanged.\<close>

theorem count_packets_key:
  assumes "packet_at d e p" and "chunk 2 (d + 12) (mem p) = ETH_P_IP" and "d + 36 \<le> length (mem p)"
  shows "count_packets behind False p m =
    (let key = chunk 4 (d + 32) (mem p) in
     case m key of
       None \<Rightarrow> Inr (DROP, p, m(key \<mapsto> store32 1 @ behind))
     | Some v \<Rightarrow> Inr (SEND, p\<lparr>mem := mac_swapped d (mem p)\<rparr>, m(key \<mapsto> store32 (load32 v + 1) @ List.drop 4 v)))"
proof -
  have at: "pkt_data p = int d" using assms(1) by (simp add: packet_at_def)
  have pk: "peek 2 (int d + 12) (mem p) = Inr ETH_P_IP" "peek 4 (int d + 20 + 12) (mem p) = Inr (chunk 4 (d + 32) (mem p))"
    using assms(2,3) by (simp_all add: peek_inside)
  have "swap_loop 6 (int d + 6) (int d) (mem p) = Inr (mac_swapped d (mem p))"
    using assms(3) by (simp add: swap_loop_inside mac_swapped_def)
  then show ?thesis using pk by (simp add: count_packets_def at Let_def split: option.split)
qed

theorem count_packets_key_witness:
  "count_packets [0, 0, 0, 0] False demo_packet Map.empty = Inr (DROP, demo_packet, [[0, 2, 0, 7] \<mapsto> [1, 0, 0, 0, 0, 0, 0, 0]])"
proof -
  have "chunk 2 12 (mem demo_packet) = ETH_P_IP" "chunk 4 32 (mem demo_packet) = [0, 2, 0, 7]"
    "store32 1 @ [0, 0, 0, 0] = [1, 0, 0, 0, 0, 0, 0, 0]" "length (mem demo_packet) = 44" by code_simp+
  then show ?thesis using count_packets_key [OF demo_packet_at, of "[0, 0, 0, 0]" Map.empty] by simp
qed

lemma tail_call_result:
  "0 \<le> r \<Longrightarrow> r \<le> 20 \<Longrightarrow> nat (20 - r) \<le> k \<Longrightarrow> tail_call k (Some r) = (DROP, nat (20 - r), Some 20)"
proof (induction "nat (20 - r)" arbitrary: r k)
  case (Suc x)
  then have "r \<noteq> 20" "x = nat (20 - (r + 1))" by auto
  moreover obtain j where j: "k = Suc j" using Suc.hyps(2) Suc.prems(3) by (cases k) auto
  moreover have "tail_call j (Some (r + 1)) = (DROP, nat (20 - (r + 1)), Some 20)"
    using Suc.prems Suc.hyps j by (intro Suc.hyps(1)) auto
  ultimately show ?case using Suc.hyps(2) by simp
qed simp

lemma tail_calls_done: "tail_calls k packets (Some 20) = 0"
  by (induction packets) simp_all

text \<open>The counter of the tail calls is never reset: of any sequence of packets only the first makes the
  twenty tail calls that the benchmark is to measure, all others make none.\<close>

theorem tail_calls_once:
  assumes "20 \<le> k"
  shows "tail_calls k packets (Some 0) = (if packets = 0 then 0 else 20)"
  using assms tail_call_result [of 0 k] by (cases packets) (simp_all add: tail_calls_done)

theorem tail_calls_once_witness: "tail_calls 32 1000 (Some 0) = 20"
  using tail_calls_once [of 32 1000] by simp

end
