(* ===== verification/Loaders.thy ===== *)
theory Loaders
  imports Sockets Benchmarks Step_Interface
begin
text \<open>
  The two programs that attach an example to an interface, \<open>examples/dump_packet/loader.c\<close> and
  \<open>examples/benchmarks/loader.c\<close>: options, names in fixed buffers, loading, filling the maps of the
  benchmarks, attaching, and the signal handler that detaches again.
\<close>

section \<open>Names in buffers\<close>

definition NUL :: char where "NUL = CHR 0x00"

text \<open>\<open>strncpy\<close> writes exactly \<open>n\<close> characters, without a terminator when the source is not shorter.\<close>

definition strncpy :: "string \<Rightarrow> string \<Rightarrow> nat \<Rightarrow> string" where
  "strncpy buf s n = take n (s @ replicate n NUL) @ List.drop n buf"

text \<open>Reading the string in a buffer, which leaves the buffer when nothing terminates it.\<close>

definition c_string :: "string \<Rightarrow> string c_result" where
  "c_string buf = c_check (NUL \<in> set buf) OutOfBounds (Inr (takeWhile (\<lambda>c. c \<noteq> NUL) buf))"

section \<open>Options\<close>

definition SKB_MODE_FLAG :: u32 where "SKB_MODE_FLAG = 2"
definition DRV_MODE_FLAG :: u32 where "DRV_MODE_FLAG = 4"
definition IF_NOEXIST_FLAG :: u32 where "IF_NOEXIST_FLAG = 1"

datatype loader_opt = SkbMode | NativeMode | ForceLoad | SectionName string | BadOption

record loader_opts =
  ld_flags :: u32
  prog_sec_name :: string

text \<open>One turn of the loop; \<open>lim\<close> is the count that the program passes to \<open>strncpy\<close>.\<close>

fun loader_switch :: "nat \<Rightarrow> loader_opts \<Rightarrow> loader_opt \<Rightarrow> loader_opts c_result" where
  "loader_switch lim l SkbMode = Inr (l\<lparr>ld_flags := ld_flags l OR SKB_MODE_FLAG\<rparr>)"
| "loader_switch lim l NativeMode = Inr l"
| "loader_switch lim l ForceLoad = Inr (l\<lparr>ld_flags := ld_flags l AND NOT IF_NOEXIST_FLAG\<rparr>)"
| "loader_switch lim l (SectionName s) = Inr (l\<lparr>prog_sec_name := strncpy (prog_sec_name l) s lim\<rparr>)"
| "loader_switch lim l BadOption = Inl (Exit 1)"

fun loader_getopt :: "nat \<Rightarrow> loader_opts \<Rightarrow> loader_opt list \<Rightarrow> loader_opts c_result" where
  "loader_getopt lim l [] = Inr l"
| "loader_getopt lim l (opt # opts) = c_bind (loader_switch lim l opt) (\<lambda>l. loader_getopt lim l opts)"

section \<open>Loading\<close>

text \<open>
  What the loaders use of libbpf, over a state \<open>'k\<close> of the kernel; \<open>'o\<close> are loaded objects, \<open>'p\<close> their
  programs. \<open>load_xattr\<close> yields the object and the descriptor of its first program.
\<close>

record ('o, 'p, 'k) bpf_lib =
  load_xattr :: "string \<Rightarrow> 'k \<Rightarrow> ('o \<times> int \<times> 'k) option"
  find_program :: "'o \<Rightarrow> string \<Rightarrow> 'p option"
  program_fd :: "'p option \<Rightarrow> int"
  find_map_fd :: "'o \<Rightarrow> string \<Rightarrow> int"
  update_elem :: "int \<Rightarrow> u8 list \<Rightarrow> u8 list \<Rightarrow> 'k \<Rightarrow> int \<times> 'k"
  set_link_fd :: "u32 \<Rightarrow> int \<Rightarrow> u32 \<Rightarrow> 'k \<Rightarrow> int \<times> 'k"
  get_link_id :: "u32 \<Rightarrow> u32 \<Rightarrow> 'k \<Rightarrow> int \<times> u32"
  prog_info :: "int \<Rightarrow> 'k \<Rightarrow> int \<times> u32"

text \<open>
  The loop over the 128 keys of \<open>hash_map\<close>: only the first four of the eight bytes of a key are
  written, \<open>rest\<close> is what the uninitialised variable holds behind them. Failures are only printed.
\<close>

fun fill_hash_map :: "('o, 'p, 'k) bpf_lib \<Rightarrow> int \<Rightarrow> u8 list \<Rightarrow> nat \<Rightarrow> nat \<Rightarrow> 'k \<Rightarrow> 'k" where
  "fill_hash_map lib fd rest 0 i k = k"
| "fill_hash_map lib fd rest (Suc n) i k =
     fill_hash_map lib fd rest n (Suc i) (snd (update_elem lib fd (store32 (of_nat i) @ rest) (replicate 8 0) k))"

definition try_populate_maps :: "('o, 'p, 'k) bpf_lib \<Rightarrow> u8 list \<Rightarrow> 'o \<Rightarrow> int \<Rightarrow> 'k \<Rightarrow> 'k" where
  "try_populate_maps lib rest obj prog_fd k =
     (let map_fd = find_map_fd lib obj ''map_progs'';
          k = (if map_fd > 0 then snd (update_elem lib map_fd (store32 0) (store32 (word_of_int prog_fd)) k) else k);
          map_fd = find_map_fd lib obj ''hash_map'' in
      if map_fd > 0 then fill_hash_map lib map_fd rest 128 0 k else k)"

text \<open>
  \<open>main\<close> up to the handlers; \<open>junk_sec\<close> and \<open>junk_file\<close> are what the two local arrays of 256 characters
  hold at first, \<open>populate\<close> the step between loading and attaching. The result is the interface, the
  flags, the program and the kernel.
\<close>

definition loader_prepare ::
  "nat \<Rightarrow> ('o \<Rightarrow> int \<Rightarrow> 'k \<Rightarrow> 'k) \<Rightarrow> ('o, 'p, 'k) bpf_lib \<Rightarrow> (string \<Rightarrow> u32) \<Rightarrow> loader_opt list \<Rightarrow> string list \<Rightarrow>
     string \<Rightarrow> string \<Rightarrow> 'k \<Rightarrow> (u32 \<times> u32 \<times> int \<times> 'k) c_result" where
  "loader_prepare lim populate lib if_nametoindex opts args junk_sec junk_file k =
     c_bind (loader_getopt lim \<lparr>ld_flags = IF_NOEXIST_FLAG, prog_sec_name = ''-'' @ [NUL] @ List.drop 2 junk_sec\<rparr> opts) (\<lambda>l.
     c_bind (c_string (prog_sec_name l)) (\<lambda>sec.
     let flags = (if ld_flags l AND SKB_MODE_FLAG = 0 then ld_flags l OR DRV_MODE_FLAG else ld_flags l) in
     c_check (2 \<le> length args) (Exit 1) (
     let ifi = if_nametoindex (args ! 0) in
     c_check (ifi \<noteq> 0) (Exit 1) (
     c_bind (c_string (strncpy junk_file (args ! 1) lim)) (\<lambda>name.
     c_bind (c_opt (Exit 1) (load_xattr lib name k)) (\<lambda>(obj, prog_fd, k).
     let by_name = prog_sec_name l ! 0 \<noteq> CHR ''-'';
         prog_fd = (if by_name then program_fd lib (find_program lib obj sec) else prog_fd) in
     c_check (\<not> (by_name \<and> prog_fd = 0)) (Exit 1) (
     Inr (ifi, flags, prog_fd, populate obj prog_fd k))))))))"

definition dump_prepare where
  "dump_prepare = loader_prepare 256 (\<lambda>obj prog_fd k. k)"

definition bench_prepare where
  "bench_prepare rest lib = loader_prepare 255 (try_populate_maps lib rest) lib"

section \<open>Attaching and leaving\<close>

text \<open>
  The points of the program behind the preparation: before attaching, before asking for the program's
  number, waiting, and in the handler between its check and its action.
\<close>

datatype loader_pc = Attaching | Asking | Waiting | Leaving u32 | Stopped int

record 'k loader =
  at :: loader_pc
  ld_ifindex :: u32
  ld_xdp_flags :: u32
  ld_prog_fd :: int
  ld_prog_id :: u32
  kern :: 'k

definition loader_attach :: "('o, 'p, 'k) bpf_lib \<Rightarrow> 'k loader \<Rightarrow> 'k loader" where
  "loader_attach lib s =
     (case set_link_fd lib (ld_ifindex s) (ld_prog_fd s) (ld_xdp_flags s) (kern s) of (ret, k) \<Rightarrow>
        s\<lparr>kern := k, at := (if ret < 0 then Stopped 1 else Asking)\<rparr>)"

definition loader_ask :: "('o, 'p, 'k) bpf_lib \<Rightarrow> 'k loader \<Rightarrow> 'k loader" where
  "loader_ask lib s =
     (case prog_info lib (ld_prog_fd s) (kern s) of (err, pid) \<Rightarrow>
        if err \<noteq> 0 then s\<lparr>at := Stopped err\<rparr> else s\<lparr>ld_prog_id := pid, at := Waiting\<rparr>)"

definition int_exit_look :: "('o, 'p, 'k) bpf_lib \<Rightarrow> 'k loader \<Rightarrow> 'k loader" where
  "int_exit_look lib s =
     (case get_link_id lib (ld_ifindex s) (ld_xdp_flags s) (kern s) of (err, cur) \<Rightarrow>
        s\<lparr>at := (if err \<noteq> 0 then Stopped 1 else Leaving cur)\<rparr>)"

definition int_exit_act :: "('o, 'p, 'k) bpf_lib \<Rightarrow> u32 \<Rightarrow> 'k loader \<Rightarrow> 'k loader" where
  "int_exit_act lib cur s =
     s\<lparr>at := Stopped 0, kern := (if ld_prog_id s = cur
         then snd (set_link_fd lib (ld_ifindex s) (-1) (ld_xdp_flags s) (kern s)) else kern s)\<rparr>"

definition loader_exit :: "('o, 'p, 'k) bpf_lib \<Rightarrow> 'k loader \<Rightarrow> 'k loader" where
  "loader_exit lib s = (let s = int_exit_look lib s in case at s of Leaving cur \<Rightarrow> int_exit_act lib cur s | _ \<Rightarrow> s)"

text \<open>
  The steps of a loader: its own, a signal at any point of its run, and any change of the kernel by
  other processes.
\<close>

inductive loader_step :: "('o, 'p, 'k) bpf_lib \<Rightarrow> 'k loader \<Rightarrow> 'k loader \<Rightarrow> bool" for lib where
  attach: "at s = Attaching \<Longrightarrow> loader_step lib s (loader_attach lib s)"
| ask: "at s = Asking \<Longrightarrow> loader_step lib s (loader_ask lib s)"
| signal: "\<forall>st. at s \<noteq> Stopped st \<Longrightarrow> loader_step lib s (int_exit_look lib s)"
| leave: "at s = Leaving cur \<Longrightarrow> loader_step lib s (int_exit_act lib cur s)"
| others: "loader_step lib s (s\<lparr>kern := k\<rparr>)"

definition loader_start :: "u32 \<times> u32 \<times> int \<times> 'k \<Rightarrow> 'k loader" where
  "loader_start p = (case p of (ifi, flags, prog_fd, k) \<Rightarrow>
     \<lparr>at = Attaching, ld_ifindex = ifi, ld_xdp_flags = flags, ld_prog_fd = prog_fd, ld_prog_id = 0, kern = k\<rparr>)"
section \<open>Names that fit\<close>

lemma strncpy_short: "length s < n \<Longrightarrow> strncpy buf s n = s @ replicate (n - length s) NUL @ List.drop n buf"
  by (simp add: strncpy_def)

lemma strncpy_long: "n \<le> length s \<Longrightarrow> strncpy buf s n = take n s @ List.drop n buf"
  by (simp add: strncpy_def)

lemma c_string_terminated: "NUL \<notin> set s \<Longrightarrow> c_string (s @ NUL # xs) = Inr s"
  unfolding c_string_def by (subst takeWhile_append2) auto

lemma c_string_open: "NUL \<notin> set s \<Longrightarrow> c_string s = Inl OutOfBounds"
  by (simp add: c_string_def)

lemma c_string_strncpy_short:
  assumes "NUL \<notin> set s" and "length s < n"
  shows "c_string (strncpy buf s n) = Inr s"
proof -
  obtain m where "n - length s = Suc m" using assms(2) by (metis Suc_diff_Suc)
  then show ?thesis using c_string_terminated [OF assms(1)] by (simp add: strncpy_short [OF assms(2)])
qed

text \<open>A name of an object file reaches the loader of the kernel unchanged when it is shorter than the
  buffer of 256 characters (255 in the benchmarks' version). A name of 256 or more characters makes the
  first version read behind the buffer; in the second, from 255 characters on, the last character of the
  buffer is never written, so it reads behind the buffer whenever the stack holds no zero byte there,
  and takes a cut name otherwise.\<close>

theorem loader_names:
  assumes "NUL \<notin> set s" and "length junk = 256"
  shows "(length s < 256 \<longrightarrow> c_string (strncpy junk s 256) = Inr s) \<and>
    (256 \<le> length s \<longrightarrow> c_string (strncpy junk s 256) = Inl OutOfBounds) \<and>
    (length s < 255 \<longrightarrow> c_string (strncpy junk s 255) = Inr s) \<and>
    (255 \<le> length s \<longrightarrow> c_string (strncpy junk s 255) =
       (if junk ! 255 = NUL then Inr (take 255 s) else Inl OutOfBounds))"
proof (intro conjI impI)
  show "length s < 256 \<Longrightarrow> c_string (strncpy junk s 256) = Inr s"
    using c_string_strncpy_short [OF assms(1)] .
  show "length s < 255 \<Longrightarrow> c_string (strncpy junk s 255) = Inr s"
    using c_string_strncpy_short [OF assms(1)] .
  have cut: "NUL \<notin> set (take n s)" for n using assms(1) by (meson in_set_takeD)
  show "256 \<le> length s \<Longrightarrow> c_string (strncpy junk s 256) = Inl OutOfBounds"
    using assms(2) c_string_open [OF cut] by (simp add: strncpy_long)
  have last: "List.drop 255 junk = [junk ! 255]"
    using Cons_nth_drop_Suc [of 255 junk] assms(2) by simp
  show "c_string (strncpy junk s 255) = (if junk ! 255 = NUL then Inr (take 255 s) else Inl OutOfBounds)"
    if "255 \<le> length s"
  proof (cases "junk ! 255 = NUL")
    case True
    then show ?thesis using that c_string_terminated [OF cut, of _ "[]"] by (simp add: strncpy_long last)
  next
    case False
    then have "NUL \<notin> set (take 255 s @ [junk ! 255])" using cut by auto
    then show ?thesis using that False c_string_open by (simp add: strncpy_long last)
  qed
qed

theorem loader_names_witness:
  "c_string (strncpy (replicate 256 CHR ''x'') (replicate 300 CHR ''a'') 256) = Inl OutOfBounds \<and>
   c_string (strncpy (replicate 256 CHR ''x'') ''echo.o'' 255) = Inr ''echo.o''"
  using loader_names [of "replicate 300 CHR ''a''" "replicate 256 CHR ''x''"]
    loader_names [of "''echo.o''" "replicate 256 CHR ''x''"] by (simp add: NUL_def)

section \<open>The maps of the benchmarks\<close>

text \<open>
  The contract of updates: an accepted one sets the value of the key in the map of the descriptor, and
  nothing else; the maps of the benchmarks have room.
\<close>

definition update_law :: "('o, 'p, 'k) bpf_lib \<Rightarrow> ('k \<Rightarrow> int \<Rightarrow> u8 list \<rightharpoonup> u8 list) \<Rightarrow> bool" where
  "update_law lib content \<longleftrightarrow> (\<forall>fd key v k. 0 < fd \<longrightarrow>
     content (snd (update_elem lib fd key v k)) = (content k)(fd := (content k fd)(key \<mapsto> v)))"

lemma fill_hash_map_content:
  assumes "update_law lib content" and "0 < fd"
  shows "content (fill_hash_map lib fd rest n i k) =
    (content k)(fd := (\<lambda>key. if \<exists>j < n. key = store32 (of_nat (i + j)) @ rest then Some (replicate 8 0) else content k fd key))"
proof (induction n arbitrary: i k)
  case 0
  then show ?case by simp
next
  case (Suc n)
  have "(\<exists>j < Suc n. key = store32 (of_nat (i + j)) @ rest) \<longleftrightarrow>
      key = store32 (of_nat i) @ rest \<or> (\<exists>j < n. key = store32 (of_nat (Suc i + j)) @ rest)" for key
    by (simp only: Ex_less_Suc2 add_0_right add_Suc_right add_Suc)
  then show ?case
    using assms unfolding fill_hash_map.simps Suc.IH update_law_def by (auto simp: fun_eq_iff simp del: of_nat_Suc)
qed


lemma store32_key_inj:
  assumes "i < 2 ^ 32" and "j < 2 ^ 32"
  shows "store32 (of_nat i) @ xs = store32 (of_nat j) @ ys \<longleftrightarrow> i = j \<and> xs = ys"
proof
  assume "store32 (of_nat i) @ xs = store32 (of_nat j) @ ys"
  then have "store32 (of_nat i) = store32 (of_nat j)" "xs = ys" by (simp_all add: append_eq_append_conv)
  then show "i = j \<and> xs = ys" using assms by (metis load32_store32 unat_of_nat_u32)
qed simp

text \<open>The loader of the benchmarks enters 128 keys into the map of the hash map benchmark, but only four
  of their eight bytes are set. The program counts all its 32 keys on every packet if the other four
  bytes of the loader's variable happen to be zero; otherwise none of its keys is in the map and it
  gives up at the first one, without changing the map.\<close>

theorem populated_keys:
  assumes law: "update_law lib content" and fd: "0 < find_map_fd lib obj ''hash_map''"
    and other: "find_map_fd lib obj ''map_progs'' \<noteq> find_map_fd lib obj ''hash_map''"
    and empty: "content k (find_map_fd lib obj ''hash_map'') = (\<lambda>_. None)" and "length rest = 4"
  shows "let mp = content (try_populate_maps lib rest obj prog_fd k) (find_map_fd lib obj ''hash_map'') in
    (rest = replicate 4 0 \<longrightarrow> snd (hash_map mp) =
      (\<lambda>key. if \<exists>j < 32. key = keyobj j then Some (incremented (replicate 8 0)) else mp key)) \<and>
    (rest \<noteq> replicate 4 0 \<longrightarrow> snd (hash_map mp) = mp)"
proof -
  let ?h = "find_map_fd lib obj ''hash_map''" and ?p = "find_map_fd lib obj ''map_progs''"
  let ?k = "if ?p > 0 then snd (update_elem lib ?p (store32 0) (store32 (word_of_int prog_fd)) k) else k"
  obtain mp where mp_eq: "content (try_populate_maps lib rest obj prog_fd k) ?h = mp" by simp
  have k: "content ?k ?h = (\<lambda>_. None)" using law other empty by (simp add: update_law_def)
  have mp: "mp key = (if \<exists>j < 128. key = store32 (of_nat j) @ rest then Some (replicate 8 0) else None)" for key
    unfolding mp_eq [symmetric] try_populate_maps_def using fd k fill_hash_map_content [OF law fd, of rest 128 0 ?k]
    by (simp add: Let_def)
  have key: "mp (keyobj i) = (if rest = replicate 4 0 then Some (replicate 8 0) else None)" if "i < 32" for i
  proof -
    have "keyobj i = store32 (of_nat j) @ rest \<longleftrightarrow> i = j \<and> rest = replicate 4 0" if "j < 128" for j
      using that \<open>i < 32\<close> store32_key_inj [of i j] unfolding keyobj_def by auto
    then have "(\<exists>j < 128. keyobj i = store32 (of_nat j) @ rest) \<longleftrightarrow> (\<exists>j < 128. i = j \<and> rest = replicate 4 0)"
      by blast
    then show ?thesis unfolding mp using that by simp
  qed
  show ?thesis unfolding Let_def mp_eq
  proof (intro conjI impI)
    assume r: "rest = replicate 4 0"
    then have "\<forall>j < 32. mp (keyobj j) \<noteq> None" using key by simp
    then have "snd (hash_map mp) = (\<lambda>x. if \<exists>j < 32. x = keyobj j then map_option incremented (mp x) else mp x)"
      using hash_map_counts [of 32 mp] by simp
    then show "snd (hash_map mp) =
        (\<lambda>x. if \<exists>j < 32. x = keyobj j then Some (incremented (replicate 8 0)) else mp x)"
      using key r by (auto simp: fun_eq_iff)
  next
    assume "rest \<noteq> replicate 4 0"
    then have "mp (keyobj 0) = None" using key [of 0] by simp
    then show "snd (hash_map mp) = mp" using hash_map_counts [of 0 mp] by simp
  qed
qed

text \<open>A library over one table of maps, with an interface's program as the other part of its state.\<close>

definition demo_lib :: "(unit, unit, (int \<Rightarrow> u8 list \<rightharpoonup> u8 list) \<times> (u32 \<Rightarrow> u32)) bpf_lib" where
  "demo_lib = \<lparr>load_xattr = (\<lambda>name k. if name = ''prog.o'' then Some ((), 7, k) else None),
     find_program = (\<lambda>obj sec. None), program_fd = (\<lambda>p. case p of None \<Rightarrow> -22 | Some _ \<Rightarrow> 7),
     find_map_fd = (\<lambda>obj name. if name = ''hash_map'' then 5 else -1),
     update_elem = (\<lambda>fd key v (m, l). (0, m(fd := (m fd)(key \<mapsto> v)), l)),
     set_link_fd = (\<lambda>i fd flags (m, l). (0, m, l(i := if fd < 0 then 0 else 42))),
     get_link_id = (\<lambda>i flags (m, l). (0, l i)), prog_info = (\<lambda>fd k. if fd < 0 then (-9, 0) else (0, 42))\<rparr>"

lemma demo_lib_update: "update_law demo_lib fst"
  by (auto simp: update_law_def demo_lib_def)

theorem populated_keys_witness:
  "snd (hash_map (fst (try_populate_maps demo_lib (replicate 4 0) () 7 (\<lambda>_ _. None, \<lambda>_. 0)) 5)) (keyobj 3) =
    Some (incremented (replicate 8 0))"
proof -
  have h: "find_map_fd demo_lib () ''hash_map'' = 5" "find_map_fd demo_lib () ''map_progs'' = -1" by (simp_all add: demo_lib_def)
  have "\<exists>j < 32. keyobj 3 = keyobj j" by (intro exI [of _ 3]) simp
  then show ?thesis
    using populated_keys [OF demo_lib_update, of "()" "(\<lambda>_ _. None, \<lambda>_. 0)" "replicate 4 0" 7] by (simp add: h Let_def)
qed

section \<open>Leaving\<close>

text \<open>
  The contract of the interface's program: \<open>link k i\<close> is the number of the program on interface \<open>i\<close>, 0
  for none. Attaching takes effect or fails, a negative descriptor detaches, and the program of a
  descriptor keeps its number, which is not 0.
\<close>

definition link_law :: "('o, 'p, 'k) bpf_lib \<Rightarrow> ('k \<Rightarrow> u32 \<Rightarrow> u32) \<Rightarrow> (int \<Rightarrow> u32) \<Rightarrow> bool" where
  "link_law lib link num \<longleftrightarrow>
     (\<forall>i fd flags k ret k'. set_link_fd lib i fd flags k = (ret, k') \<longrightarrow>
        link k' = (if ret < 0 then link k else (link k)(i := if fd < 0 then 0 else num fd))) \<and>
     (\<forall>i flags k cur. get_link_id lib i flags k = (0, cur) \<longrightarrow> cur = link k i) \<and>
     (\<forall>fd k pid. prog_info lib fd k = (0, pid) \<longrightarrow> pid = num fd \<and> pid \<noteq> 0)"

lemma link_lawD:
  assumes "link_law lib link num"
  shows "set_link_fd lib i fd flags k = (ret, k') \<Longrightarrow>
      link k' = (if ret < 0 then link k else (link k)(i := if fd < 0 then 0 else num fd))"
    and "get_link_id lib i flags k = (0, cur) \<Longrightarrow> cur = link k i"
    and "prog_info lib fd k = (0, pid) \<Longrightarrow> pid = num fd \<and> pid \<noteq> 0"
  using assms unfolding link_law_def by blast+

text \<open>The number is known exactly from the question on: it is 0 before, and afterwards the program's.\<close>

definition number_known :: "(int \<Rightarrow> u32) \<Rightarrow> 'k loader \<Rightarrow> bool" where
  "number_known num s \<longleftrightarrow> (ld_prog_id s = 0 \<or> ld_prog_id s = num (ld_prog_fd s)) \<and>
     (at s \<in> {Attaching, Asking} \<longrightarrow> ld_prog_id s = 0) \<and>
     (at s = Waiting \<longrightarrow> ld_prog_id s = num (ld_prog_fd s) \<and> ld_prog_id s \<noteq> 0)"

lemma number_known_step:
  assumes law: "link_law lib link num" and "loader_step lib s t" and inv: "number_known num s"
  shows "number_known num t"
  using assms(2)
proof cases
  case ask
  show ?thesis
  proof (cases "prog_info lib (ld_prog_fd s) (kern s)")
    case (Pair err pid)
    show ?thesis
    proof (cases "err = 0")
      case True
      then have "pid = num (ld_prog_fd s)" "num (ld_prog_fd s) \<noteq> 0" using link_lawD(3) [OF law] Pair by blast+
      then show ?thesis using True Pair ask(1) by (simp add: loader_ask_def number_known_def)
    next
      case False
      then show ?thesis using Pair inv ask by (simp add: loader_ask_def number_known_def)
    qed
  qed
qed (use inv in \<open>auto simp: number_known_def loader_attach_def int_exit_look_def int_exit_act_def split: prod.splits\<close>)

interpretation loader_steps: step_invariant "loader_step lib" "\<lambda>s. link_law lib link num \<longrightarrow> number_known num s" for lib link num
  by unfold_locales (auto intro: number_known_step)

lemma loader_fields_step:
  "loader_step lib s t \<Longrightarrow> ld_ifindex t = ld_ifindex s \<and> ld_prog_fd t = ld_prog_fd s"
  by (cases rule: loader_step.cases, assumption)
    (auto simp: loader_attach_def loader_ask_def int_exit_look_def int_exit_act_def split: prod.splits)

lemma loader_fields_run:
  "(loader_step lib)\<^sup>*\<^sup>* s t \<Longrightarrow> ld_ifindex t = ld_ifindex s \<and> ld_prog_fd t = ld_prog_fd s"
  by (induction rule: rtranclp_induct) (auto dest: loader_fields_step)

lemma loader_exit_links:
  assumes law: "link_law lib link num"
    and got: "get_link_id lib (ld_ifindex s) (ld_xdp_flags s) (kern s) = (0, cur)"
    and "\<forall>k. 0 \<le> fst (set_link_fd lib (ld_ifindex s) (-1) (ld_xdp_flags s) k)"
  shows "at (loader_exit lib s) = Stopped 0 \<and> link (kern (loader_exit lib s)) =
    (if link (kern s) (ld_ifindex s) = ld_prog_id s then (link (kern s))(ld_ifindex s := 0) else link (kern s))"
proof -
  have cur: "cur = link (kern s) (ld_ifindex s)" using link_lawD(2) [OF law got] .
  obtain ret k where r: "set_link_fd lib (ld_ifindex s) (-1) (ld_xdp_flags s) (kern s) = (ret, k)" by fastforce
  then have "link k = (link (kern s))(ld_ifindex s := 0)"
    using link_lawD(1) [OF law r] assms(3) [rule_format, of "kern s"] by auto
  then show ?thesis using got cur r by (auto simp: loader_exit_def int_exit_look_def int_exit_act_def Let_def)
qed

text \<open>C38: whatever other processes do to the interfaces before, a signal to a waiting loader, whose handler
  then runs undisturbed, removes exactly the loader's own program: afterwards its program is not on the
  interface, and a program that somebody else put there stays, as do all other interfaces. A signal
  between attaching and asking for the program's number changes nothing, so the program stays attached
  although the loader ends with status 0.\<close>

theorem signal_detaches_own:
  assumes law: "link_law lib link num" and run: "(loader_step lib)\<^sup>*\<^sup>* (loader_start (i, flags, fd, k)) s"
    and got: "fst (get_link_id lib i (ld_xdp_flags s) (kern s)) = 0"
    and det: "\<forall>k. 0 \<le> fst (set_link_fd lib i (-1) (ld_xdp_flags s) k)"
  shows "let s' = loader_exit lib s in
    at s' = Stopped 0 \<and> (\<forall>j. j \<noteq> i \<longrightarrow> link (kern s') j = link (kern s) j) \<and>
    (at s = Waiting \<longrightarrow> link (kern s') i = (if link (kern s) i = num fd then 0 else link (kern s) i)) \<and>
    (at s = Asking \<longrightarrow> link (kern s') = link (kern s))"
proof -
  have f: "ld_ifindex s = i" "ld_prog_fd s = fd" using loader_fields_run [OF run] by (simp_all add: loader_start_def)
  have "number_known num (loader_start (i, flags, fd, k))" by (simp add: loader_start_def number_known_def)
  then have n: "number_known num s" using loader_steps.reached [OF run, of link num] law by blast
  obtain cur where "get_link_id lib (ld_ifindex s) (ld_xdp_flags s) (kern s) = (0, cur)"
    using got f by (metis prod.collapse)
  from loader_exit_links [OF law this] det f have
    "at (loader_exit lib s) = Stopped 0 \<and> link (kern (loader_exit lib s)) =
      (if link (kern s) i = ld_prog_id s then (link (kern s))(i := 0) else link (kern s))" by simp
  then show ?thesis using n f unfolding number_known_def Let_def by (auto simp: fun_eq_iff)
qed

lemma demo_lib_link: "link_law demo_lib snd (\<lambda>_. 42)"
  by (auto simp: link_law_def demo_lib_def)

theorem signal_detaches_own_witness:
  "snd (kern (loader_exit demo_lib (loader_ask demo_lib (loader_attach demo_lib (loader_start (2, 5, 7, (\<lambda>_ _. None, \<lambda>_. 0))))))) 2 = 0"
proof -
  let ?s = "loader_start (2, 5, 7, (\<lambda>_ _. None, \<lambda>_. 0))"
  let ?a = "loader_attach demo_lib ?s"
  have a: "at ?s = Attaching" "at ?a = Asking" "at (loader_ask demo_lib ?a) = Waiting"
    by (simp_all add: loader_start_def loader_attach_def loader_ask_def demo_lib_def)
  have run: "(loader_step demo_lib)\<^sup>*\<^sup>* ?s (loader_ask demo_lib ?a)"
    using loader_step.attach [OF a(1), of demo_lib] loader_step.ask [OF a(2), of demo_lib] by (meson converse_rtranclp_into_rtranclp rtranclp.rtrancl_refl)
  from signal_detaches_own [OF demo_lib_link run] a(3) show ?thesis
    by (simp add: Let_def demo_lib_def loader_start_def loader_attach_def loader_ask_def)
qed

text \<open>A section that the object does not have is not noticed: the descriptor of no program is negative,
  which the test for 0 lets pass. Attaching it removes the program that another process has on the
  interface, and the loader ends with an error.\<close>

theorem missing_section_detaches:
  assumes law: "link_law lib link num"
    and sec: "s \<noteq> []" "s ! 0 \<noteq> CHR ''-''" "NUL \<notin> set s" "length s < lim"
    and args: "length args = 2" "lookup (args ! 0) = i" "i \<noteq> 0" "NUL \<notin> set (args ! 1)" "length (args ! 1) < lim"
    and load: "load_xattr lib (args ! 1) k = Some (obj, fd0, k1)" "find_program lib obj s = None"
    and none: "program_fd lib None < 0"
    and set: "set_link_fd lib i (program_fd lib None) 5 (populate obj (program_fd lib None) k1) = (0, k2)"
    and info: "prog_info lib (program_fd lib None) k2 = (err, pid)" "err \<noteq> 0"
  shows "loader_prepare lim populate lib lookup [SectionName s] args junk_sec junk_file k =
      Inr (i, 5, program_fd lib None, populate obj (program_fd lib None) k1) \<and>
    (let s' = loader_ask lib (loader_attach lib (loader_start
          (i, 5, program_fd lib None, populate obj (program_fd lib None) k1))) in
     at s' = Stopped err \<and> link (kern s') i = 0)"
proof -
  let ?buf = "''-'' @ [NUL] @ List.drop 2 junk_sec"
  have c: "c_string (strncpy b s lim) = Inr s" "c_string (strncpy junk_file (args ! 1) lim) = Inr (args ! 1)" for b
    using c_string_strncpy_short sec(3,4) args(4,5) by blast+
  have first: "strncpy b s lim ! 0 = s ! 0" for b using sec(1,4) by (simp add: strncpy_short nth_append)
  have flags: "(IF_NOEXIST_FLAG AND SKB_MODE_FLAG :: u32) = 0" "(IF_NOEXIST_FLAG OR DRV_MODE_FLAG :: u32) = 5"
    by (simp_all add: IF_NOEXIST_FLAG_def SKB_MODE_FLAG_def DRV_MODE_FLAG_def)
  have prep: "loader_prepare lim populate lib lookup [SectionName s] args junk_sec junk_file k =
      Inr (i, 5, program_fd lib None, populate obj (program_fd lib None) k1)"
    using c first sec(2) args load none by (simp add: loader_prepare_def flags Let_def)
  have "link k2 i = 0" using link_lawD(1) [OF law set] none by simp
  then show ?thesis using prep set info
    by (simp add: loader_start_def loader_attach_def loader_ask_def Let_def)
qed

theorem missing_section_detaches_witness:
  "at (loader_ask demo_lib (loader_attach demo_lib (loader_start (2, 5, -22, (\<lambda>_ _. None, \<lambda>_. 42))))) = Stopped (-9) \<and>
   snd (kern (loader_ask demo_lib (loader_attach demo_lib (loader_start (2, 5, -22, (\<lambda>_ _. None, \<lambda>_. 42)))))) 2 = 0"
proof -
  have "program_fd demo_lib None = -22" by (simp add: demo_lib_def)
  moreover have "load_xattr demo_lib ''prog.o'' k = Some ((), 7, k)" "find_program demo_lib () s = None"
    "set_link_fd demo_lib 2 (-22) 5 (m, l) = (0, m, l(2 := 0))" "prog_info demo_lib (-22) k = (-9, 0)" for k s m l
    by (simp_all add: demo_lib_def)
  moreover have "length [''eth0'', ''prog.o''] = 2" "NUL \<notin> set ''xdp''" "NUL \<notin> set ''prog.o''"
    by (simp_all add: NUL_def)
  ultimately show ?thesis
    using missing_section_detaches [OF demo_lib_link, where s = "''xdp''" and lim = 256
        and args = "[''eth0'', ''prog.o'']" and lookup = "\<lambda>_. 2" and i = 2 and k = "(\<lambda>_ _. None, \<lambda>_. 42)"
        and obj = "()" and ?fd0.0 = 7 and ?k1.0 = "(\<lambda>_ _. None, \<lambda>_. 42)" and populate = "\<lambda>_ _ k. k"
        and ?k2.0 = "(\<lambda>_ _. None, (\<lambda>_. 42)(2 := 0))" and err = "-9" and pid = 0]
    by (auto simp: Let_def)
qed

end
