(* ===== verification/Logging.thy ===== *)
theory Logging
  imports Config
begin
text \<open>
  The messages (\<open>src/log.c\<close>, \<open>src/log.h\<close>). The arguments of \<open>printf\<close> are already formatted: \<open>txt\<close> is
  the text that \<open>vsnprintf\<close> would produce without its limit. The log is the stream that it
  writes to and what has been written, with the descriptor of each write.
\<close>

section \<open>Writing a message\<close>

definition MAX_LOG_MESSAGE_SIZE :: nat where "MAX_LOG_MESSAGE_SIZE = 1023"

datatype log_level = LVL_INFO | LVL_DEBUG | LVL_ERROR

record log =
  output_log_fd :: int
  written :: "(int \<times> string) list"

definition log_start :: log where "log_start = \<lparr>output_log_fd = 1, written = []\<rparr>"

definition set_output_log_file :: "int \<Rightarrow> log \<Rightarrow> log" where
  "set_output_log_file fd l = l\<lparr>output_log_fd := fd\<rparr>"

text \<open>The conversion \<open>%d\<close> of a line number.\<close>

fun decimal :: "nat \<Rightarrow> string" where
  "decimal n = (if n < 10 then [] else decimal (n div 10)) @ [char_of (48 + n mod 10)]"

declare decimal.simps [simp del]

definition dprintf :: "string \<Rightarrow> log \<Rightarrow> log" where
  "dprintf s l = l\<lparr>written := written l @ [(output_log_fd l, s)]\<rparr>"

text \<open>At most one character less than the size is kept, and \<open>%s\<close> stops at a zero byte.\<close>

definition log_message :: "string \<Rightarrow> string" where
  "log_message txt = takeWhile (\<lambda>c. c \<noteq> CHR 0x00) (take (MAX_LOG_MESSAGE_SIZE - 1) txt)"

definition located :: "string \<Rightarrow> string \<Rightarrow> string \<Rightarrow> nat \<Rightarrow> string \<Rightarrow> string" where
  "located str_lvl func fname line message =
     ''['' @ str_lvl @ ''] '' @ func @ ''('' @ fname @ '':'' @ decimal line @ ''): '' @ message"

definition colour :: "string \<Rightarrow> string" where "colour code = CHR 0x1B # ''['' @ code @ ''m''"

fun msg :: "log_level \<Rightarrow> string \<Rightarrow> string \<Rightarrow> nat \<Rightarrow> string \<Rightarrow> log \<Rightarrow> log" where
  "msg LVL_INFO func fname line txt l = dprintf (log_message txt) l"
| "msg LVL_DEBUG func fname line txt l =
     dprintf (colour ''0'') (dprintf (located ''DEBUG'' func fname line (log_message txt)) (dprintf (colour ''0;94;49'') l))"
| "msg LVL_ERROR func fname line txt l =
     dprintf (colour ''0'') (dprintf (located ''ERROR'' func fname line (log_message txt)) (dprintf (colour ''0;31;49'') l))"

text \<open>What a reader of the stream \<open>fd\<close> sees.\<close>

definition stream :: "int \<Rightarrow> log \<Rightarrow> string" where
  "stream fd l = concat (map snd (filter (\<lambda>w. fst w = fd) (written l)))"

section \<open>What is written\<close>

lemma stream_dprintf: "stream fd (dprintf s l) = stream fd l @ (if output_log_fd l = fd then s else [])"
  by (simp add: stream_def dprintf_def)

lemma stream_none: "stream fd \<lparr>output_log_fd = n, written = []\<rparr> = []"
  by (simp add: stream_def)

lemma fd_dprintf [simp]: "output_log_fd (dprintf s l) = output_log_fd l"
  by (simp add: dprintf_def)

lemma fd_msg [simp]: "output_log_fd (msg lv func fname line txt l) = output_log_fd l"
  by (cases lv) simp_all

lemma log_message_length: "length (log_message txt) \<le> 1022"
  unfolding log_message_def MAX_LOG_MESSAGE_SIZE_def by (rule order_trans [OF length_takeWhile_le]) simp

lemma log_message_short: "length txt \<le> 1022 \<Longrightarrow> CHR 0x00 \<notin> set txt \<Longrightarrow> log_message txt = txt"
  by (simp add: log_message_def MAX_LOG_MESSAGE_SIZE_def takeWhile_eq_all_conv) (metis)

text \<open>The printed line number is the line number.\<close>

lemma digit_val_digit: "d < 10 \<Longrightarrow> digit_val (char_of (48 + d)) = Some (int d)" for d :: nat
proof -
  assume d: "d < 10"
  have "(of_char (char_of (48 + d) :: char) :: int) = int (of_char (char_of (48 + d) :: char))"
    by (simp only: of_nat_of_char)
  also have "\<dots> = 48 + int d" using d by (simp only: of_char_of) simp
  finally show ?thesis using d by (simp add: digit_val_def Let_def)
qed

lemma digits_val_append:
  "\<forall>c \<in> set s. digit_val c \<noteq> None \<Longrightarrow> digits_val acc (s @ t) = digits_val (digits_val acc s) t"
  by (induction s arbitrary: acc) (auto split: option.splits)

lemma decimal_digits: "\<forall>c \<in> set (decimal n). digit_val c \<noteq> None"
proof (induction n rule: decimal.induct)
  case (1 n)
  then show ?case by (subst decimal.simps) (auto simp: digit_val_digit)
qed

lemma digits_val_decimal: "digits_val 0 (decimal n) = int n"
proof (induction n rule: decimal.induct)
  case (1 n)
  show ?case
  proof (cases "n < 10")
    case True
    then show ?thesis by (subst decimal.simps) (simp add: digit_val_digit)
  next
    case False
    have "digits_val 0 (decimal n) = 10 * int (n div 10) + int (n mod 10)"
      using False 1 digits_val_append [OF decimal_digits] by (subst decimal.simps) (simp add: digit_val_digit)
    then show ?thesis by (simp flip: of_nat_mult of_nat_add of_nat_div of_nat_mod add: zdiv_int zmod_int)
  qed
qed

lemma decimal_int_text: "int_text (decimal n) = int n"
proof -
  obtain c r where d: "decimal n = c # r"
    by (metis append_is_Nil_conv decimal.simps list.distinct(1) neq_Nil_conv)
  then have "digit_val c \<noteq> None" using decimal_digits [of n] by simp
  then have c: "48 \<le> (of_char c :: int)" by (auto simp: digit_val_def Let_def split: if_splits)
  then have "c \<noteq> CHR ''-''" "c \<noteq> CHR ''+''" by auto
  then show ?thesis using c digits_val_decimal [of n] unfolding int_text_def d by simp
qed

text \<open>A message reaches the stream that was set last, on top of what was written before, and no other
  stream; messages of level INFO are their text and nothing else, the others are one coloured line that
  names level, function, file and line, and the printed number reads back as the line number. The text
  is cut after 1022 characters and its characters are never taken for conversions.\<close>

theorem message_written:
  assumes "CHR 0x00 \<notin> set txt"
  shows "\<exists>before behind. stream fd (msg lv func fname line txt l) = stream fd l @
      (if fd = output_log_fd l then before @ take 1022 txt @ behind else []) \<and>
    (lv = LVL_INFO \<longrightarrow> before = [] \<and> behind = []) \<and>
    (lv \<noteq> LVL_INFO \<longrightarrow> behind = colour ''0'' \<and> (\<exists>code str_lvl. before = colour code @
       ''['' @ str_lvl @ ''] '' @ func @ ''('' @ fname @ '':'' @ decimal line @ ''): '')) \<and>
    int_text (decimal line) = int line"
proof -
  have m: "log_message txt = take 1022 txt"
    using assms by (auto simp: log_message_def MAX_LOG_MESSAGE_SIZE_def takeWhile_eq_all_conv dest: in_set_takeD)
  show ?thesis
    by (cases lv) (auto simp: stream_dprintf m located_def decimal_int_text)
qed

theorem message_written_witness:
  "stream 4 (msg LVL_INFO ''main'' ''servant.c'' 120 ''ready'' (set_output_log_file 4 log_start)) = ''ready''"
  using message_written [of "''ready''" 4 LVL_INFO "''main''" "''servant.c''" 120 "set_output_log_file 4 log_start"]
  by (auto simp: set_output_log_file_def log_start_def stream_none)

text \<open>The test of the messages expects the prefix on INFO messages too, and no colours; both of its
  assertions fail.\<close>

definition log_test :: log where
  "log_test = msg LVL_DEBUG ''ctest_SUITE_LOG_test1_run'' ''test_log.c'' 30 (''2 * 2 = 4'' @ [CHR 0x0A])
     (msg LVL_INFO ''ctest_SUITE_LOG_test1_run'' ''test_log.c'' 29 (''This is a test'' @ [CHR 0x0A])
       (set_output_log_file 3 log_start))"

theorem log_test_fails:
  "take 14 (stream 3 log_test) = ''This is a test'' \<and> stream 3 log_test ! 15 = CHR 0x1B"
  by (simp add: log_test_def set_output_log_file_def log_start_def stream_dprintf log_message_short stream_none colour_def)

end
