(* ===== verification/Statistics.thy ===== *)
theory Statistics
  imports Servant_Prelude
begin
text \<open>
  The measurements of the runtime: the reports of a service thread (\<open>src/service_stats.c\<close>) and the
  histogram of durations (\<open>src/duration_hist.h\<close>), and the tool that reads the counter of the benchmarks
  (\<open>examples/benchmarks/report_tput.c\<close>). Their output is the list of the printed numbers.
\<close>

section \<open>Reports of the service thread\<close>

text \<open>
  What one turn of the loop meets: the flag at its head, the two counters before and after the sleep
  and when they are printed, and the results of \<open>nanosleep\<close>, which is repeated until it gives 0.
\<close>

record ring_stats =
  rx_npkts :: u64
  tx_npkts :: u64

record stats_turn =
  stopping :: int
  stats_before :: ring_stats
  sleeps :: "int list"
  stats_after :: ring_stats
  stats_shown :: ring_stats

fun sleep_done :: "int list \<Rightarrow> bool" where
  "sleep_done [] = False"
| "sleep_done (ret # rets) = (ret = 0 \<or> sleep_done rets)"

definition report_lines :: "stats_turn \<Rightarrow> u64 \<times> u64 \<times> u64 \<times> u64" where
  "report_lines t = (let duration = 1 in
     ((rx_npkts (stats_after t) - rx_npkts (stats_before t)) div duration, rx_npkts (stats_shown t),
      (tx_npkts (stats_after t) - tx_npkts (stats_before t)) div duration, tx_npkts (stats_shown t)))"

text \<open>The lines of all turns, and whether the thread has returned.\<close>

fun stats_report :: "stats_turn list \<Rightarrow> (u64 \<times> u64 \<times> u64 \<times> u64) list \<times> bool" where
  "stats_report [] = ([], False)"
| "stats_report (t # ts) =
     (if stopping t \<noteq> 0 then ([], True)
      else if sleep_done (sleeps t) then case stats_report ts of (out, fin) \<Rightarrow> (report_lines t # out, fin)
      else ([], False))"

text \<open>When no packet is missed between two turns, the reported rates add up to the packets of the time.\<close>

fun chained :: "ring_stats \<Rightarrow> stats_turn list \<Rightarrow> bool" where
  "chained st [] = True"
| "chained st (t # ts) = (stats_before t = st \<and> chained (stats_after t) ts)"

lemma rates_add_up:
  assumes "chained st ts" and "\<forall>t \<in> set ts. stopping t = 0 \<and> sleep_done (sleeps t)"
  shows "length (fst (stats_report ts)) = length ts \<and>
    rx_npkts st + sum_list (map fst (fst (stats_report ts))) = rx_npkts (last (st # map stats_after ts))"
  using assms
proof (induction ts arbitrary: st)
  case (Cons t ts)
  then have "length (fst (stats_report ts)) = length ts"
    "rx_npkts (stats_after t) + sum_list (map fst (fst (stats_report ts))) = rx_npkts (last (stats_after t # map stats_after ts))"
    using Cons.IH [of "stats_after t"] by simp_all
  then show ?case using Cons.prems
    by (auto simp: report_lines_def Let_def algebra_simps split: prod.splits)
qed simp

lemma report_stops: "stopping t \<noteq> 0 \<Longrightarrow> \<forall>u \<in> set us. stopping u = 0 \<and> sleep_done (sleeps u) \<Longrightarrow>
  stats_report (us @ t # ts) = (map report_lines us, True)"
  by (induction us) simp_all

section \<open>The histogram\<close>

definition HIST_MAX :: nat where "HIST_MAX = 4096"

record histogram =
  hist :: "u64 list"
  total_entries :: u64

definition hist_start :: histogram where
  "hist_start = \<lparr>hist = replicate HIST_MAX 0, total_entries = 0\<rparr>"

text \<open>
  \<open>quot\<close> is the division by the grain of 10 in single precision, converted to 32 bits. The comparison
  of the unsigned difference with 0 is as in the code.
\<close>

definition calc_latency_from_ts :: "(u64 \<Rightarrow> u32) \<Rightarrow> u64 \<Rightarrow> u64 \<Rightarrow> histogram \<Rightarrow> (int \<times> histogram) c_result" where
  "calc_latency_from_ts quot send_ts recv_ts h =
     (let delta = recv_ts - send_ts in
      if delta < 0 then Inr (-1, h)
      else let index = quot delta; index = (if unat index > HIST_MAX then of_nat HIST_MAX else index) in
        c_check (unat index < length (hist h)) OutOfBounds
          (Inr (0, h\<lparr>hist := (hist h)[unat index := hist h ! unat index + 1], total_entries := total_entries h + 1\<rparr>)))"

text \<open>The inner loop of \<open>print_latency_result\<close>, and the buckets it finds for the four shares.\<close>

fun bucket_loop :: "u64 \<Rightarrow> u64 list \<Rightarrow> u64 \<Rightarrow> nat \<Rightarrow> nat" where
  "bucket_loop target [] counter j = j"
| "bucket_loop target (b # bs) counter j =
     (let counter = counter + b in if counter \<ge> target then j else bucket_loop target bs counter (j + 1))"

definition print_latency_result :: "(u64 \<Rightarrow> u64) list \<Rightarrow> histogram \<Rightarrow> nat list" where
  "print_latency_result shares h = map (\<lambda>share. bucket_loop (share (total_entries h)) (hist h) 0 0) shares"

text \<open>A run of measured durations.\<close>

fun record_all :: "(u64 \<Rightarrow> u32) \<Rightarrow> (u64 \<times> u64) list \<Rightarrow> histogram \<Rightarrow> histogram c_result" where
  "record_all quot [] h = Inr h"
| "record_all quot ((send_ts, recv_ts) # ts) h =
     c_bind (calc_latency_from_ts quot send_ts recv_ts h) (\<lambda>(_, h). record_all quot ts h)"

text \<open>The durations of bucket \<open>i\<close>, and those below bucket \<open>j\<close>.\<close>

definition in_bucket :: "(u64 \<Rightarrow> u32) \<Rightarrow> (u64 \<times> u64) list \<Rightarrow> nat \<Rightarrow> nat" where
  "in_bucket quot ts i = length (filter (\<lambda>(a, b). unat (quot (b - a)) = i) ts)"

definition below_bucket :: "(u64 \<Rightarrow> u32) \<Rightarrow> (u64 \<times> u64) list \<Rightarrow> nat \<Rightarrow> nat" where
  "below_bucket quot ts j = length (filter (\<lambda>(a, b). unat (quot (b - a)) < j) ts)"

lemma below_bucket_Suc: "below_bucket quot ts (Suc j) = below_bucket quot ts j + in_bucket quot ts j"
  by (induction ts) (auto simp: below_bucket_def in_bucket_def)

lemma below_bucket_0 [simp]: "below_bucket quot ts 0 = 0"
  by (simp add: below_bucket_def)

lemma below_bucket_length: "below_bucket quot ts j \<le> length ts"
  by (simp add: below_bucket_def)

lemma calc_latency_ok:
  assumes "length (hist h) = HIST_MAX" and "unat (quot (b - a)) < HIST_MAX"
  shows "calc_latency_from_ts quot a b h = Inr (0, h\<lparr>hist := (hist h)[unat (quot (b - a)) := hist h ! unat (quot (b - a)) + 1],
    total_entries := total_entries h + 1\<rparr>)"
  using assms by (simp add: calc_latency_from_ts_def Let_def)

lemma record_all_result:
  assumes "\<forall>(a, b) \<in> set ts. unat (quot (b - a)) < HIST_MAX" and "length (hist h) = HIST_MAX"
  shows "record_all quot ts h = Inr \<lparr>hist = map (\<lambda>i. hist h ! i + of_nat (in_bucket quot ts i)) [0..<HIST_MAX],
    total_entries = total_entries h + of_nat (length ts)\<rparr>"
  using assms
proof (induction ts arbitrary: h)
  case Nil
  then have "map (\<lambda>i. hist h ! i) [0..<HIST_MAX] = hist h" by (metis map_nth)
  then show ?case by (simp add: in_bucket_def)
next
  case (Cons t ts)
  obtain a b where t: "t = (a, b)" by fastforce
  let ?i = "unat (quot (b - a))" and ?h = "h\<lparr>hist := (hist h)[unat (quot (b - a)) := hist h ! unat (quot (b - a)) + 1],
    total_entries := total_entries h + 1\<rparr>"
  have i: "?i < HIST_MAX" using Cons.prems(1) by (simp add: t)
  have "record_all quot (t # ts) h = record_all quot ts ?h"
    using calc_latency_ok [of h quot b a] i Cons.prems(2) by (simp add: t)
  also have "\<dots> = Inr \<lparr>hist = map (\<lambda>i. hist ?h ! i + of_nat (in_bucket quot ts i)) [0..<HIST_MAX],
      total_entries = total_entries ?h + of_nat (length ts)\<rparr>"
    using Cons.prems by (intro Cons.IH) simp_all
  finally show ?case using i Cons.prems(2)
    by (simp add: t in_bucket_def nth_list_update algebra_simps)
qed
lemma bucket_loop_counts:
  assumes "j \<le> n" and "\<forall>i. C (Suc i) = C i + c i" and "C n < 2 ^ 64" and "unat counter = C j"
  shows "let r = bucket_loop target (map (\<lambda>i. of_nat (c i)) [j..<n]) counter j in
    j \<le> r \<and> r \<le> n \<and> (\<forall>k. j \<le> k \<longrightarrow> k < r \<longrightarrow> C (Suc k) < unat target) \<and> (r < n \<longrightarrow> unat target \<le> C (Suc r))"
  using assms(1,4)
proof (induction "n - j" arbitrary: j counter)
  case 0
  then show ?case by simp
next
  case (Suc m)
  then have j: "j < n" by simp
  have mono: "C a \<le> C b" if "a \<le> b" for a b using that assms(2) by (induction rule: dec_induct) simp_all
  have small: "C j + c j < 2 ^ 64" using assms(2,3) mono [of "Suc j" n] j by simp
  let ?c = "counter + of_nat (c j)"
  have c: "unat ?c = C (Suc j)"
    using Suc.prems(2) small assms(2) by (simp add: unat_word_ariths unat_of_nat)
  have split: "[j..<n] = j # [Suc j..<n]" using j by (rule upt_conv_Cons)
  show ?case
  proof (cases "?c \<ge> target")
    case True
    then have "unat target \<le> C (Suc j)" by (simp add: word_le_nat_alt c)
    then show ?thesis using True j by (simp add: split)
  next
    case False
    then have less: "C (Suc j) < unat target" by (simp add: word_le_nat_alt c)
    let ?r = "bucket_loop target (map (\<lambda>i. of_nat (c i)) [Suc j..<n]) ?c (Suc j)"
    have "Suc j \<le> ?r \<and> ?r \<le> n \<and> (\<forall>k. Suc j \<le> k \<longrightarrow> k < ?r \<longrightarrow> C (Suc k) < unat target) \<and> (?r < n \<longrightarrow> unat target \<le> C (Suc ?r))"
      using Suc.hyps(1) [of "Suc j" ?c] Suc.hyps(2) j c by (simp add: Let_def)
    moreover have "bucket_loop target (map (\<lambda>i. of_nat (c i)) [j..<n]) counter j = ?r" using False by (simp add: split)
    ultimately show ?thesis using less by (simp add: Let_def) (metis le_antisym not_less_eq_eq)
  qed
qed

text \<open>The histogram counts every duration below the last bucket exactly once, and each percentile it
  reports is the first bucket up to which at least the target number of the recorded durations lie.\<close>

theorem hist_percentile:
  assumes "\<forall>(a, b) \<in> set ts. unat (quot (b - a)) < HIST_MAX" and "length ts < 2 ^ 64"
    and "unat (share (of_nat (length ts))) \<le> length ts"
  shows "\<exists>h j. record_all quot ts hist_start = Inr h \<and> unat (total_entries h) = length ts \<and>
    (\<forall>i < HIST_MAX. unat (hist h ! i) = in_bucket quot ts i) \<and>
    print_latency_result [share] h = [j] \<and> j < HIST_MAX \<and>
    unat (share (of_nat (length ts))) \<le> below_bucket quot ts (Suc j) \<and>
    (\<forall>k < j. below_bucket quot ts (Suc k) < unat (share (of_nat (length ts))))"
proof -
  let ?C = "below_bucket quot ts" and ?c = "in_bucket quot ts" and ?target = "share (of_nat (length ts))"
  let ?h = "\<lparr>hist = map (\<lambda>i. of_nat (?c i)) [0..<HIST_MAX], total_entries = of_nat (length ts)\<rparr>"
  have "record_all quot ts hist_start =
      Inr \<lparr>hist = map (\<lambda>i. hist hist_start ! i + of_nat (?c i)) [0..<HIST_MAX],
        total_entries = total_entries hist_start + of_nat (length ts)\<rparr>"
    using assms(1) by (rule record_all_result) (simp add: hist_start_def)
  moreover have "map (\<lambda>i. hist hist_start ! i + of_nat (?c i)) [0..<HIST_MAX] = map (\<lambda>i. of_nat (?c i)) [0..<HIST_MAX]"
    by (rule map_cong) (simp_all add: hist_start_def)
  ultimately have rec: "record_all quot ts hist_start = Inr ?h" by (simp add: hist_start_def)
  have len: "unat (of_nat (?c i) :: u64) = ?c i" for i
    using assms(2) order_le_less_trans [of "?c i" "length ts"] by (simp add: in_bucket_def unat_of_nat)
  have all: "?C HIST_MAX = length ts"
    using assms(1) unfolding below_bucket_def by (metis (no_types, lifting) filter_True case_prod_beta)
  then have big: "?C HIST_MAX < 2 ^ 64" using assms(2) by simp
  obtain j where j: "bucket_loop ?target (map (\<lambda>i. of_nat (?c i)) [0..<HIST_MAX]) 0 0 = j" by simp
  have b: "j \<le> HIST_MAX" "\<forall>k < j. ?C (Suc k) < unat ?target" "j < HIST_MAX \<longrightarrow> unat ?target \<le> ?C (Suc j)"
    using bucket_loop_counts [of 0 HIST_MAX ?C ?c 0 ?target] big below_bucket_Suc j by (simp_all add: Let_def)
  have "j \<noteq> HIST_MAX"
  proof
    assume "j = HIST_MAX"
    moreover have last: "Suc (HIST_MAX - 1) = HIST_MAX" "HIST_MAX - 1 < HIST_MAX" by (simp_all add: HIST_MAX_def)
    ultimately have "?C HIST_MAX < unat ?target" using b(2) by metis
    then show False using all assms(3) by simp
  qed
  then have "j < HIST_MAX" using b(1) by simp
  then show ?thesis using rec b assms(2) len j
    by (intro exI [of _ ?h] exI [of _ j])
      (simp add: print_latency_result_def unat_of_nat)
qed

theorem hist_percentile_witness:
  "\<exists>h j. record_all (\<lambda>d. ucast (d div 10)) [(5, 20), (7, 8), (100, 200)] hist_start = Inr h \<and>
    print_latency_result [\<lambda>n. n div 2 + 1] h = [j] \<and> 2 \<le> below_bucket (\<lambda>d. ucast (d div 10)) [(5, 20), (7, 8), (100, 200)] (Suc j)"
  using hist_percentile [of "[(5, 20), (7, 8), (100, 200)]" "\<lambda>d. ucast (d div 10)" "\<lambda>n. n div 2 + 1"]
  by (auto simp: HIST_MAX_def)

text \<open>A duration in the last bucket or behind it, from 4096 times the grain on, is written behind the
  array: the limit is compared with \<open>>\<close> and the array ends one entry earlier.\<close>

theorem hist_overflow:
  assumes "length (hist h) = HIST_MAX" and "HIST_MAX \<le> unat (quot (recv_ts - send_ts))"
  shows "calc_latency_from_ts quot send_ts recv_ts h = Inl OutOfBounds"
  using assms by (simp add: calc_latency_from_ts_def Let_def HIST_MAX_def)

theorem hist_overflow_witness:
  "calc_latency_from_ts (\<lambda>d. ucast (d div 10)) 0 40960 hist_start = Inl OutOfBounds"
  by (rule hist_overflow) (simp_all add: hist_start_def HIST_MAX_def)

section \<open>The counter of the benchmarks\<close>

text \<open>
  The search of the map \<open>tput\<close>, or of a given number, in the maps of the kernel (number, descriptor, name)
  in the order of \<open>bpf_map_get_next_id\<close>; the number is compared as an unsigned one.
\<close>

fun find_tput :: "int \<Rightarrow> (u32 \<times> int \<times> string) list \<Rightarrow> int option" where
  "find_tput target_id [] = None"
| "find_tput target_id ((mid, map_fd, name) # ms) =
     (if name = ''tput'' \<or> word_of_int target_id = mid then Some map_fd else find_tput target_id ms)"

record tput_state =
  last_report :: int
  last_ts :: u64
  tput_value :: int

definition tput_start :: tput_state where "tput_start = \<lparr>last_report = 0, last_ts = 0, tput_value = 0\<rparr>"

definition in_long :: "int \<Rightarrow> bool" where "in_long x \<longleftrightarrow> - (2 ^ 63) \<le> x \<and> x < 2 ^ 63"

text \<open>
  One turn of the loop at time \<open>now\<close> with the result of the lookup (\<open>None\<close> when it fails, which keeps the
  old value): nothing before two seconds have passed, else the dividend and the divisor of the printed
  rate. The dividend is computed in signed arithmetic of 64 bits.
\<close>

definition tput_turn :: "u64 \<times> int option \<Rightarrow> tput_state \<Rightarrow> ((int \<times> u64) option \<times> tput_state) c_result" where
  "tput_turn turn s = (case turn of (now, found) \<Rightarrow>
     let delta = now - last_ts s in
     if delta < 2000000000 then Inr (None, s)
     else let v = (case found of None \<Rightarrow> tput_value s | Some v \<Rightarrow> v); d = v - last_report s in
       c_check (in_long d \<and> in_long (d * 1000000000)) SignedOverflow
         (Inr (Some (d * 1000000000, delta), \<lparr>last_report = v, last_ts = now, tput_value = v\<rparr>)))"

fun tput_loop :: "(u64 \<times> int option) list \<Rightarrow> tput_state \<Rightarrow> ((int \<times> u64) list \<times> tput_state) c_result" where
  "tput_loop [] s = Inr ([], s)"
| "tput_loop (t # ts) s = c_bind (tput_turn t s) (\<lambda>(r, s). c_bind (tput_loop ts s) (\<lambda>(rs, s).
     Inr ((case r of None \<Rightarrow> rs | Some x \<Rightarrow> x # rs), s)))"

lemma tput_turn_cases:
  assumes "tput_turn t s = Inr (r, s')"
  obtains (sleep) "r = None" "s' = s"
  | (print) d where "r = Some (d * 1000000000, fst t - last_ts s)" "last_report s' = last_report s + d"
      "2000000000 \<le> fst t - last_ts s" "last_ts s' = fst t"
proof -
  obtain now found where t: "t = (now, found)" by fastforce
  let ?v = "case found of None \<Rightarrow> tput_value s | Some v \<Rightarrow> v"
  obtain d where d: "?v = last_report s + d" by (metis add_diff_cancel_left' diff_add_cancel add.commute)
  show thesis
  proof (cases "now - last_ts s < 2000000000")
    case True
    then show thesis using assms sleep by (simp add: tput_turn_def t)
  next
    case False
    then have "r = Some (d * 1000000000, now - last_ts s)" "s' = \<lparr>last_report = ?v, last_ts = now, tput_value = ?v\<rparr>"
      using assms d by (simp_all add: tput_turn_def t c_check_def Let_def split: if_splits)
    then show thesis using print [of d] False d by (simp add: t not_less)
  qed
qed

text \<open>Whatever the times and however often the lookup fails, the dividends of all printed rates add up
  to the packets counted: none is lost and none is reported twice.\<close>

theorem tput_adds_up:
  assumes "tput_loop ts s = Inr (rs, s')"
  shows "sum_list (map fst rs) = (last_report s' - last_report s) * 1000000000 \<and> (\<forall>r \<in> set rs. 2000000000 \<le> snd r)"
  using assms
proof (induction ts arbitrary: s rs)
  case (Cons t ts)
  from Cons.prems obtain r s1 rs1 where t: "tput_turn t s = Inr (r, s1)" and l: "tput_loop ts s1 = Inr (rs1, s')"
    and rs: "rs = (case r of None \<Rightarrow> rs1 | Some x \<Rightarrow> x # rs1)" by (auto simp: c_bind_Inr_iff)
  note ih = Cons.IH [OF l]
  from t show ?case
    by (cases rule: tput_turn_cases) (use ih rs in \<open>auto simp: algebra_simps\<close>)
qed simp

theorem tput_adds_up_witness:
  "\<exists>rs s'. tput_loop [(3000000000, Some 7), (3500000000, Some 8), (6000000000, None)] tput_start = Inr (rs, s') \<and>
    sum_list (map fst rs) = 7000000000"
proof -
  obtain rs s' where l: "tput_loop [(3000000000, Some 7), (3500000000, Some 8), (6000000000, None)] tput_start = Inr (rs, s')"
    "last_report s' = 7" by (auto simp: tput_turn_def tput_start_def in_long_def)
  then show ?thesis using tput_adds_up [OF l(1)] by (auto simp: tput_start_def)
qed

text \<open>The first rate is the count so far divided by the time since the machine started, and more than
  9223372036 packets between two reports overflow the dividend.\<close>

theorem tput_first_and_overflow:
  assumes "2000000000 \<le> now" and "0 \<le> v" and "v < 2 ^ 63"
  shows "tput_turn (now, Some v) tput_start =
    (if v \<le> 9223372036 then Inr (Some (v * 1000000000, now), \<lparr>last_report = v, last_ts = now, tput_value = v\<rparr>)
     else Inl SignedOverflow)"
  using assms by (simp add: tput_turn_def tput_start_def in_long_def Let_def not_less c_check_def)

theorem tput_first_and_overflow_witness:
  "tput_turn (2000000000, Some 9223372037) tput_start = Inl SignedOverflow"
  using tput_first_and_overflow [of 2000000000 9223372037] by simp

end
