(* ===== verification/SmallPrograms.thy ===== *)
theory SmallPrograms
  imports ProgramRun
begin
text \<open>
  The smallest examples: the program that drops everything (\<open>examples/benchmarks/drop.c\<close>), the kernel
  program that hands everything to the socket (\<open>examples/benchmarks/xdp.c\<close>) and the busy wait
  (\<open>examples/delay/ubpf.c\<close>).
\<close>

section \<open>The programs\<close>

definition drop_prog :: "packet \<Rightarrow> (int \<times> packet) c_result" where
  "drop_prog p = Inr (DROP, p)"

text \<open>
  \<open>redirect\<close> is \<open>bpf_redirect_map\<close> on the map of sockets. The variant that copies the start of the
  packet behind it (\<open>COPY_STATE\<close>) does not compile.
\<close>

definition XDP_PASS_CODE :: int where "XDP_PASS_CODE = 2"

definition redirect_prog :: "(u32 \<Rightarrow> int \<Rightarrow> int) \<Rightarrow> u32 \<Rightarrow> int" where
  "redirect_prog redirect rx_queue_index = redirect rx_queue_index XDP_PASS_CODE"

text \<open>
  The wait reads the time stamp counter until a condition on the last reading fails; \<open>rs\<close> are the
  readings that the counter will give, and the result is \<open>None\<close> while the program is still waiting.
\<close>

definition delay_cycles :: u64 where "delay_cycles = 0"

fun wait_while :: "(u64 \<Rightarrow> bool) \<Rightarrow> u64 \<Rightarrow> u64 list \<Rightarrow> (u64 \<times> u64 list) option" where
  "wait_while c now [] = (if c now then None else Some (now, []))"
| "wait_while c now (r # rs) = (if c now then wait_while c r rs else Some (now, r # rs))"

definition delay_wait :: "u64 \<Rightarrow> u64 \<Rightarrow> u64 list \<Rightarrow> (u64 \<times> u64 list) option" where
  "delay_wait cycles start rs =
     (let now = start; till = now + cycles in
      if now \<le> till then wait_while (\<lambda>now. now < till) now rs
      else Option.bind (wait_while (\<lambda>now. now > till) now rs) (\<lambda>(now, rs). wait_while (\<lambda>now. now < till) now rs))"

fun delay_prog :: "packet \<Rightarrow> u64 list \<Rightarrow> ((int \<times> packet) \<times> u64 list) option" where
  "delay_prog p [] = None"
| "delay_prog p (start # rs) = map_option (\<lambda>(now, rs). ((DROP, p), rs)) (delay_wait delay_cycles start rs)"

section \<open>Waiting\<close>

lemma wait_while_first:
  "wait_while c now rs = (case dropWhile c (now # rs) of [] \<Rightarrow> None | r # rs \<Rightarrow> Some (r, rs))"
  by (induction rs arbitrary: now) simp_all

text \<open>As configured, the program never waits: it reads the counter once and drops the packet.\<close>

lemma delay_immediate: "delay_prog p (start # rs) = Some ((DROP, p), rs)"
  by (cases rs) (simp_all add: delay_wait_def delay_cycles_def Let_def)

text \<open>With any other constant, the wait ends at the first reading that is at least the given number of
  cycles behind the first one, as long as the 64-bit counter does not wrap during the wait. When the
  end of the wait lies behind the wrap, the program is still waiting until the counter has wrapped.\<close>

theorem delay_waits:
  assumes ks: "\<forall>k \<in> set ks. t + k < 2 ^ 64" and t: "t < 2 ^ 64" and c: "c < 2 ^ 64"
  shows "(t + c < 2 ^ 64 \<longrightarrow>
      map_option fst (delay_wait (of_nat c) (of_nat t) (map (\<lambda>k. of_nat (t + k)) ks)) =
        (case dropWhile (\<lambda>k. k < c) (0 # ks) of [] \<Rightarrow> None | k # ks \<Rightarrow> Some (of_nat (t + k)))) \<and>
    (2 ^ 64 \<le> t + c \<longrightarrow> delay_wait (of_nat c) (of_nat t) (map (\<lambda>k. of_nat (t + k)) ks) = None)"
proof -
  let ?f = "\<lambda>k. of_nat (t + k) :: u64"
  have un: "unat (?f k) = t + k" if "t + k < 2 ^ 64" for k using that by (simp only: unat_of_nat) simp
  have start: "of_nat t # map ?f ks = map ?f (0 # ks)" by simp
  have ut: "unat (of_nat t :: u64) = t" using un [of 0] t by simp
  show ?thesis
  proof (intro conjI impI)
    assume tc: "t + c < 2 ^ 64"
    then have uc: "unat (of_nat t + of_nat c :: u64) = t + c" using un [of c] by simp
    have less: "?f k < of_nat t + of_nat c \<longleftrightarrow> k < c" if "k \<in> set (0 # ks)" for k
    proof -
      have "unat (?f k) = t + k" using that ks t by (intro un) auto
      then show ?thesis using uc by (simp only: word_less_nat_alt) simp
    qed
    have le: "(of_nat t :: u64) \<le> of_nat t + of_nat c" using uc ut by (simp only: word_le_nat_alt)
    have eq: "dropWhile (\<lambda>now. now < of_nat t + of_nat c) (map ?f (0 # ks)) = map ?f (dropWhile (\<lambda>k. k < c) (0 # ks))"
      unfolding dropWhile_map using less by (intro arg_cong [where f = "map ?f"] dropWhile_cong refl) (simp only: o_apply)
    show "map_option fst (delay_wait (of_nat c) (of_nat t) (map ?f ks)) =
        (case dropWhile (\<lambda>k. k < c) (0 # ks) of [] \<Rightarrow> None | k # ks \<Rightarrow> Some (?f k))"
      unfolding delay_wait_def Let_def if_P [OF le] wait_while_first start eq
      by (cases "dropWhile (\<lambda>k. k < c) (0 # ks)") (simp_all only: list.map list.case option.map prod.sel)
  next
    assume tc: "2 ^ 64 \<le> t + c"
    have "t + c - 2 ^ 64 < 2 ^ 64" using t c by simp
    have "unat (of_nat t + of_nat c :: u64) = (t + c) mod 2 ^ 64" by (simp only: unat_of_nat flip: of_nat_add) simp
    also have "\<dots> = t + c - 2 ^ 64" using tc t c by (simp add: mod_if)
    finally have uc: "unat (of_nat t + of_nat c :: u64) = t + c - 2 ^ 64" .
    have less: "of_nat t + of_nat c < (of_nat t :: u64)" using uc ut c tc by (simp only: word_less_nat_alt)
    have gt: "of_nat t + of_nat c < ?f k" if "k \<in> set (0 # ks)" for k
    proof -
      have "unat (?f k) = t + k" using that ks t by (intro un) auto
      then show ?thesis using uc c tc by (simp only: word_less_nat_alt)
    qed
    have eq: "dropWhile (\<lambda>now. now > of_nat t + of_nat c) (map ?f (0 # ks)) = []"
      unfolding dropWhile_eq_Nil_conv set_map using gt by blast
    have "\<not> of_nat t \<le> (of_nat t + of_nat c :: u64)" using less by (simp only: not_le)
    then show "delay_wait (of_nat c) (of_nat t) (map ?f ks) = None"
      unfolding delay_wait_def Let_def wait_while_first start eq by (simp only: if_False list.case Option.bind.simps)
  qed
qed

theorem delay_waits_witness:
  "map_option fst (delay_wait 10 100 [104, 109, 113, 120]) = Some 113"
  using delay_waits [of "[4, 9, 13, 20]" 100 10] by simp

text \<open>The runtime with the program that drops everything: the packet memory stays as it is, the frame
  goes back to the fill ring when that has room, and no packet is sent or counted.\<close>

theorem dropped_frame_recycled:
  assumes "xsk_laws api view" and "heart_inv (\<lambda>w. view (rings w)) base s"
    and "taken (cv (view (rings (world s))) RxRing) \<noteq> []"
    and room: "\<not> refused (with_engine drop_prog api) FillRing (world s)"
  shows "\<exists>s'. process_packet cf (with_engine drop_prog api) vc s d = Inr s' \<and>
    view (rings (world s')) = give_back RxRing 1 (give FillRing [fill_entry api d] (view (rings (world s)))) \<and>
    umem (world s') = umem (world s) \<and> sent_count s' = sent_count s \<and> outstanding_tx s' = outstanding_tx s"
proof -
  let ?api = "with_engine drop_prog api"
  have run: "run_prog ?api (add_offset ?api (d_addr d)) (d_len d) (world s) = (DROP, d_len d, 0, world s)"
    by (simp add: run_on_def drop_prog_def packet_of_def)
  have h: "holds (\<lambda>w. view (rings w)) base None (Some NullDeref) (Suc 0) 0 (s\<lparr>world := world s\<rparr>)"
    using assms(2,3) by (simp add: holds_def heart_inv_def Let_def Suc_le_eq)
  from drop_one_placed [OF with_engine_laws [OF assms(1), of drop_prog] h, where d = d] obtain w' where
    w': "drop_one ?api d s = Inr (s\<lparr>world := w'\<rparr>)"
      "view (rings w') = placed ?api d (drop_place ?api (world s)) (view (rings (world s)))" by auto
  have same: "\<lparr>d_addr = d_addr d, d_len = d_len d\<rparr> = d" by (cases d) simp
  have "process_packet cf ?api vc s d = Inr (s\<lparr>world := w'\<rparr>)"
    unfolding process_packet_def run Let_def prod.case using w'(1)
    by (simp add: same apply_action_def DROP_def SEND_def PASS_def)
  moreover have "umem w' = umem (world s)" using drop_one_umem [OF w'(1)] by simp
  ultimately show ?thesis using w'(2) room by (simp add: drop_place_def placed_def fill_entry_def)
qed

theorem dropped_frame_recycled_witness:
  "\<exists>s'. process_packet demo_config (with_engine drop_prog (demo_api 0)) None demo_engine_heart \<lparr>d_addr = 0, d_len = 44\<rparr> = Inr s' \<and>
    umem (world s') = mem demo_packet"
proof -
  have inv: "heart_inv (\<lambda>w. dview (rings w)) 0 demo_engine_heart"
    by (simp add: demo_engine_heart_def Let_def heart_inv_def)
  have "\<not> refused (with_engine drop_prog (demo_api 0)) FillRing (world demo_engine_heart)"
    by (simp add: refused_def on_rings3_def demo_reserve_def demo_engine_heart_def demo_heart_def Let_def)
  moreover have "taken (cv (dview (rings (world demo_engine_heart))) RxRing) \<noteq> []" "umem (world demo_engine_heart) = mem demo_packet"
    by (simp_all add: demo_engine_heart_def Let_def)
  ultimately show ?thesis using dropped_frame_recycled [OF demo_laws inv, where cf = demo_config and vc = None] by metis
qed

end
