(* ===== verification/Spec2Isabelle.thy ===== *)
theory Spec2Isabelle
  imports LLRing_Multi Delivery Servant Batching StartUp MapPrograms Loaders Logging Statistics SmallPrograms
begin

text \<open>
  A verification library of Servant, a runtime that takes packets from a network interface through an
  AF_XDP socket, runs a packet program on each of them in user space, and sends, drops, or passes them to
  an unmodified application over shared memory.

  \<^bold>\<open>The program and its parts.\<close> \<open>main\<close> (\<open>src/servant.c\<close>) reads the command line (\<open>config.c\<close>), loads the
  kernel's program and sets the socket up (\<open>sockets.c\<close>), collects the kernel maps the program wants
  (\<open>map.c\<close>), opens the link to the application (\<open>interpose_link.c\<close> over \<open>vchannel.c\<close> over \<open>llring.h\<close>)
  or a raw socket (\<open>udp_socket.c\<close>), loads the packet program into the engine (\<open>brain.c\<close>) with its maps
  (\<open>userspace_maps.c\<close>), and runs the pump loop (\<open>heart.c\<close>) until a signal; then it tears down. The
  application runs with a library (\<open>interpose/interpose.c\<close>) whose \<open>recvfrom\<close>, \<open>epoll_ctl\<close> and
  \<open>epoll_wait\<close> take the passed packets from the link. \<open>examples/\<close> holds packet programs, their kernel
  counterparts and tools.

  \<^bold>\<open>Which theory models what.\<close>
  \<^item> \<open>Servant_Prelude\<close>: machine integers as words, failures of C as values (\<open>c_error\<close>, \<open>c_result\<close>: failed
    assertions, accesses outside objects, null, unset and wild pointers, \<open>exit\<close>), masked counters.
    \<open>Queue_Interface\<close> and \<open>Step_Interface\<close>: the contracts as locales, a bounded queue that can fault, a
    channel with credits, a step relation with an invariant, a thread with progress. They are
    interpreted on the ring (\<open>lq\<close>), the channel (\<open>vq\<close>), the threads on the ring (\<open>spsc_run\<close>,
    \<open>spsc_producer\<close>, \<open>spsc_consumer\<close>, \<open>mpmc_run\<close>), the initialisation of the hooks (\<open>once\<close>) and the
    loaders (\<open>loader_steps\<close>).
  \<^item> \<open>LLRing\<close>, \<open>LLRing_Concurrent\<close>, \<open>LLRing_Multi\<close>: \<open>llring.h\<close>. The record \<open>llring\<close> is \<open>struct llring\<close>, the
    operations keep their names. The unrolled copy macros equal a plain circular copy; the bodies
    refine a bounded queue; one producer and one consumer, and any number of both, interleave access by
    access and are first-in first-out; the waiting and retrying of the claims.
  \<^item> \<open>VChannel\<close>, \<open>ChannelConnect\<close>, \<open>InterposeLink\<close>: \<open>vchannel.c\<close> and \<open>interpose_link.c\<close>. The region is the
    record \<open>shared_channel\<close> with two rings and the pool of messages; sending, receiving and counting
    with the messages in flight as abstract state, the layout of the region, connecting, leaving. The
    pointers that the region stores to its rings and messages are indices, and following one is a
    fault unless the process has the region mapped at its maker's address (\<open>at_home\<close>).
  \<^item> \<open>Interpose\<close>, \<open>StartUp\<close>: \<open>interpose.c\<close> as built (\<open>RECVFROM\<close>): the table of watched sockets, the three
    hooks, the once-only initialisation by any number of threads, binding and connecting.
  \<^item> \<open>Config\<close>: \<open>config.c\<close>; \<open>parse_opt\<close> is the option switch, \<open>finish_args\<close> the rest of \<open>parse_args\<close>.
  \<^item> \<open>XskApi\<close>, \<open>Heart\<close>, \<open>DataPath\<close>, \<open>Batching\<close>: \<open>heart.c\<close> over the rings of libbpf. \<open>Heart\<close> has the
    operations and the ledger of frames, \<open>DataPath\<close> what each verdict does with a frame and the
    conservation of frames over the loop, \<open>Batching\<close> the build \<open>VM_CALL_BATCHING\<close>, where the program
    gets all packets of a turn in one call, and its agreement with the packet by packet loop when
    that call does what the packet program does (\<open>one_by_one\<close>) and the rings have the free entries
    that the turn needs (\<open>credit_law\<close> says how they are counted).
  \<^item> \<open>KernMap\<close>, \<open>Sockets\<close>, \<open>Brain\<close>, \<open>UserMaps\<close>, \<open>UdpSocket\<close>: the files of these names; \<open>Servant\<close> composes all
    of them into \<open>main\<close> with its labels. \<open>Logging\<close>: \<open>log.c\<close>. \<open>Statistics\<close>: \<open>service_stats.c\<close>,
    \<open>duration_hist.h\<close>, \<open>report_tput.c\<close>.
  \<^item> \<open>Delivery\<close> and \<open>StartUp\<close>: the way of a packet over both processes, from the set up of both sides to
    the bytes that \<open>recvfrom\<close> returns.
  \<^item> \<open>PacketBytes\<close>, \<open>PacketPrograms\<close>, \<open>Benchmarks\<close>, \<open>PacketParser\<close>, \<open>MapPrograms\<close>, \<open>SmallPrograms\<close>: the
    packet programs of \<open>examples/\<close> on a byte memory with pointers as offsets; \<open>ProgramRun\<close> runs them
    in the data path; \<open>Loaders\<close> has the two programs that attach them.

  \<^bold>\<open>What the lemmas show.\<close> For every component an invariant with its preservation, what each operation does
  on every branch, the abstract queue, channel, table or ledger it implements, and where it fails. The
  composed statements are: passed packets arrive once and in order (\<open>started_link_delivers\<close>), \<open>main\<close>,
  its command line included, ends early only for the listed causes (\<open>main_failures\<close>), it tears down in
  order what it has set up, and also what it has only tried to (\<open>main_cleans_up\<close>), no frame
  is lost or used twice except where the code abandons it (\<open>pump_conserves_frames\<close>), the rings are queues
  under any interleaving (\<open>spsc_fifo\<close>; for many threads \<open>mpmc_fifo\<close>, in runs where no \<open>2 ^ 32\<close> objects go by
  between a thread's load of a head and its compare-and-set), an echoed frame carries the answer
  (\<open>echo_served\<close>). Several theorems state what the code does where that is not what it means to do:
  a waiting message overwritten (\<open>vc_tx_overwrites\<close>), a restarted application aborted
  (\<open>restarted_application_aborts\<close>), an empty enqueue that hangs (\<open>mp_empty_enqueue_hangs\<close>).

  \<^bold>\<open>Bounds, loops and fuel.\<close> Integers have the width of the code: ring counters, lengths and flags are
  32-bit, addresses and sizes 64-bit words, and wrap-around is covered. The size of a ring is any power of
  two below \<open>2 ^ 32\<close>; the layout of the channel is proved for rings up to \<open>2 ^ 20\<close> slots, beyond the 512 that are
  used. Loops over data are structural or have a measure, so they end. Loops that wait for the outside take
  the sequence of what they meet (turns of the pump loop, moves of other threads, readings of a clock,
  results of calls) as a list, and \<open>None\<close> or the run so far is the result while the list lasts; statements
  about ending say what in the list ends the loop. No fuel is used elsewhere. Memory is sequentially
  consistent; the interleavings are of single accesses to the shared ring. The read loop of \<open>Brain\<close> is
  treated for limits below \<open>2 ^ 31\<close>, the width of its \<open>int\<close>; the only caller's limit is \<open>2 ^ 20\<close>.

  \<^bold>\<open>Parameters.\<close> Code outside the repository is an argument: the AF_XDP rings, the wakeups and the compiled
  program (\<open>xsk_api\<close> with the laws \<open>xsk_laws\<close>), the maps of the engine (\<open>ubpf_maps\<close>, \<open>maps_law\<close>), libbpf for the
  loaders (\<open>bpf_lib\<close>, \<open>link_law\<close>, \<open>update_law\<close>), the answers of system calls (\<open>connect_env\<close>, \<open>sock_env\<close>,
  \<open>xdp_env\<close>), \<open>dlsym\<close>, \<open>getopt_long\<close>, \<open>if_nametoindex\<close>, the division in single precision of the histogram. The
  laws are satisfied by the concrete functions of the witnesses (\<open>demo_api\<close>, \<open>pass_api\<close>, \<open>small_api\<close>,
  \<open>demo_maps\<close>, \<open>demo_lib\<close>).

  \<^bold>\<open>Not modelled.\<close> Text output of the dump programs and usage messages (pure output). Builds that are switched
  off: \<open>USE_POLL\<close> in \<open>heart.c\<close>, \<open>SENDMSG\<close> in \<open>interpose.c\<close> (it calls the engine with an argument less than
  the rest of the code), \<open>COPY_STATE\<close> in \<open>xdp.c\<close> (does not compile), the kernel variants of the benchmarks
  where a file has two, the debug counters of \<open>llring.h\<close>. Structures and macros that no code uses
  (statistics in \<open>defs.h\<close>, two structures in \<open>userspace_maps.c\<close>, \<open>labels.h\<close>). Floating point formatting of
  reported rates. The test framework, documentation, scripts and patches for other programs. Weak memory
  and preemption inside the C library are outside the model.
\<close>

end
